(* ===== verification/Redis_Prelude.thy ===== *)
theory Redis_Prelude
  imports Main "HOL-Library.Word" "HOL-Library.Monad_Syntax"
begin

text \<open>
  Shared vocabulary of the development.  Raw memory blocks are lists of bytes.  A read or a
  write outside a block is undefined in C, so every access function returns an option and
  \<open>None\<close> stands for the out-of-bounds access (or for a failed \<open>assert\<close>).  A theorem that an
  operation yields \<open>Some\<close> therefore includes memory safety.  Fixed-width cells inside a block
  (the elements of an integer set, the fields of a header) are handled by the cell lemmas:
  a block is \<open>concat cs\<close> for a list of equally long cells \<open>cs\<close>.
\<close>

section \<open>Types and collections\<close>

type_synonym byte = "8 word"
type_synonym u32 = "32 word"
type_synonym u64 = "64 word"

named_theorems mem_simps \<open>reads and writes on byte blocks\<close>
named_theorems cell_simps \<open>blocks seen as lists of fixed-width cells\<close>

section \<open>Memory blocks\<close>

text \<open>\<open>memcpy\<close> out of a block, \<open>memcpy\<close> into a block, \<open>memmove\<close> inside one, and \<open>realloc\<close>.
  The bytes that \<open>realloc\<close> adds are indeterminate: they come from the parameter \<open>junk\<close>.\<close>

definition get_bytes :: "'a list \<Rightarrow> nat \<Rightarrow> nat \<Rightarrow> 'a list option" where
  "get_bytes m off n = (if off + n \<le> length m then Some (take n (drop off m)) else None)"

definition put_bytes :: "'a list \<Rightarrow> nat \<Rightarrow> 'a list \<Rightarrow> 'a list option" where
  "put_bytes m off bs =
     (if off + length bs \<le> length m
      then Some (take off m @ bs @ drop (off + length bs) m) else None)"

definition memmove :: "'a list \<Rightarrow> nat \<Rightarrow> nat \<Rightarrow> nat \<Rightarrow> 'a list option" where
  "memmove m dst src n = do { bs \<leftarrow> get_bytes m src n; put_bytes m dst bs }"

definition realloc :: "(nat \<Rightarrow> 'a) \<Rightarrow> 'a list \<Rightarrow> nat \<Rightarrow> 'a list" where
  "realloc junk m n = take n m @ map junk [length m..<n]"

lemma length_realloc [simp]: "length (realloc junk m n) = n"
  by (simp add: realloc_def)

lemma realloc_grow: "length m \<le> n \<Longrightarrow> realloc junk m n = m @ map junk [length m..<n]"
  by (simp add: realloc_def)

lemma realloc_shrink: "n \<le> length m \<Longrightarrow> realloc junk m n = take n m"
  by (simp add: realloc_def)

lemma length_get_bytes: "get_bytes m off n = Some bs \<Longrightarrow> length bs = n"
  by (auto simp: get_bytes_def split: if_splits)

lemma length_put_bytes: "put_bytes m off bs = Some m' \<Longrightarrow> length m' = length m"
  by (auto simp: put_bytes_def split: if_splits)

lemma get_bytes_append1 [mem_simps]:
  "off + n \<le> length xs \<Longrightarrow> get_bytes (xs @ ys) off n = get_bytes xs off n"
  by (simp add: get_bytes_def)

lemma get_bytes_append2 [mem_simps]:
  "length xs \<le> off \<Longrightarrow> get_bytes (xs @ ys) off n = get_bytes ys (off - length xs) n"
  by (auto simp: get_bytes_def)

lemma put_bytes_append1 [mem_simps]:
  "off + length bs \<le> length xs \<Longrightarrow>
     put_bytes (xs @ ys) off bs = map_option (\<lambda>xs'. xs' @ ys) (put_bytes xs off bs)"
  by (simp add: put_bytes_def)

lemma put_bytes_append2 [mem_simps]:
  "length xs \<le> off \<Longrightarrow>
     put_bytes (xs @ ys) off bs = map_option (\<lambda>ys'. xs @ ys') (put_bytes ys (off - length xs) bs)"
  by (auto simp: put_bytes_def)

section \<open>Cells: blocks of equally long pieces\<close>

definition cells :: "nat \<Rightarrow> 'a list list \<Rightarrow> bool" where
  "cells w cs \<longleftrightarrow> (\<forall>c \<in> set cs. length c = w)"

lemma cells_Nil [simp]: "cells w []"
  by (simp add: cells_def)

lemma cells_Cons [simp]: "cells w (c # cs) \<longleftrightarrow> length c = w \<and> cells w cs"
  by (simp add: cells_def)

lemma cells_append [simp]: "cells w (cs @ ds) \<longleftrightarrow> cells w cs \<and> cells w ds"
  by (auto simp: cells_def)

lemma cells_map [simp]: "(\<And>x. length (f x) = w) \<Longrightarrow> cells w (map f xs)"
  by (simp add: cells_def)

lemma length_concat_cells [cell_simps]: "cells w cs \<Longrightarrow> length (concat cs) = length cs * w"
  by (induction cs) auto

lemma take_concat_cells [cell_simps]: "cells w cs \<Longrightarrow> take (k * w) (concat cs) = concat (take k cs)"
proof (induction cs arbitrary: k)
  case (Cons c cs)
  then show ?case by (cases k) auto
qed simp

lemma drop_concat_cells [cell_simps]: "cells w cs \<Longrightarrow> drop (k * w) (concat cs) = concat (drop k cs)"
proof (induction cs arbitrary: k)
  case (Cons c cs)
  then show ?case by (cases k) auto
qed simp

lemma cells_take [simp]: "cells w cs \<Longrightarrow> cells w (take k cs)"
  by (auto simp: cells_def dest: in_set_takeD)

lemma cells_drop [simp]: "cells w cs \<Longrightarrow> cells w (drop k cs)"
  by (auto simp: cells_def dest: in_set_dropD)

lemma cells_update [simp]: "cells w cs \<Longrightarrow> length c = w \<Longrightarrow> cells w (cs[k := c])"
  by (auto simp: cells_def dest: set_update_subset_insert [THEN subsetD])

lemma cells_get_range:
  assumes "cells w cs" "k + n \<le> length cs"
  shows "get_bytes (concat cs) (k * w) (n * w) = Some (concat (take n (drop k cs)))"
proof -
  have "k * w + n * w \<le> length cs * w"
    using assms(2) by (metis add_mult_distrib mult_le_mono1)
  then show ?thesis
    using assms by (simp add: get_bytes_def cell_simps)
qed

lemma cells_get [cell_simps]:
  assumes "cells w cs" "k < length cs"
  shows "get_bytes (concat cs) (k * w) w = Some (cs ! k)"
  using cells_get_range [of w cs k 1] assms
  by (simp add: Cons_nth_drop_Suc [symmetric])

lemma cells_put_range:
  assumes "cells w cs" "cells w ds" "k + length ds \<le> length cs"
  shows "put_bytes (concat cs) (k * w) (concat ds)
           = Some (concat (take k cs @ ds @ drop (k + length ds) cs))"
proof -
  have "k * w + length ds * w \<le> length cs * w"
    using assms(3) by (metis add_mult_distrib mult_le_mono1)
  moreover have "k * w + length ds * w = (k + length ds) * w"
    by (simp add: add_mult_distrib)
  ultimately show ?thesis
    using assms by (simp add: put_bytes_def length_concat_cells take_concat_cells drop_concat_cells)
qed

lemma cells_put [cell_simps]:
  assumes "cells w cs" "length c = w" "k < length cs"
  shows "put_bytes (concat cs) (k * w) c = Some (concat (cs[k := c]))"
  using cells_put_range [of w cs "[c]" k] assms
  by (simp add: upd_conv_take_nth_drop)

lemma cells_memmove:
  assumes "cells w cs" "src + n \<le> length cs" "dst + n \<le> length cs"
  shows "memmove (concat cs) (dst * w) (src * w) (n * w)
           = Some (concat (take dst cs @ take n (drop src cs) @ drop (dst + n) cs))"
  using assms cells_put_range [of w cs "take n (drop src cs)" dst]
  by (simp add: memmove_def cells_get_range)

section \<open>Little-endian two's complement\<close>

text \<open>\<open>le_bytes n v\<close> is what a store of the integer \<open>v\<close> converted to an \<open>n\<close>-byte integer leaves
  in memory on a little-endian machine (on a big-endian one the sources byte-swap with the
  \<open>memrev\<close> macros so that the stored bytes are the same); \<open>le_unsigned\<close> and \<open>le_signed\<close> are the
  loads.\<close>

fun le_bytes :: "nat \<Rightarrow> int \<Rightarrow> byte list" where
  "le_bytes 0 v = []"
| "le_bytes (Suc n) v = word_of_int v # le_bytes n (v div 256)"

fun le_unsigned :: "byte list \<Rightarrow> int" where
  "le_unsigned [] = 0"
| "le_unsigned (b # bs) = uint b + 256 * le_unsigned bs"

definition le_signed :: "byte list \<Rightarrow> int" where
  "le_signed bs = (let u = le_unsigned bs; n = 8 * length bs in
     if u \<ge> 2 ^ (n - 1) then u - 2 ^ n else u)"

lemma length_le_bytes [simp]: "length (le_bytes n v) = n"
  by (induction n arbitrary: v) auto

lemma le_unsigned_bounds: "0 \<le> le_unsigned bs \<and> le_unsigned bs < 256 ^ length bs"
proof (induction bs)
  case (Cons b bs)
  have "uint b < 256" using uint_lt2p [of b] by simp
  then show ?case using Cons uint_ge_0 [of b] by simp
qed simp

lemma le_unsigned_le_bytes: "le_unsigned (le_bytes n v) = v mod 256 ^ n"
proof (induction n arbitrary: v)
  case (Suc n)
  have "v mod (256 * 256 ^ n) = 256 * (v div 256 mod 256 ^ n) + v mod 256"
    by (rule zmod_zmult2_eq) simp
  then show ?case using Suc by (simp add: uint_word_of_int)
qed simp

lemma le_bytes_le_unsigned: "le_bytes (length bs) (le_unsigned bs) = bs"
proof (induction bs)
  case (Cons b bs)
  have b: "uint b < 256" "0 \<le> uint b" using uint_lt2p [of b] by simp_all
  have "(uint b + 256 * le_unsigned bs) div 256 = le_unsigned bs"
    using b by simp
  moreover have "word_of_int (uint b + 256 * le_unsigned bs) = b"
  proof -
    have "(256 :: byte) = 0" by simp
    then show ?thesis by (simp only: of_int_add of_int_mult of_int_numeral word_of_int_uint) simp
  qed
  ultimately show ?case using Cons by simp
qed simp

lemma le_signed_le_bytes:
  assumes "0 < n" "- (2 ^ (8 * n - 1)) \<le> v" "v < 2 ^ (8 * n - 1)"
  shows "le_signed (le_bytes n v) = v"
proof -
  have p: "(256::int) ^ n = 2 ^ (8 * n)" by (simp add: power_mult)
  have q: "(2::int) ^ (8 * n) = 2 * 2 ^ (8 * n - 1)"
    using assms(1) by (metis nat_0_less_mult_iff power_minus_mult mult.commute zero_less_numeral)
  show ?thesis
  proof (cases "0 \<le> v")
    case True
    then have "v mod 2 ^ (8 * n) = v" using assms(3) q by simp
    then show ?thesis
      using True assms by (simp add: le_signed_def le_unsigned_le_bytes p)
  next
    case False
    then have "v mod 2 ^ (8 * n) = v + 2 ^ (8 * n)"
      using assms(2) q by (smt (verit) mod_add_self2 mod_pos_pos_trivial zero_less_power)
    then show ?thesis
      using False assms q by (simp add: le_signed_def le_unsigned_le_bytes p)
  qed
qed

lemma le_bytes_mod: "le_bytes n v = le_bytes n (v mod 256 ^ n)"
  using le_bytes_le_unsigned [of "le_bytes n v"] by (simp add: le_unsigned_le_bytes)

lemma le_bytes_le_signed: "le_bytes (length bs) (le_signed bs) = bs"
proof -
  have "(256::int) ^ length bs = 2 ^ (8 * length bs)" by (simp add: power_mult)
  then have "le_signed bs mod 256 ^ length bs = le_unsigned bs mod 256 ^ length bs"
    by (simp add: le_signed_def Let_def)
  then show ?thesis
    using le_bytes_mod [of "length bs" "le_signed bs"] le_bytes_mod [of "length bs" "le_unsigned bs"]
    by (simp add: le_bytes_le_unsigned)
qed

lemma le_signed_bounds:
  assumes "bs \<noteq> []"
  shows "- (2 ^ (8 * length bs - 1)) \<le> le_signed bs \<and> le_signed bs < 2 ^ (8 * length bs - 1)"
proof -
  have "(256::int) ^ length bs = 2 ^ (8 * length bs)" by (simp add: power_mult)
  moreover have "(2::int) ^ (8 * length bs) = 2 * 2 ^ (8 * length bs - 1)"
    using assms by (metis length_greater_0_conv mult.commute nat_0_less_mult_iff power_minus_mult zero_less_numeral)
  ultimately show ?thesis
    using le_unsigned_bounds [of bs] by (simp add: le_signed_def Let_def)
qed

section \<open>Signed readings of 64-bit words\<close>

lemma sint_of_int_u64: "- (2 ^ 63) \<le> k \<Longrightarrow> k < 2 ^ 63 \<Longrightarrow> sint (word_of_int k :: u64) = k"
  by (subst sint_sbintrunc') (simp add: signed_take_bit_int_eq_self)

lemma sint_of_nat_u64:
  "n < 2 ^ 63 \<Longrightarrow> sint (word_of_int (int n) :: u64) = int n"
  "n \<le> 2 ^ 63 \<Longrightarrow> sint (word_of_int (- int n) :: u64) = - int n"
proof -
  show "n < 2 ^ 63 \<Longrightarrow> sint (word_of_int (int n) :: u64) = int n"
    by (rule sint_of_int_u64) simp_all
  show "n \<le> 2 ^ 63 \<Longrightarrow> sint (word_of_int (- int n) :: u64) = - int n"
    by (rule sint_of_int_u64) simp_all
qed

lemma sint_small_u64: "unat w < 2 ^ 63 \<Longrightarrow> sint w = int (unat w)" for w :: u64
proof -
  have "word_of_int (int (unat w)) = w" by simp
  then show "unat w < 2 ^ 63 \<Longrightarrow> ?thesis" using sint_of_nat_u64(1) [of "unat w"] by (simp only:)
qed

lemma sint_uminus_u64: "unat w \<le> 2 ^ 63 \<Longrightarrow> sint (- w) = - int (unat w)" for w :: u64
proof -
  have "word_of_int (- int (unat w)) = - w" by simp
  then show "unat w \<le> 2 ^ 63 \<Longrightarrow> ?thesis" using sint_of_nat_u64(2) [of "unat w"] by (simp only:)
qed

section \<open>Lists\<close>

lemma split_into_cells:
  "length m = n * w \<Longrightarrow> \<exists>cs. m = concat cs \<and> cells w cs \<and> length cs = n"
proof (induction n arbitrary: m)
  case (Suc n)
  have "length (drop w m) = n * w" using Suc.prems by simp
  then obtain cs where cs: "drop w m = concat cs" "cells w cs" "length cs = n"
    using Suc.IH by blast
  moreover have "m = take w m @ drop w m" by simp
  moreover have "length (take w m) = w" using Suc.prems by simp
  ultimately show ?case by (intro exI [of _ "take w m # cs"]) simp
qed simp

lemma nth_eq_get: "k < length xs \<Longrightarrow> get_bytes xs k 1 = Some [xs ! k]"
  by (simp add: get_bytes_def Cons_nth_drop_Suc [symmetric])

section \<open>Masks\<close>

unbundle bit_operations_syntax

lemma nat_or_disjoint: "a < 2 ^ k \<Longrightarrow> 2 ^ k dvd b \<Longrightarrow> a OR b = a + b" for a b :: nat
proof -
  assume a: "a < 2 ^ k" and d: "2 ^ k dvd b"
  have "\<not> bit a n \<or> \<not> bit b n" for n
  proof (cases "n < k")
    case True
    from d obtain c where "b = push_bit k c" by (auto simp: push_bit_eq_mult mult.commute)
    then show ?thesis using True by (simp add: bit_push_bit_iff_nat)
  next
    case False
    have "take_bit k a = a" using a by (simp add: take_bit_nat_eq_self)
    then have "\<not> bit a n" using False bit_take_bit_iff [of k a n] by simp
    then show ?thesis by simp
  qed
  then show ?thesis by (simp add: disjunctive_add)
qed

lemma unat_and_mask: "unat (w AND mask k :: 'a::len word) = unat w mod 2 ^ k"
proof -
  have "unat (w AND mask k) = take_bit k (unat w)" by (simp only: take_bit_eq_mask [symmetric] unsigned_take_bit_eq)
  then show ?thesis by (simp only: take_bit_eq_mod)
qed

lemma unat_and_not_mask: "unat (w AND NOT (mask k) :: 'a::len word) = unat w div 2 ^ k * 2 ^ k"
proof -
  have "unat w = unat ((w AND NOT (mask k)) OR (w AND mask k))"
    by (rule arg_cong, rule bit_word_eqI) (auto simp: bit_simps)
  also have "\<dots> = unat (w AND NOT (mask k)) OR unat (w AND mask k)" by (rule unsigned_or_eq)
  also have "\<dots> = unat (w AND NOT (mask k)) + unat (w AND mask k)"
  proof (rule disjunctive_add_eq_or [symmetric])
    have "(w AND NOT (mask k)) AND (w AND mask k) = 0" by (rule bit_word_eqI) (auto simp: bit_simps)
    then show "unat (w AND NOT (mask k)) AND unat (w AND mask k) = 0" by (simp flip: unsigned_and_eq)
  qed
  finally show ?thesis using unat_and_mask [of w k] minus_mod_eq_div_mult [of "unat w" "2 ^ k"] by linarith
qed

section \<open>Simulation\<close>

text \<open>A stateful component runs a list of commands, each of which may fault (\<open>None\<close>); its specification is a total
  function on abstract states.  The interface below says that every command is simulated.\<close>

fun run_cmds :: "('s \<Rightarrow> 'c \<Rightarrow> ('s \<times> 'r) option) \<Rightarrow> 's \<Rightarrow> 'c list \<Rightarrow> ('s \<times> 'r list) option" where
  "run_cmds step s [] = Some (s, [])"
| "run_cmds step s (c # cs) = do { (s, r) \<leftarrow> step s c; (s, rs) \<leftarrow> run_cmds step s cs; Some (s, r # rs) }"

fun run_spec :: "('a \<Rightarrow> 'c \<Rightarrow> 'a \<times> 'r) \<Rightarrow> 'a \<Rightarrow> 'c list \<Rightarrow> 'a \<times> 'r list" where
  "run_spec spec a [] = (a, [])"
| "run_spec spec a (c # cs) = (let (a, r) = spec a c; (a, rs) = run_spec spec a cs in (a, r # rs))"

locale simulation =
  fixes rep :: "'s \<Rightarrow> 'a \<Rightarrow> bool"
    and step :: "'s \<Rightarrow> 'c \<Rightarrow> ('s \<times> 'r) option"
    and spec :: "'a \<Rightarrow> 'c \<Rightarrow> 'a \<times> 'r"
  assumes simulates: "rep s a \<Longrightarrow> \<exists>s'. step s c = Some (s', snd (spec a c)) \<and> rep s' (fst (spec a c))"
begin

lemma run_simulates:
  "rep s a \<Longrightarrow> \<exists>s'. run_cmds step s cs = Some (s', snd (run_spec spec a cs)) \<and> rep s' (fst (run_spec spec a cs))"
proof (induction cs arbitrary: s a)
  case Nil
  then show ?case by simp
next
  case (Cons c cs)
  obtain s' where s': "step s c = Some (s', snd (spec a c))" "rep s' (fst (spec a c))"
    using simulates [OF Cons.prems] by blast
  show ?case using Cons.IH [OF s'(2)] s'(1) by (auto simp: split_beta)
qed

end

end
