(* ===== verification/Fwtree.thy ===== *)
theory Fwtree
  imports Redis_Prelude
begin

unbundle bit_operations_syntax

text \<open>
  The Fenwick tree of \<open>fwtree.c\<close>, which \<open>kvstore.c\<close> and \<open>estore.c\<close> use to find the dictionary
  (or the expiry bucket) that holds the \<open>n\<close>-th key.  Tree slots are 64-bit words with the
  wrap-around of \<open>unsigned long long\<close>; indices are C \<open>int\<close>s, modelled as integers (with at most
  29 size bits no index computed by the code leaves the range of a 32-bit \<open>int\<close>).  A \<open>NULL\<close>
  tree is \<open>None\<close>; an out-of-bounds access or a failed \<open>assert\<close> makes the result \<open>None\<close>.
  The representation predicate \<open>fw_rep\<close> ties a tree to the counters it stands for; the lemmas
  show that queries compute prefix sums, that updates change one counter, and that the
  descent finds the counter in which a running total is reached.
\<close>

section \<open>Model\<close>

record fenwickTree =
  tree :: "u64 list"
  size_bits :: nat
  ft_size :: int
  total :: u64

definition fwTreeCreate :: "nat \<Rightarrow> fenwickTree" where
  "fwTreeCreate sizeBits =
     \<lparr>tree = replicate (2 ^ sizeBits + 1) 0, size_bits = sizeBits,
      ft_size = 2 ^ sizeBits, total = 0\<rparr>"

definition lowbit :: "int \<Rightarrow> int" where
  "lowbit idx = idx AND (- idx)"

text \<open>\<open>lowbit\<close> is the least set bit: facts needed already for the termination of the loops.\<close>

lemma lowbit_double: "lowbit (2 * i) = 2 * lowbit i"
proof -
  have half: "- (2 * i) div 2 = - i" by presburger
  have "2 * i AND 2 * (- i) = 2 * (i AND - i)"
    by (subst and_int_rec) (simp add: half)
  then show ?thesis by (simp add: lowbit_def)
qed

lemma lowbit_odd: "odd i \<Longrightarrow> lowbit i = 1"
proof -
  assume "odd i"
  then obtain j where j: "i = 2 * j + 1" by (auto elim: oddE)
  have "- i = 2 * (NOT j) + 1" by (simp add: j not_int_def)
  then have "i AND - i = 1 + 2 * (j AND NOT j)"
    by (subst and_int_rec) (simp add: j)
  then show ?thesis by (simp add: lowbit_def)
qed

lemma lowbit_pow: "odd q \<Longrightarrow> lowbit (2 ^ k * q) = 2 ^ k"
  by (induction k) (auto simp: lowbit_odd lowbit_double mult.assoc)

lemma pow2_odd_decomp: "0 < i \<Longrightarrow> \<exists>k q. (i::int) = 2 ^ k * q \<and> odd q \<and> 0 < q"
proof (induction "nat i" arbitrary: i rule: less_induct)
  case less
  show ?case
  proof (cases "odd i")
    case True
    then have "i = 2 ^ 0 * i \<and> odd i \<and> 0 < i" using less.prems by simp
    then show ?thesis by blast
  next
    case False
    then obtain j where j: "i = 2 * j" by blast
    then have "nat j < nat i" "0 < j" using less.prems by simp_all
    then obtain k q where "j = 2 ^ k * q" "odd q" "0 < q" using less.hyps by blast
    then have "i = 2 ^ Suc k * q \<and> odd q \<and> 0 < q" using j by simp
    then show ?thesis by blast
  qed
qed

lemma lowbit_pos: "0 < i \<Longrightarrow> 0 < lowbit i"
  using pow2_odd_decomp [of i] by (auto simp: lowbit_pow)

lemma lowbit_le: "0 < i \<Longrightarrow> lowbit i \<le> i"
  using pow2_odd_decomp [of i] by (auto simp: lowbit_pow mult_le_cancel_left1)

function fwTreePrefixSum_loop :: "u64 list \<Rightarrow> int \<Rightarrow> u64 \<Rightarrow> u64 option" where
  "fwTreePrefixSum_loop t idx acc =
     (if idx > 0
      then if nat idx < length t
           then fwTreePrefixSum_loop t (idx - lowbit idx) (acc + t ! nat idx)
           else None
      else Some acc)"
  by pat_completeness auto
termination
  by (relation "measure (\<lambda>(t, idx, acc). nat idx)") (auto dest: lowbit_pos)

definition fwTreePrefixSum :: "fenwickTree option \<Rightarrow> int \<Rightarrow> u64 option" where
  "fwTreePrefixSum ft idx =
     (case ft of
        None \<Rightarrow> Some 0
      | Some ft \<Rightarrow>
          if idx < 0 then Some 0
          else let idx = (if idx \<ge> ft_size ft then ft_size ft - 1 else idx)
               in fwTreePrefixSum_loop (tree ft) (idx + 1) 0)"

text \<open>The loop of \<open>fwTreeUpdate\<close>.  A negative \<open>delta\<close> is guarded by the \<open>assert\<close>.  The caller
  enters the loop with a positive index and the index only grows, so the test \<open>0 < idx\<close> (needed
  for the termination proof) never decides.\<close>

function fwTreeUpdate_loop :: "u64 list \<Rightarrow> int \<Rightarrow> int \<Rightarrow> u64 \<Rightarrow> u64 list option" where
  "fwTreeUpdate_loop t sz idx delta =
     (if 0 < idx \<and> idx \<le> sz
      then if nat idx < length t \<and> \<not> (delta <s 0 \<and> t ! nat idx < - delta)
           then fwTreeUpdate_loop (t[nat idx := t ! nat idx + delta]) sz (idx + lowbit idx) delta
           else None
      else Some t)"
  by pat_completeness auto
termination
  by (relation "measure (\<lambda>(t, sz, idx, delta). nat (sz + 1 - idx))") (auto dest: lowbit_pos)

definition fwTreeUpdate :: "fenwickTree option \<Rightarrow> int \<Rightarrow> u64 \<Rightarrow> fenwickTree option option" where
  "fwTreeUpdate ft idx delta =
     (case ft of
        None \<Rightarrow> Some None
      | Some ft \<Rightarrow>
          if idx < 0 \<or> idx \<ge> ft_size ft then Some (Some ft)
          else do {
            t \<leftarrow> fwTreeUpdate_loop (tree ft) (ft_size ft) (idx + 1) delta;
            Some (Some (ft\<lparr>tree := t, total := total ft + delta\<rparr>))
          })"

fun fwTreeFindIndex_loop :: "u64 list \<Rightarrow> nat \<Rightarrow> u64 \<Rightarrow> nat \<Rightarrow> nat option" where
  "fwTreeFindIndex_loop t i target result =
     (if i = 0 then Some result
      else let current = result + i in
        if current < length t
        then if target > t ! current
             then fwTreeFindIndex_loop t (i div 2) (target - t ! current) current
             else fwTreeFindIndex_loop t (i div 2) target result
        else None)"

definition fwTreeFindIndex :: "fenwickTree \<Rightarrow> u64 \<Rightarrow> int option" where
  "fwTreeFindIndex ft target =
     (if target \<le> 0 then Some 0
      else map_option int (fwTreeFindIndex_loop (tree ft) (2 ^ size_bits ft) target 0))"

definition fwTreeFindFirstNonEmpty :: "fenwickTree \<Rightarrow> int option" where
  "fwTreeFindFirstNonEmpty ft = fwTreeFindIndex ft 1"

definition fwTreeFindNextNonEmpty :: "fenwickTree option \<Rightarrow> int \<Rightarrow> int option" where
  "fwTreeFindNextNonEmpty ft idx =
     (case ft of
        None \<Rightarrow> Some (- 1)
      | Some ft' \<Rightarrow>
          if idx < 0 \<or> idx \<ge> ft_size ft' then Some (- 1)
          else do {
            s \<leftarrow> fwTreePrefixSum ft idx;
            let next_sum = s + 1;
            if next_sum \<le> total ft' then fwTreeFindIndex ft' next_sum else Some (- 1)
          })"

definition fwTreeClear :: "fenwickTree \<Rightarrow> fenwickTree" where
  "fwTreeClear ft = ft\<lparr>tree := map (\<lambda>_. 0) (tree ft), total := 0\<rparr>"

declare fwTreePrefixSum_loop.simps [simp del] fwTreeUpdate_loop.simps [simp del]
  fwTreeFindIndex_loop.simps [simp del]

section \<open>Covered segments\<close>

text \<open>Slot \<open>i\<close> of the tree stands for the counters from \<open>i - lowbit i\<close> up to, not including, \<open>i\<close>.\<close>

definition covers :: "int \<Rightarrow> int \<Rightarrow> bool" where
  "covers i p \<longleftrightarrow> i - lowbit i \<le> p \<and> p < i"

definition seg_sum :: "(nat \<Rightarrow> nat) \<Rightarrow> int \<Rightarrow> nat" where
  "seg_sum a i = (\<Sum>j = nat (i - lowbit i)..<nat i. a j)"

lemma lowbit_dvd_decomp:
  assumes "0 < i"
  obtains k q where "i = 2 ^ k * (2 * q + 1)" "0 \<le> q" "lowbit i = 2 ^ k"
proof -
  from pow2_odd_decomp [OF assms] obtain k r where r: "i = 2 ^ k * r" "odd r" "0 < r" by blast
  then obtain q where "r = 2 * q + 1" by (auto elim: oddE)
  then show thesis using that [of k q] r by (simp add: lowbit_pow)
qed

lemma pow2_le_lowbit:
  assumes "0 < i" "2 ^ k dvd i"
  shows "2 ^ k \<le> lowbit i"
proof -
  obtain j q where jq: "i = 2 ^ j * (2 * q + 1)" "lowbit i = 2 ^ j"
    using lowbit_dvd_decomp [OF assms(1)] by metis
  have "k \<le> j"
  proof (rule ccontr)
    assume "\<not> k \<le> j"
    then have "Suc j \<le> k" by simp
    then have "(2::int) ^ Suc j dvd i" using assms(2) by (meson dvd_trans le_imp_power_dvd)
    then have "(2::int) dvd 2 * q + 1" using jq(1) by simp
    then show False by simp
  qed
  then show ?thesis using jq(2) by simp
qed

lemma lowbit_shifted:
  assumes "2 ^ Suc k dvd r"
  shows "lowbit (r + 2 ^ k) = 2 ^ k"
proof -
  from assms obtain q where "r = 2 ^ Suc k * q" by (auto elim: dvdE)
  then have "r + 2 ^ k = 2 ^ k * (2 * q + 1)" by (simp add: algebra_simps)
  then show ?thesis using lowbit_pow [of "2 * q + 1" k] by simp
qed

lemma covers_self: "0 < i \<Longrightarrow> covers i (i - 1)"
  using lowbit_pos [of i] by (simp add: covers_def)

lemma covers_next:
  assumes "0 < c" "covers c p"
  shows "covers (c + lowbit c) p"
proof -
  obtain k q where kq: "c = 2 ^ k * (2 * q + 1)" "0 \<le> q" "lowbit c = 2 ^ k"
    using lowbit_dvd_decomp [OF assms(1)] by metis
  have c: "c + lowbit c = 2 ^ Suc k * (q + 1)" using kq by (simp add: algebra_simps)
  have "0 < c + lowbit c" using assms(1) lowbit_pos [OF assms(1)] by simp
  moreover have "2 ^ Suc k dvd c + lowbit c" by (simp only: c dvd_triv_left)
  ultimately have "2 ^ Suc k \<le> lowbit (c + lowbit c)" by (rule pow2_le_lowbit)
  then show ?thesis using assms(2) kq(3) by (simp add: covers_def)
qed

lemma covers_gap:
  assumes "0 < c" "covers c p" "c < i" "i < c + lowbit c"
  shows "\<not> covers i p"
proof -
  obtain k q where kq: "c = 2 ^ k * (2 * q + 1)" "lowbit c = 2 ^ k"
    using lowbit_dvd_decomp [OF assms(1)] by metis
  obtain j r where jr: "i - c = 2 ^ j * (2 * r + 1)" "0 \<le> r" "lowbit (i - c) = 2 ^ j"
    using lowbit_dvd_decomp [of "i - c"] assms(3) by (metis diff_gt_0_iff_gt)
  have le: "2 ^ j \<le> i - c" using jr assms(3) lowbit_le [of "i - c"] by simp
  then have "(2::int) ^ j < 2 ^ k" using assms(4) kq(2) by linarith
  then have jk: "Suc j \<le> k" by simp
  then have "2 ^ Suc j dvd c" unfolding kq(1) by (meson dvd_mult2 le_imp_power_dvd)
  moreover have "i = (c + 2 ^ Suc j * r) + 2 ^ j" using jr(1) by (simp add: algebra_simps)
  ultimately have "lowbit i = 2 ^ j" by (metis dvd_add dvd_triv_left lowbit_shifted)
  then show ?thesis using le assms(2) by (simp add: covers_def)
qed

section \<open>Representation\<close>

definition fw_rep :: "fenwickTree \<Rightarrow> (nat \<Rightarrow> nat) \<Rightarrow> bool" where
  "fw_rep ft a \<longleftrightarrow>
     size_bits ft \<le> 29 \<and> ft_size ft = 2 ^ size_bits ft \<and>
     length (tree ft) = 2 ^ size_bits ft + 1 \<and>
     (\<Sum>j < 2 ^ size_bits ft. a j) < 2 ^ 64 \<and>
     (\<forall>i. 0 < i \<and> i \<le> ft_size ft \<longrightarrow> tree ft ! nat i = of_nat (seg_sum a i)) \<and>
     total ft = of_nat (\<Sum>j < 2 ^ size_bits ft. a j)"

lemma fw_repD:
  assumes "fw_rep ft a"
  shows "ft_size ft = 2 ^ size_bits ft" "length (tree ft) = 2 ^ size_bits ft + 1"
    "(\<Sum>j < 2 ^ size_bits ft. a j) < 2 ^ 64"
    "\<And>i. 0 < i \<Longrightarrow> i \<le> 2 ^ size_bits ft \<Longrightarrow> tree ft ! nat i = of_nat (seg_sum a i)"
    "total ft = of_nat (\<Sum>j < 2 ^ size_bits ft. a j)"
  using assms by (auto simp: fw_rep_def)

lemma prefix_seg:
  assumes "0 < i"
  shows "(\<Sum>j < nat i. a j) = (\<Sum>j < nat (i - lowbit i). a j) + seg_sum a i"
proof -
  have "nat (i - lowbit i) \<le> nat i" using lowbit_pos [OF assms] by simp
  then show ?thesis
    by (simp add: seg_sum_def sum.atLeastLessThan_concat flip: atLeast0LessThan)
qed

lemma prefix_mono: "(i::nat) \<le> k \<Longrightarrow> (\<Sum>j < i. a j) \<le> (\<Sum>j < k. (a j :: nat))"
  by (simp add: sum_mono2)

lemma seg_sum_le:
  assumes "fw_rep ft a" "0 < i" "i \<le> ft_size ft"
  shows "seg_sum a i \<le> (\<Sum>j < 2 ^ size_bits ft. a j)"
proof -
  have "nat i \<le> 2 ^ size_bits ft"
    using assms(3) fw_repD(1) [OF assms(1)] by (simp add: nat_le_iff)
  then show ?thesis
    using prefix_seg [OF assms(2), of a] prefix_mono [of "nat i" _ a] by fastforce
qed

lemma unat_of_nat_u64: "n < 2 ^ 64 \<Longrightarrow> unat (of_nat n :: u64) = n"
  by (simp add: unat_of_nat take_bit_nat_eq_self)

lemma fw_rep_create: "sizeBits \<le> 29 \<Longrightarrow> fw_rep (fwTreeCreate sizeBits) (\<lambda>_. 0)"
proof -
  have "replicate (2 ^ sizeBits + 1) 0 ! nat i = (0 :: u64)" if "i \<le> 2 ^ sizeBits" for i
    by (rule nth_replicate) (use that in \<open>simp add: less_Suc_eq_le nat_le_iff\<close>)
  then show "sizeBits \<le> 29 \<Longrightarrow> ?thesis"
    by (simp add: fw_rep_def fwTreeCreate_def seg_sum_def del: replicate_Suc add_Suc_right
        Suc_eq_plus1_left)
qed

lemma fw_rep_clear: "fw_rep ft a \<Longrightarrow> fw_rep (fwTreeClear ft) (\<lambda>_. 0)"
  by (auto simp: fw_rep_def fwTreeClear_def seg_sum_def nat_le_iff nat_less_iff)

section \<open>Queries\<close>

lemma fwTreePrefixSum_loop_correct:
  assumes "fw_rep ft a" "0 \<le> idx" "idx \<le> ft_size ft"
  shows "fwTreePrefixSum_loop (tree ft) idx acc = Some (acc + of_nat (\<Sum>j < nat idx. a j))"
  using assms(2,3)
proof (induction "nat idx" arbitrary: idx acc rule: less_induct)
  case less
  show ?case
  proof (cases "0 < idx")
    case True
    have lb: "0 < lowbit idx" "lowbit idx \<le> idx"
      using lowbit_pos [OF True] lowbit_le [OF True] by simp_all
    have "nat idx < length (tree ft)"
      using less.prems fw_repD(1,2) [OF assms(1)] by (simp add: less_Suc_eq_le nat_le_iff)
    moreover have "tree ft ! nat idx = of_nat (seg_sum a idx)"
      using fw_repD(1,4) [OF assms(1)] True less.prems by simp
    moreover have "fwTreePrefixSum_loop (tree ft) (idx - lowbit idx) (acc + of_nat (seg_sum a idx))
        = Some (acc + of_nat (seg_sum a idx) + of_nat (\<Sum>j < nat (idx - lowbit idx). a j))"
      using less.hyps [of "idx - lowbit idx"] less.prems True lb by simp
    ultimately show ?thesis
      using True prefix_seg [OF True, of a]
      by (subst fwTreePrefixSum_loop.simps) (simp add: add.assoc add.commute)
  next
    case False
    then show ?thesis using less.prems by (subst fwTreePrefixSum_loop.simps) simp
  qed
qed

lemma fwTreePrefixSum_correct:
  assumes "fw_rep ft a" "0 \<le> idx"
  shows "fwTreePrefixSum (Some ft) idx
           = Some (of_nat (\<Sum>j < min (nat idx + 1) (2 ^ size_bits ft). a j))"
proof -
  let ?i = "if idx \<ge> ft_size ft then ft_size ft - 1 else idx"
  have sz: "ft_size ft = 2 ^ size_bits ft" by (rule fw_repD(1) [OF assms(1)])
  have "fwTreePrefixSum_loop (tree ft) (?i + 1) 0 = Some (of_nat (\<Sum>j < nat (?i + 1). a j))"
    using fwTreePrefixSum_loop_correct [OF assms(1), of "?i + 1" 0] assms(2) sz by simp
  moreover have "nat (?i + 1) = min (nat idx + 1) (2 ^ size_bits ft)"
  proof (cases "idx \<ge> ft_size ft")
    case True
    then have "(2::nat) ^ size_bits ft \<le> nat idx" using sz assms(2) by (simp add: le_nat_iff)
    then have "min (nat idx + 1) (2 ^ size_bits ft) = 2 ^ size_bits ft" by (intro min_absorb2) linarith
    then show ?thesis using True sz by (simp add: nat_power_eq)
  next
    case False
    then have "nat idx < 2 ^ size_bits ft" using sz assms(2) by (simp add: nat_less_iff)
    then have "min (nat idx + 1) (2 ^ size_bits ft) = nat idx + 1" by (intro min_absorb1) linarith
    then show ?thesis using False assms(2) by (simp add: nat_add_distrib)
  qed
  ultimately show ?thesis using assms(2) by (simp add: fwTreePrefixSum_def Let_def)
qed

text \<open>One step of the descent: with \<open>r\<close> a multiple of \<open>2 ^ (k + 1)\<close>, the slot \<open>r + 2 ^ k\<close> holds the sum
  of the next \<open>2 ^ k\<close> counters, and the comparison halves the interval that contains the target.\<close>

lemma fwTreeFindIndex_step:
  assumes rep: "fw_rep ft a" and "2 ^ Suc k dvd r" "r + 2 ^ Suc k \<le> 2 ^ size_bits ft"
    and lo: "(\<Sum>j < r. a j) < T" and hi: "T \<le> (\<Sum>j < r + 2 ^ Suc k. a j)"
  obtains r' where
    "fwTreeFindIndex_loop (tree ft) (2 ^ k) (of_nat (T - (\<Sum>j < r. a j))) r
       = fwTreeFindIndex_loop (tree ft) (2 ^ k div 2) (of_nat (T - (\<Sum>j < r'. a j))) r'"
    "2 ^ k dvd r'" "r' + 2 ^ k \<le> 2 ^ size_bits ft"
    "(\<Sum>j < r'. a j) < T" "T \<le> (\<Sum>j < r' + 2 ^ k. a j)"
proof -
  let ?S = "\<lambda>i. \<Sum>j < i. a j"
  let ?c = "r + 2 ^ k"
  have c: "?c < length (tree ft)" "?c \<le> 2 ^ size_bits ft"
    using assms(3) fw_repD(2) [OF rep] by simp_all
  have "(2::int) ^ Suc k dvd int r" using assms(2) by (metis of_nat_dvd_iff of_nat_numeral of_nat_power)
  then have lb: "lowbit (int ?c) = 2 ^ k" using lowbit_shifted [of k "int r"] by simp
  moreover have "0 < int r + 2 ^ k" by (intro add_nonneg_pos) simp_all
  ultimately have "seg_sum a (int ?c) = ?S ?c - ?S r"
    using prefix_seg [of "int ?c" a] by (simp add: nat_add_distrib nat_power_eq)
  moreover have "tree ft ! ?c = of_nat (seg_sum a (int ?c))"
  proof -
    have "int ?c \<le> 2 ^ size_bits ft" using c(2) by (metis of_nat_le_iff of_nat_numeral of_nat_power)
    moreover have "0 < int ?c" by (simp add: add_nonneg_pos)
    ultimately show ?thesis using fw_repD(4) [OF rep, of "int ?c"] by (metis nat_int)
  qed
  ultimately have slot: "tree ft ! ?c = of_nat (?S ?c - ?S r)" by simp
  have mono: "?S r \<le> ?S ?c" "?S (r + 2 ^ Suc k) \<le> ?S (2 ^ size_bits ft)"
    using assms(3) by (intro prefix_mono; simp)+
  have big: "T < 2 ^ 64" "?S ?c < 2 ^ 64"
    using hi mono(2) fw_repD(3) [OF rep] prefix_mono [OF c(2), of a] by linarith+
  have un: "unat (of_nat (T - ?S r) :: u64) = T - ?S r" "unat (tree ft ! ?c) = ?S ?c - ?S r"
    unfolding slot using big by (intro unat_of_nat_u64; linarith)+
  have cmp: "of_nat (T - ?S r) > tree ft ! ?c \<longleftrightarrow> T > ?S ?c"
    unfolding word_less_nat_alt un using lo mono(1) by linarith
  have sub: "of_nat (T - ?S r) - tree ft ! ?c = of_nat (T - ?S ?c)" if "T > ?S ?c"
  proof -
    have "of_nat (T - ?S r) - of_nat (?S ?c - ?S r) = (of_nat (T - ?S r - (?S ?c - ?S r)) :: u64)"
      using that by (intro of_nat_diff [symmetric]) linarith
    moreover have "T - ?S r - (?S ?c - ?S r) = T - ?S ?c" using that mono(1) by linarith
    ultimately show ?thesis by (simp only: slot)
  qed
  show thesis
  proof (cases "T > ?S ?c")
    case True
    have "2 ^ k dvd ?c" using assms(2) by (meson dvd_add dvd_refl dvd_trans le_imp_power_dvd lessI less_imp_le)
    moreover have "fwTreeFindIndex_loop (tree ft) (2 ^ k) (of_nat (T - ?S r)) r
        = fwTreeFindIndex_loop (tree ft) (2 ^ k div 2) (of_nat (T - ?S ?c)) ?c"
      using True cmp sub c(1) by (subst fwTreeFindIndex_loop.simps) (simp add: Let_def)
    ultimately show thesis using True hi assms(3) by (intro that [of ?c]) (simp_all add: mult_2 add.assoc)
  next
    case False
    have "2 ^ k dvd r" using assms(2) by (meson dvd_trans le_imp_power_dvd lessI less_imp_le)
    moreover have "fwTreeFindIndex_loop (tree ft) (2 ^ k) (of_nat (T - ?S r)) r
        = fwTreeFindIndex_loop (tree ft) (2 ^ k div 2) (of_nat (T - ?S r)) r"
      using False cmp c(1) by (subst fwTreeFindIndex_loop.simps) (simp add: Let_def)
    ultimately show thesis using False lo c(2) by (intro that [of r]) simp_all
  qed
qed

lemma fwTreeFindIndex_loop_correct:
  assumes "fw_rep ft a" and "2 ^ Suc k dvd r" "r + 2 ^ Suc k \<le> 2 ^ size_bits ft"
    and "(\<Sum>j < r. a j) < T" "T \<le> (\<Sum>j < r + 2 ^ Suc k. a j)"
  shows "\<exists>r'. fwTreeFindIndex_loop (tree ft) (2 ^ k) (of_nat (T - (\<Sum>j < r. a j))) r = Some r' \<and>
           r' < 2 ^ size_bits ft \<and> (\<Sum>j < r'. a j) < T \<and> T \<le> (\<Sum>j < Suc r'. a j)"
  using assms(2-5)
proof (induction k arbitrary: r)
  case 0
  from fwTreeFindIndex_step [OF assms(1) "0.prems"] obtain r' where
    "fwTreeFindIndex_loop (tree ft) (2 ^ 0) (of_nat (T - (\<Sum>j < r. a j))) r
       = fwTreeFindIndex_loop (tree ft) (2 ^ 0 div 2) (of_nat (T - (\<Sum>j < r'. a j))) r'"
    "r' + 2 ^ 0 \<le> 2 ^ size_bits ft" "(\<Sum>j < r'. a j) < T" "T \<le> (\<Sum>j < r' + 2 ^ 0. a j)"
    by metis
  then show ?case by (intro exI [of _ r']) (simp add: fwTreeFindIndex_loop.simps [of _ 0])
next
  case (Suc k)
  from fwTreeFindIndex_step [OF assms(1) Suc.prems] obtain r' where
    "fwTreeFindIndex_loop (tree ft) (2 ^ Suc k) (of_nat (T - (\<Sum>j < r. a j))) r
       = fwTreeFindIndex_loop (tree ft) (2 ^ Suc k div 2) (of_nat (T - (\<Sum>j < r'. a j))) r'"
    "2 ^ Suc k dvd r'" "r' + 2 ^ Suc k \<le> 2 ^ size_bits ft"
    "(\<Sum>j < r'. a j) < T" "T \<le> (\<Sum>j < r' + 2 ^ Suc k. a j)"
    by metis
  then show ?case using Suc.IH [of r'] by simp
qed

lemma fwTreeFindIndex_correct:
  assumes rep: "fw_rep ft a" and "0 < T" "T \<le> (\<Sum>j < 2 ^ size_bits ft. a j)"
  shows "\<exists>r. fwTreeFindIndex ft (of_nat T) = Some (int r) \<and> r < 2 ^ size_bits ft \<and>
           (\<Sum>j < r. a j) < T \<and> T \<le> (\<Sum>j < Suc r. a j)"
proof -
  let ?n = "size_bits ft"
  have T: "T < 2 ^ 64" using assms(3) fw_repD(3) [OF rep] by simp
  then have nz: "(of_nat T :: u64) > 0" using assms(2) by (simp add: word_less_nat_alt unat_of_nat_u64)
  have top: "tree ft ! (2 ^ ?n) = of_nat (\<Sum>j < 2 ^ ?n. a j)"
  proof -
    have "lowbit (2 ^ ?n) = 2 ^ ?n" using lowbit_pow [of 1 ?n] by simp
    then have "seg_sum a (2 ^ ?n) = (\<Sum>j < 2 ^ ?n. a j)"
      by (simp add: seg_sum_def nat_power_eq atLeast0LessThan)
    then show ?thesis using fw_repD(4) [OF rep, of "2 ^ ?n"] by (simp add: nat_power_eq)
  qed
  have not_above: "\<not> of_nat T > tree ft ! (2 ^ ?n)"
    using assms(3) T fw_repD(3) [OF rep] by (simp add: top word_less_nat_alt unat_of_nat_u64 del: of_nat_sum)
  have first: "fwTreeFindIndex_loop (tree ft) (2 ^ ?n) (of_nat T) 0
      = fwTreeFindIndex_loop (tree ft) (2 ^ ?n div 2) (of_nat T) 0"
    using not_above fw_repD(2) [OF rep] by (subst fwTreeFindIndex_loop.simps) (simp add: Let_def)
  show ?thesis
  proof (cases ?n)
    case 0
    then show ?thesis using first nz assms(2,3)
      by (intro exI [of _ 0]) (simp add: fwTreeFindIndex_def fwTreeFindIndex_loop.simps [of _ 0])
  next
    case (Suc k)
    from fwTreeFindIndex_loop_correct [OF rep, of k 0 T]
    obtain r where "fwTreeFindIndex_loop (tree ft) (2 ^ k) (of_nat T) 0 = Some r" "r < 2 ^ ?n"
      "(\<Sum>j < r. a j) < T" "T \<le> (\<Sum>j < Suc r. a j)"
      using Suc assms(2,3) by auto
    then show ?thesis using first nz Suc
      by (intro exI [of _ r]) (simp add: fwTreeFindIndex_def linorder_not_le [symmetric])
  qed
qed

section \<open>Updates\<close>

lemma fwTreeUpdate_loop_correct:
  assumes "length t = nat sz + 1" "0 < c" "covers c p"
    and "\<And>i. c \<le> i \<Longrightarrow> i \<le> sz \<Longrightarrow> covers i p \<Longrightarrow> \<not> (delta <s 0 \<and> t ! nat i < - delta)"
  shows "\<exists>t'. fwTreeUpdate_loop t sz c delta = Some t' \<and> length t' = length t \<and>
           (\<forall>i. 0 < i \<and> i \<le> sz \<longrightarrow>
              t' ! nat i = t ! nat i + (if c \<le> i \<and> covers i p then delta else 0))"
  using assms
proof (induction "nat (sz + 1 - c)" arbitrary: t c rule: less_induct)
  case less
  note [simp] = fwTreeUpdate_loop.simps [of t sz c delta]
  show ?case
  proof (cases "c \<le> sz")
    case False
    then show ?thesis by auto
  next
    case True
    let ?t = "t[nat c := t ! nat c + delta]" and ?c = "c + lowbit c"
    have lb: "0 < lowbit c" using lowbit_pos less.prems(2) by simp
    have in_range: "nat c < length t" using True less.prems(1) by simp
    have "\<exists>t'. fwTreeUpdate_loop ?t sz ?c delta = Some t' \<and> length t' = length ?t \<and>
           (\<forall>i. 0 < i \<and> i \<le> sz \<longrightarrow>
              t' ! nat i = ?t ! nat i + (if ?c \<le> i \<and> covers i p then delta else 0))"
    proof (rule less.hyps)
      show "\<not> (delta <s 0 \<and> ?t ! nat i < - delta)" if "?c \<le> i" "i \<le> sz" "covers i p" for i
        using less.prems(2) less.prems(4) [of i] that lb by (simp add: nth_list_update)
    qed (use less.prems True lb covers_next in auto)
    then obtain t' where t': "fwTreeUpdate_loop ?t sz ?c delta = Some t'" "length t' = length t"
      "\<And>i. 0 < i \<Longrightarrow> i \<le> sz \<Longrightarrow>
         t' ! nat i = ?t ! nat i + (if ?c \<le> i \<and> covers i p then delta else 0)" by auto
    have "t' ! nat i = t ! nat i + (if c \<le> i \<and> covers i p then delta else 0)"
      if i: "0 < i" "i \<le> sz" for i
      using t'(3) [OF i] covers_gap [OF less.prems(2,3), of i] less.prems(2,3) in_range i lb
      by (cases "i = c") (auto simp: nth_list_update eq_nat_nat_iff)
    moreover have "\<not> (delta <s 0 \<and> t ! nat c < - delta)"
      using less.prems(3,4) True by blast
    ultimately show ?thesis using True less.prems(2) in_range t'(1,2) by auto
  qed
qed

lemma sum_upd:
  assumes "finite A"
  shows "(\<Sum>j\<in>A. (a(p := v)) j) + (if p \<in> A then a p else 0)
           = (\<Sum>j\<in>A. a j) + (if p \<in> A then (v::nat) else 0)"
proof (cases "p \<in> A")
  case True
  then show ?thesis
    using sum.remove [OF assms True, of a] sum.remove [OF assms True, of "a(p := v)"] by simp
next
  case False
  then have "(\<Sum>j\<in>A. (a(p := v)) j) = (\<Sum>j\<in>A. a j)" by (intro sum.cong) auto
  then show ?thesis using False by simp
qed

text \<open>The counter after an update by a signed 64-bit \<open>delta\<close>.\<close>

definition bump :: "(nat \<Rightarrow> nat) \<Rightarrow> nat \<Rightarrow> u64 \<Rightarrow> nat \<Rightarrow> nat" where
  "bump a p delta = a(p := nat (int (a p) + sint delta))"

lemma of_nat_bump_sum:
  assumes "0 \<le> int (a p) + sint delta" "finite A"
  shows "(of_nat (\<Sum>j\<in>A. bump a p delta j) :: u64)
           = of_nat (\<Sum>j\<in>A. a j) + (if p \<in> A then delta else 0)"
proof -
  let ?v = "nat (int (a p) + sint delta)"
  have "(of_nat (\<Sum>j\<in>A. bump a p delta j) :: u64) + of_nat (if p \<in> A then a p else 0)
      = of_nat (\<Sum>j\<in>A. a j) + of_nat (if p \<in> A then ?v else 0)"
    unfolding bump_def using arg_cong [OF sum_upd [OF assms(2), of a p ?v], of of_nat]
    by (simp only: of_nat_add)
  moreover have "(of_nat ?v :: u64) = of_nat (a p) + delta"
    using assms(1) by (simp add: of_nat_nat)
  ultimately show ?thesis by (simp add: algebra_simps split: if_splits)
qed

lemma unat_uminus_sint:
  fixes w :: "64 word"
  assumes "w <s 0"
  shows "int (unat (- w)) = - sint w"
proof -
  have neg: "sint w < 0" using assms by (simp add: word_sless_alt)
  have ge: "- (2 ^ 63) \<le> sint w" using sint_ge [of w] by simp
  have "- w = word_of_int (- sint w)" by simp
  then have "uint (- w) = (- sint w) mod 2 ^ 64" by (simp only: uint_word_of_int) simp
  also have "\<dots> = - sint w" using neg ge by (intro mod_pos_pos_trivial) simp_all
  finally show ?thesis by simp
qed

lemma fwTreeUpdate_correct:
  assumes rep: "fw_rep ft a" and p: "p < 2 ^ size_bits ft"
    and nonneg: "0 \<le> int (a p) + sint delta"
    and small: "(\<Sum>j < 2 ^ size_bits ft. bump a p delta j) < 2 ^ 64"
  shows "\<exists>ft'. fwTreeUpdate (Some ft) (int p) delta = Some (Some ft') \<and>
           fw_rep ft' (bump a p delta) \<and> size_bits ft' = size_bits ft"
proof -
  have sz: "ft_size ft = 2 ^ size_bits ft" by (rule fw_repD(1) [OF rep])
  have len: "length (tree ft) = nat (ft_size ft) + 1"
    using fw_repD(2) [OF rep] sz by (simp add: nat_power_eq)
  have guard: "\<not> (delta <s 0 \<and> tree ft ! nat i < - delta)"
    if "int p + 1 \<le> i" "i \<le> ft_size ft" "covers i (int p)" for i
  proof
    assume *: "delta <s 0 \<and> tree ft ! nat i < - delta"
    have i: "0 < i" using that(1) by simp
    have "a p \<le> seg_sum a i"
      unfolding seg_sum_def using that(3)
      by (intro member_le_sum) (auto simp: covers_def nat_le_iff less_nat_zero_code zless_nat_conj)
    moreover have "seg_sum a i < 2 ^ 64"
      using seg_sum_le [OF rep i that(2)] fw_repD(3) [OF rep] by simp
    ultimately have "a p \<le> unat (tree ft ! nat i)"
      using fw_repD(4) [OF rep i] that(2) sz by (simp add: unat_of_nat_u64)
    moreover have "int (unat (- delta)) = - sint delta" using * by (intro unat_uminus_sint) simp
    moreover have "unat (tree ft ! nat i) < unat (- delta)" using * by (simp add: word_less_nat_alt)
    ultimately show False using nonneg by linarith
  qed
  obtain t' where t': "fwTreeUpdate_loop (tree ft) (ft_size ft) (int p + 1) delta = Some t'"
      "length t' = length (tree ft)"
      "\<And>i. 0 < i \<Longrightarrow> i \<le> ft_size ft \<Longrightarrow> t' ! nat i
         = tree ft ! nat i + (if int p + 1 \<le> i \<and> covers i (int p) then delta else 0)"
    using fwTreeUpdate_loop_correct [OF len, of "int p + 1" "int p" delta] guard
      covers_self [of "int p + 1"] by auto
  let ?ft = "ft\<lparr>tree := t', total := total ft + delta\<rparr>"
  have "t' ! nat i = of_nat (seg_sum (bump a p delta) i)" if i: "0 < i" "i \<le> ft_size ft" for i
  proof -
    have "p \<in> {nat (i - lowbit i)..<nat i} \<longleftrightarrow> int p + 1 \<le> i \<and> covers i (int p)"
      by (auto simp: covers_def nat_le_iff zless_nat_conj)
    then show ?thesis
      using t'(3) [OF i] fw_repD(4) [OF rep i(1)] i(2) sz
        of_nat_bump_sum [where a = a and p = p and delta = delta, OF nonneg, of "{nat (i - lowbit i)..<nat i}"]
      by (simp add: seg_sum_def)
  qed
  then have "fw_rep ?ft (bump a p delta)"
    using rep small t'(2) p of_nat_bump_sum [where a = a and p = p and delta = delta, OF nonneg, of "{..<2 ^ size_bits ft}"]
    by (simp add: fw_rep_def)
  then show ?thesis
    using t'(1) p sz by (auto simp: fwTreeUpdate_def nat_less_iff [symmetric] add.commute)
qed

section \<open>Non-empty counters\<close>

text \<open>\<open>fwTreeFindNextNonEmpty\<close> returns the least index above \<open>idx\<close> with a non-zero counter.\<close>

lemma fwTreeFindIndex_first_above:
  assumes rep: "fw_rep ft a" and "i \<le> 2 ^ size_bits ft"
    and "(\<Sum>j < i. a j) < (\<Sum>j < 2 ^ size_bits ft. a j)"
  shows "\<exists>r. fwTreeFindIndex ft (of_nat ((\<Sum>j < i. a j) + 1)) = Some (int r) \<and>
           i \<le> r \<and> r < 2 ^ size_bits ft \<and> 0 < a r \<and> (\<forall>j. i \<le> j \<and> j < r \<longrightarrow> a j = 0)"
proof -
  let ?S = "\<lambda>i. \<Sum>j < i. a j"
  obtain r where r: "fwTreeFindIndex ft (of_nat (?S i + 1)) = Some (int r)"
      "r < 2 ^ size_bits ft" "?S r < ?S i + 1" "?S i + 1 \<le> ?S (Suc r)"
    using fwTreeFindIndex_correct [OF rep, of "?S i + 1"] assms(3) by auto
  have ir: "i \<le> r"
  proof (rule ccontr)
    assume "\<not> i \<le> r"
    then have "?S (Suc r) \<le> ?S i" by (intro prefix_mono) simp
    then show False using r(4) by simp
  qed
  have "?S r = ?S i" using r(3) prefix_mono [OF ir, of a] by simp
  then have "a j = 0" if "i \<le> j" "j < r" for j
  proof -
    have "?S (Suc j) \<le> ?S r" "?S i \<le> ?S j" using that by (intro prefix_mono; simp)+
    then show ?thesis using \<open>?S r = ?S i\<close> by simp
  qed
  moreover have "0 < a r" using r(4) \<open>?S r = ?S i\<close> by simp
  ultimately show ?thesis using r(1,2) ir by blast
qed

lemma fwTreeFindNextNonEmpty_correct:
  assumes rep: "fw_rep ft a" and i: "i < 2 ^ size_bits ft"
    and max: "(\<Sum>j < 2 ^ size_bits ft. a j) < 2 ^ 64 - 1"
  shows "fwTreeFindNextNonEmpty (Some ft) (int i)
           = Some (if \<exists>j. i < j \<and> j < 2 ^ size_bits ft \<and> 0 < a j
                   then int (LEAST j. i < j \<and> 0 < a j) else - 1)"
proof -
  let ?S = "\<lambda>i. \<Sum>j < i. a j" and ?n = "2 ^ size_bits ft :: nat"
  have le: "?S (Suc i) \<le> ?S ?n" using i by (intro prefix_mono) simp
  have pre: "fwTreePrefixSum (Some ft) (int i) = Some (of_nat (?S (Suc i)))"
    using fwTreePrefixSum_correct [OF rep, of "int i"] i by (simp add: min_absorb1)
  have cmp: "of_nat (?S (Suc i)) + 1 \<le> total ft \<longleftrightarrow> ?S (Suc i) < ?S ?n"
  proof -
    have "unat (of_nat (?S (Suc i)) + 1 :: u64) = ?S (Suc i) + 1"
      using unat_of_nat_u64 [of "?S (Suc i) + 1"] le max by (simp only: of_nat_add of_nat_1)
    moreover have "unat (total ft) = ?S ?n"
      unfolding fw_repD(5) [OF rep] by (rule unat_of_nat_u64 [OF fw_repD(3) [OF rep]])
    ultimately show ?thesis by (simp only: word_le_nat_alt Suc_le_eq flip: Suc_eq_plus1)
  qed
  have rng: "\<not> (int i < 0 \<or> int i \<ge> ft_size ft)"
    using i fw_repD(1) [OF rep] by (simp add: nat_less_iff [symmetric])
  show ?thesis
  proof (cases "?S (Suc i) < ?S ?n")
    case True
    from fwTreeFindIndex_first_above [OF rep Suc_leI [OF i] True] obtain r where
      r: "fwTreeFindIndex ft (of_nat (?S (Suc i) + 1)) = Some (int r)" "Suc i \<le> r" "r < ?n"
        "0 < a r" "\<forall>j. Suc i \<le> j \<and> j < r \<longrightarrow> a j = 0" by blast
    have "(LEAST j. i < j \<and> 0 < a j) = r"
      using r(2,4,5) by (intro Least_equality) (auto simp: not_less [symmetric])
    moreover have "fwTreeFindIndex ft (of_nat (?S (Suc i)) + 1) = Some (int r)"
      using r(1) by (simp only: of_nat_add of_nat_1)
    ultimately show ?thesis
      using True pre cmp rng r(2-4)
      by (auto simp: fwTreeFindNextNonEmpty_def Let_def Suc_le_eq simp del: sum.lessThan_Suc of_nat_sum)
  next
    case False
    then have eq: "?S (Suc i) = ?S ?n" using le by simp
    have "a j = 0" if "i < j" "j < ?n" for j
    proof -
      have "?S (Suc j) \<le> ?S ?n" "?S (Suc i) \<le> ?S j" using that by (intro prefix_mono; simp)+
      then show ?thesis using eq by simp
    qed
    then have "\<not> (\<exists>j. i < j \<and> j < ?n \<and> 0 < a j)" by auto
    then show ?thesis
      using False pre cmp rng
      by (auto simp: fwTreeFindNextNonEmpty_def Let_def simp del: sum.lessThan_Suc of_nat_sum)
  qed
qed

section \<open>The interface of a counter index\<close>

text \<open>What \<open>kvstore.c\<close> and \<open>estore.c\<close> rely on: \<open>n\<close> counters that can be changed one at a time, and a query for
  the next counter that is not zero.  The client applies a list of changes and then walks over the
  non-empty positions.\<close>

fun run_updates :: "('t \<Rightarrow> nat \<Rightarrow> int \<Rightarrow> 't option) \<Rightarrow> 't \<Rightarrow> (nat \<times> int) list \<Rightarrow> 't option" where
  "run_updates upd t [] = Some t"
| "run_updates upd t ((p, d) # us) = do { t \<leftarrow> upd t p d; run_updates upd t us }"

definition add_count :: "(nat \<Rightarrow> nat) \<Rightarrow> nat \<Rightarrow> int \<Rightarrow> nat \<Rightarrow> nat" where
  "add_count a p d = a(p := nat (int (a p) + d))"

fun add_counts :: "(nat \<Rightarrow> nat) \<Rightarrow> (nat \<times> int) list \<Rightarrow> nat \<Rightarrow> nat" where
  "add_counts a [] = a"
| "add_counts a ((p, d) # us) = add_counts (add_count a p d) us"

text \<open>A change is admissible when it stays in range, leaves no counter negative and keeps the total below
  the largest 64-bit value.\<close>

definition update_ok :: "nat \<Rightarrow> (nat \<Rightarrow> nat) \<Rightarrow> nat \<Rightarrow> int \<Rightarrow> bool" where
  "update_ok n a p d \<longleftrightarrow>
     p < n \<and> - (2 ^ 63) \<le> d \<and> d < 2 ^ 63 \<and> 0 \<le> int (a p) + d \<and>
     (\<Sum>j < n. add_count a p d j) < 2 ^ 64 - 1"

fun updates_ok :: "nat \<Rightarrow> (nat \<Rightarrow> nat) \<Rightarrow> (nat \<times> int) list \<Rightarrow> bool" where
  "updates_ok n a [] = True"
| "updates_ok n a ((p, d) # us) = (update_ok n a p d \<and> updates_ok n (add_count a p d) us)"

fun walk :: "('t \<Rightarrow> int \<Rightarrow> int option) \<Rightarrow> nat \<Rightarrow> 't \<Rightarrow> int \<Rightarrow> int list option" where
  "walk nxt 0 t i = None"
| "walk nxt (Suc fuel) t i =
     do { j \<leftarrow> nxt t i; if j = - 1 then Some [] else do { js \<leftarrow> walk nxt fuel t j; Some (j # js) } }"

lemma filter_upt_Least:
  assumes "i < (j::nat)" "j < n" "P j" "\<And>k. i < k \<Longrightarrow> k < j \<Longrightarrow> \<not> P k"
  shows "filter P [Suc i..<n] = j # filter P [Suc j..<n]"
proof -
  have "[Suc i..<n] = [Suc i..<j] @ j # [Suc j..<n]"
    using assms(1,2) upt_add_eq_append [of "Suc i" j "n - j"] by (simp add: upt_conv_Cons)
  then show ?thesis using assms(3,4) by simp
qed

locale count_index =
  fixes rep :: "'t \<Rightarrow> nat \<Rightarrow> (nat \<Rightarrow> nat) \<Rightarrow> bool"
    and upd :: "'t \<Rightarrow> nat \<Rightarrow> int \<Rightarrow> 't option"
    and nxt :: "'t \<Rightarrow> int \<Rightarrow> int option"
  assumes upd_law: "rep t n a \<Longrightarrow> update_ok n a p d \<Longrightarrow>
      \<exists>t'. upd t p d = Some t' \<and> rep t' n (add_count a p d)"
    and nxt_law: "rep t n a \<Longrightarrow> i < n \<Longrightarrow>
      nxt t (int i) = Some (if \<exists>j. i < j \<and> j < n \<and> 0 < a j then int (LEAST j. i < j \<and> 0 < a j) else - 1)"
begin

lemma run_updates_correct:
  "rep t n a \<Longrightarrow> updates_ok n a us \<Longrightarrow>
   \<exists>t'. run_updates upd t us = Some t' \<and> rep t' n (add_counts a us)"
proof (induction us arbitrary: t a)
  case Nil
  then show ?case by simp
next
  case (Cons u us)
  obtain p d where u: "u = (p, d)" by fastforce
  then obtain t' where t': "upd t p d = Some t'" "rep t' n (add_count a p d)"
    using upd_law [OF Cons.prems(1)] Cons.prems(2) by auto
  show ?case using Cons.IH [OF t'(2)] Cons.prems(2) t'(1) u by simp
qed

lemma walk_correct:
  assumes "rep t n a"
  shows "i < n \<Longrightarrow> n - i \<le> fuel \<Longrightarrow>
    walk nxt fuel t (int i) = Some (map int (filter (\<lambda>j. 0 < a j) [Suc i..<n]))"
proof (induction fuel arbitrary: i)
  case 0
  then show ?case by simp
next
  case (Suc fuel)
  show ?case
  proof (cases "\<exists>j. i < j \<and> j < n \<and> 0 < a j")
    case False
    then have "filter (\<lambda>j. 0 < a j) [Suc i..<n] = []" by (auto simp: filter_empty_conv)
    then show ?thesis using nxt_law [OF assms Suc.prems(1)] False by simp
  next
    case True
    define P where "P = (\<lambda>j. i < j \<and> 0 < a j)"
    obtain k where k: "P k" "k < n" using True unfolding P_def by blast
    have "P (Least P)" "Least P < n"
      using LeastI [of P, OF k(1)] Least_le [of P, OF k(1)] k(2) by simp_all
    moreover have "\<not> 0 < a l" if "i < l" "l < Least P" for l
      using not_less_Least [OF that(2)] that(1) by (simp add: P_def)
    ultimately have j: "i < Least P" "0 < a (Least P)" "Least P < n"
        "filter (\<lambda>j. 0 < a j) [Suc i..<n] = Least P # filter (\<lambda>j. 0 < a j) [Suc (Least P)..<n]"
      using filter_upt_Least [of i "Least P" n "\<lambda>j. 0 < a j"] by (simp_all add: P_def)
    have "nxt t (int i) = Some (int (Least P))"
      using nxt_law [OF assms Suc.prems(1)] True by (simp add: P_def)
    then show ?thesis using Suc.IH [OF j(3)] Suc.prems j(1,4) by simp
  qed
qed

end

text \<open>A tree of \<open>2^size_bits\<close> slots is such an index.\<close>

definition fw_index :: "fenwickTree \<Rightarrow> nat \<Rightarrow> (nat \<Rightarrow> nat) \<Rightarrow> bool" where
  "fw_index ft n a \<longleftrightarrow> fw_rep ft a \<and> n = 2 ^ size_bits ft \<and> (\<Sum>j < n. a j) < 2 ^ 64 - 1"

lemma fw_index_elim:
  assumes "fw_index ft n a"
  obtains "fw_rep ft a" "n = 2 ^ size_bits ft" "(\<Sum>j < 2 ^ size_bits ft. a j) < 2 ^ 64 - 1"
  using assms unfolding fw_index_def by blast

definition fw_upd :: "fenwickTree \<Rightarrow> nat \<Rightarrow> int \<Rightarrow> fenwickTree option" where
  "fw_upd ft p d = Option.bind (fwTreeUpdate (Some ft) (int p) (of_int d)) id"

definition fw_nxt :: "fenwickTree \<Rightarrow> int \<Rightarrow> int option" where
  "fw_nxt ft i = fwTreeFindNextNonEmpty (Some ft) i"

interpretation fw: count_index fw_index fw_upd fw_nxt
proof
  fix ft n a p d
  assume rep: "fw_index ft n a" and ok: "update_ok n a p d"
  have "sint (of_int d :: u64) = d" using ok by (intro sint_of_int_u64) (auto simp: update_ok_def)
  then have "bump a p (of_int d) = add_count a p d" by (simp add: bump_def add_count_def)
  then show "\<exists>ft'. fw_upd ft p d = Some ft' \<and> fw_index ft' n (add_count a p d)"
    using fwTreeUpdate_correct [of ft a p "of_int d"] rep ok
    by (auto simp: fw_index_def fw_upd_def update_ok_def add_count_def sint_of_int_u64)
next
  fix ft n a i
  assume "fw_index ft n a" "i < n"
  then show "fw_nxt ft (int i)
      = Some (if \<exists>j. i < j \<and> j < n \<and> 0 < a j then int (LEAST j. i < j \<and> 0 < a j) else - 1)"
    by (elim conjE fw_index_elim) (simp only: fw_nxt_def fwTreeFindNextNonEmpty_correct)
qed

lemma fw_index_create: "sizeBits \<le> 29 \<Longrightarrow> fw_index (fwTreeCreate sizeBits) (2 ^ sizeBits) (\<lambda>_. 0)"
  using fw_rep_create by (simp add: fw_index_def fwTreeCreate_def)

section \<open>Properties\<close>

lemma sum_upto_small:
  "(\<Sum>j < (2::nat). f j) = f 0 + f 1"
  "(\<Sum>j < (3::nat). f j) = f 0 + f 1 + f 2"
  "(\<Sum>j < (4::nat). f j) = f 0 + f 1 + f 2 + f 3"
  by (simp_all add: eval_nat_numeral)

text \<open>C21. After any admissible sequence of \<open>fwTreeUpdate\<close> calls on a fresh tree no \<open>assert\<close> has failed and no
  slot outside the array was touched, and \<open>fwTreePrefixSum\<close> returns, at every index, the exact sum of the
  counters up to it; an index past the end is clamped to the last counter.\<close>

theorem fwTree_prefix_sums:
  assumes "sizeBits \<le> 29" "updates_ok (2 ^ sizeBits) (\<lambda>_. 0) us" "0 \<le> idx"
  shows "\<exists>ft. run_updates fw_upd (fwTreeCreate sizeBits) us = Some ft \<and>
           fwTreePrefixSum (Some ft) idx
             = Some (of_nat (\<Sum>j < min (nat idx + 1) (2 ^ sizeBits). add_counts (\<lambda>_. 0) us j))"
  using fw.run_updates_correct [OF fw_index_create [OF assms(1)] assms(2)] fwTreePrefixSum_correct [OF _ assms(3)]
  by (auto simp: fw_index_def power_inject_exp)

theorem fwTree_prefix_sums_witness:
  "\<exists>ft. run_updates fw_upd (fwTreeCreate 2) [(1, 5), (3, 2), (1, - 1)] = Some ft \<and>
        fwTreePrefixSum (Some ft) 2 = Some 4"
  using fwTree_prefix_sums [of 2 "[(1, 5), (3, 2), (1, - 1)]" 2]
  by (simp add: update_ok_def add_count_def sum_upto_small)

text \<open>C26. For a target between 1 and the total, \<open>fwTreeFindIndex\<close> stays inside the array and returns the
  counter in which the running total reaches the target.\<close>

theorem fwTree_find_index:
  assumes "fw_rep ft a" "0 < T" "T \<le> (\<Sum>j < 2 ^ size_bits ft. a j)"
  shows "\<exists>r. fwTreeFindIndex ft (of_nat T) = Some (int r) \<and> r < 2 ^ size_bits ft \<and>
           (\<Sum>j < r. a j) < T \<and> T \<le> (\<Sum>j < Suc r. a j)"
  by (rule fwTreeFindIndex_correct [OF assms])

theorem fwTree_find_index_witness:
  "\<exists>r. fwTreeFindIndex \<lparr>tree = [0, 2, 5], size_bits = 1, ft_size = 2, total = 5\<rparr> 3 = Some (int r)"
proof -
  let ?ft = "\<lparr>tree = [0, 2, 5], size_bits = 1, ft_size = 2, total = 5\<rparr>"
  have "tree ?ft ! nat i = of_nat (seg_sum ((\<lambda>_. 0)(0 := 2, 1 := 3)) i)" if "0 < i" "i \<le> 2" for i
  proof -
    have "i = 1 \<or> i = 2" using that by auto
    then show ?thesis by (auto simp: seg_sum_def lowbit_def numeral_2_eq_2)
  qed
  then have "fw_rep ?ft ((\<lambda>_. 0)(0 := 2, 1 := 3))"
    by (simp add: fw_rep_def sum_upto_small)
  from fwTree_find_index [OF this, of 3] show ?thesis by (simp add: sum_upto_small) blast
qed



text \<open>On an empty tree of two or more slots \<open>fwTreeFindFirstNonEmpty\<close> reads past the end of the array
  (the comment of \<open>fwTreeFindIndex\<close> promises 0 there); its callers test for emptiness first.\<close>

theorem fwTree_first_of_empty:
  assumes "fw_rep ft (\<lambda>_. 0)" "0 < size_bits ft"
  shows "fwTreeFindFirstNonEmpty ft = None"
proof -
  obtain k where k: "size_bits ft = Suc k" using assms(2) by (cases "size_bits ft") auto
  have top: "tree ft ! (2 * 2 ^ k) = 0"
    using fw_repD(4) [OF assms(1), of "2 ^ size_bits ft"] k by (simp add: seg_sum_def nat_mult_distrib nat_power_eq)
  have len: "length (tree ft) = 2 * 2 ^ k + 1" using fw_repD(2) [OF assms(1)] k by simp
  have "fwTreeFindIndex_loop (tree ft) (2 ^ k) 1 (2 * 2 ^ k) = None"
    using len by (subst fwTreeFindIndex_loop.simps) simp
  then have "fwTreeFindIndex_loop (tree ft) (2 * 2 ^ k) 1 0 = None"
    using len top by (subst fwTreeFindIndex_loop.simps) simp
  then show ?thesis by (simp add: fwTreeFindFirstNonEmpty_def fwTreeFindIndex_def k)
qed

theorem fwTree_first_of_empty_witness: "fwTreeFindFirstNonEmpty (fwTreeCreate 3) = None"
  using fwTree_first_of_empty [OF fw_rep_create, of 3] by (simp add: fwTreeCreate_def)

end
