(* ===== verification/Intset.thy ===== *)
theory Intset
  imports Redis_Prelude
begin

text \<open>
  The integer set of \<open>intset.c\<close>: a sorted array of integers stored in the narrowest of three
  widths, little-endian, behind a header with the width in bytes and the element count.  The
  model keeps the array as bytes.  A read or a write outside the allocated array, or a failed
  \<open>assert\<close>, is \<open>None\<close>.  Stored values are integers; converting one to the width of a cell and
  back is \<open>le_bytes\<close> and \<open>le_signed\<close>.  \<open>int\<close> and \<open>uint32_t\<close> locals that the code compares or
  subtracts are integers below \<open>2 ^ 31\<close> under the size bound of the invariant, except for the
  byte count of \<open>intsetMoveTail\<close>, which is kept as a 32-bit word because it can wrap.
\<close>

section \<open>Model\<close>

record intset =
  encoding :: nat
  is_length :: nat
  contents :: "byte list"

definition INTSET_ENC_INT16 :: nat where "INTSET_ENC_INT16 = 2"
definition INTSET_ENC_INT32 :: nat where "INTSET_ENC_INT32 = 4"
definition INTSET_ENC_INT64 :: nat where "INTSET_ENC_INT64 = 8"

lemmas enc_defs = INTSET_ENC_INT16_def INTSET_ENC_INT32_def INTSET_ENC_INT64_def

definition intsetValueEncoding :: "int \<Rightarrow> nat" where
  "intsetValueEncoding v =
     (if v < - (2 ^ 31) \<or> v > 2 ^ 31 - 1 then INTSET_ENC_INT64
      else if v < - (2 ^ 15) \<or> v > 2 ^ 15 - 1 then INTSET_ENC_INT32
      else INTSET_ENC_INT16)"

text \<open>The width of the cell the three-way branch on the encoding selects: any value other than
  8 and 4 falls into the last branch.\<close>

definition cell_width :: "nat \<Rightarrow> nat" where
  "cell_width enc = (if enc = INTSET_ENC_INT64 then 8 else if enc = INTSET_ENC_INT32 then 4 else 2)"

definition intsetGetEncoded :: "intset \<Rightarrow> nat \<Rightarrow> nat \<Rightarrow> int option" where
  "intsetGetEncoded is pos enc =
     map_option le_signed
       (get_bytes (contents is) (pos * cell_width enc) (cell_width enc))"

definition intsetGet_cell :: "intset \<Rightarrow> nat \<Rightarrow> int option" where
  "intsetGet_cell is pos = intsetGetEncoded is pos (encoding is)"

definition intsetSet_cell :: "intset \<Rightarrow> nat \<Rightarrow> int \<Rightarrow> intset option" where
  "intsetSet_cell is pos value = do {
     c \<leftarrow> put_bytes (contents is) (pos * cell_width (encoding is))
           (le_bytes (cell_width (encoding is)) value);
     Some (is\<lparr>contents := c\<rparr>)
   }"

definition intsetNew :: intset where
  "intsetNew = \<lparr>encoding = INTSET_ENC_INT16, is_length = 0, contents = []\<rparr>"

text \<open>\<open>sizeof(intset)\<close> is 8 (two 32-bit fields) and \<open>SIZE_MAX\<close> is \<open>2 ^ 64 - 1\<close>.\<close>

definition intsetAllocSize :: "intset \<Rightarrow> nat option" where
  "intsetAllocSize is = (let size = is_length is * encoding is in
     if size \<le> 2 ^ 64 - 1 - 8 then Some (8 + size) else None)"

definition intsetResize :: "(nat \<Rightarrow> byte) \<Rightarrow> intset \<Rightarrow> nat \<Rightarrow> intset option" where
  "intsetResize junk is len = (let size = len * encoding is in
     if size \<le> 2 ^ 64 - 1 - 8 then Some (is\<lparr>contents := realloc junk (contents is) size\<rparr>)
     else None)"

text \<open>The binary search loop of \<open>intsetSearch\<close>: \<open>(found, pos)\<close>.  The loop (\<open>lo\<close> and \<open>hi\<close> are
  the source's \<open>min\<close> and \<open>max\<close>) either breaks on the value or ends with \<open>hi < lo\<close>; \<open>cur\<close> after the loop equals \<open>value\<close> exactly in the first case.\<close>

function intsetSearch_loop :: "intset \<Rightarrow> int \<Rightarrow> int \<Rightarrow> int \<Rightarrow> (bool \<times> int) option" where
  "intsetSearch_loop is value lo hi =
     (if hi \<ge> lo
      then let mid = (lo + hi) div 2 in do {
        cur \<leftarrow> intsetGet_cell is (nat mid);
        if value > cur then intsetSearch_loop is value (mid + 1) hi
        else if value < cur then intsetSearch_loop is value lo (mid - 1)
        else Some (True, mid)
      }
      else Some (False, lo))"
  by pat_completeness auto
termination
  by (relation "measure (\<lambda>(is, value, lo, hi). nat (hi - lo + 1))") auto

definition intsetSearch :: "intset \<Rightarrow> int \<Rightarrow> (bool \<times> nat) option" where
  "intsetSearch is value =
     (if is_length is = 0 then Some (False, 0)
      else do {
        last \<leftarrow> intsetGet_cell is (is_length is - 1);
        if value > last then Some (False, is_length is)
        else do {
          first \<leftarrow> intsetGet_cell is 0;
          if value < first then Some (False, 0)
          else map_option (map_prod id nat)
                 (intsetSearch_loop is value 0 (int (is_length is) - 1))
        }
      })"

text \<open>\<open>while (length--) _intsetSet(is, length + prepend, _intsetGetEncoded(is, length, curenc))\<close>\<close>

fun intsetUpgrade_loop :: "intset \<Rightarrow> nat \<Rightarrow> nat \<Rightarrow> nat \<Rightarrow> intset option" where
  "intsetUpgrade_loop is 0 prepend curenc = Some is"
| "intsetUpgrade_loop is (Suc len) prepend curenc = do {
     v \<leftarrow> intsetGetEncoded is len curenc;
     is \<leftarrow> intsetSet_cell is (len + prepend) v;
     intsetUpgrade_loop is len prepend curenc
   }"

definition intsetUpgradeAndAdd :: "(nat \<Rightarrow> byte) \<Rightarrow> intset \<Rightarrow> int \<Rightarrow> intset option" where
  "intsetUpgradeAndAdd junk is value =
     (let curenc = encoding is; newenc = intsetValueEncoding value;
          len = is_length is; prepend = (if value < 0 then 1 else 0)
      in do {
        is \<leftarrow> intsetResize junk (is\<lparr>encoding := newenc\<rparr>) (is_length is + 1);
        is \<leftarrow> intsetUpgrade_loop is len prepend curenc;
        is \<leftarrow> (if prepend = 1 then intsetSet_cell is 0 value
              else intsetSet_cell is (is_length is) value);
        Some (is\<lparr>is_length := is_length is + 1\<rparr>)
      })"

text \<open>\<open>bytes\<close> is a \<open>uint32_t\<close>: the element count times the width, modulo \<open>2 ^ 32\<close>.\<close>

definition intsetMoveTail_bytes :: "intset \<Rightarrow> nat \<Rightarrow> u32" where
  "intsetMoveTail_bytes is from =
     (of_nat (is_length is) - of_nat from) * of_nat (cell_width (encoding is))"

definition intsetMoveTail :: "intset \<Rightarrow> nat \<Rightarrow> nat \<Rightarrow> intset option" where
  "intsetMoveTail is from to = do {
     c \<leftarrow> memmove (contents is) (to * cell_width (encoding is)) (from * cell_width (encoding is))
           (unat (intsetMoveTail_bytes is from));
     Some (is\<lparr>contents := c\<rparr>)
   }"

definition intsetAdd :: "(nat \<Rightarrow> byte) \<Rightarrow> intset \<Rightarrow> int \<Rightarrow> (intset \<times> bool) option" where
  "intsetAdd junk is value =
     (if intsetValueEncoding value > encoding is
      then do { is \<leftarrow> intsetUpgradeAndAdd junk is value; Some (is, True) }
      else do {
        (found, pos) \<leftarrow> intsetSearch is value;
        if found then Some (is, False)
        else do {
          is \<leftarrow> intsetResize junk is (is_length is + 1);
          is \<leftarrow> (if pos < is_length is then intsetMoveTail is pos (pos + 1) else Some is);
          is \<leftarrow> intsetSet_cell is pos value;
          Some (is\<lparr>is_length := is_length is + 1\<rparr>, True)
        }
      })"

definition intsetRemove :: "(nat \<Rightarrow> byte) \<Rightarrow> intset \<Rightarrow> int \<Rightarrow> (intset \<times> bool) option" where
  "intsetRemove junk is value =
     (if intsetValueEncoding value \<le> encoding is
      then do {
        (found, pos) \<leftarrow> intsetSearch is value;
        if found
        then let len = is_length is in do {
          is \<leftarrow> (if pos < len - 1 then intsetMoveTail is (pos + 1) pos else Some is);
          is \<leftarrow> intsetResize junk is (len - 1);
          Some (is\<lparr>is_length := len - 1\<rparr>, True)
        }
        else Some (is, False)
      }
      else Some (is, False))"

definition intsetFind :: "intset \<Rightarrow> int \<Rightarrow> bool option" where
  "intsetFind is value =
     (if intsetValueEncoding value \<le> encoding is then map_option fst (intsetSearch is value)
      else Some False)"





definition intsetLen :: "intset \<Rightarrow> nat" where
  "intsetLen is = is_length is"

definition intsetBlobLen :: "intset \<Rightarrow> nat" where
  "intsetBlobLen is = 8 + is_length is * encoding is"


function intsetValidate_loop :: "intset \<Rightarrow> nat \<Rightarrow> int \<Rightarrow> bool option" where
  "intsetValidate_loop is i prev =
     (if i < is_length is
      then do {
        cur \<leftarrow> intsetGet_cell is i;
        if cur \<le> prev then Some False else intsetValidate_loop is (i + 1) cur
      }
      else Some True)"
  by pat_completeness auto
termination
  by (relation "measure (\<lambda>(is, i, prev). is_length is - i)") auto


declare intsetSearch_loop.simps [simp del] intsetValidate_loop.simps [simp del]

section \<open>Representation\<close>

definition fits :: "nat \<Rightarrow> int \<Rightarrow> bool" where
  "fits w v \<longleftrightarrow> - (2 ^ (8 * w - 1)) \<le> v \<and> v < 2 ^ (8 * w - 1)"

definition is_rep :: "intset \<Rightarrow> int list \<Rightarrow> bool" where
  "is_rep is xs \<longleftrightarrow>
     encoding is \<in> {2, 4, 8} \<and> is_length is = length xs \<and>
     contents is = concat (map (le_bytes (encoding is)) xs) \<and>
     (\<forall>x \<in> set xs. fits (encoding is) x) \<and> sorted_wrt (<) xs"

text \<open>The largest set for which the 32-bit arithmetic of \<open>intset.c\<close> is exact at every width.\<close>

definition max_elems :: nat where
  "max_elems = 2 ^ 29 - 1"

lemma cell_width_id: "w \<in> {2, 4, 8} \<Longrightarrow> cell_width w = w"
  by (auto simp: cell_width_def enc_defs)

lemma le_signed_fits: "0 < w \<Longrightarrow> fits w v \<Longrightarrow> le_signed (le_bytes w v) = v"
  by (simp add: fits_def le_signed_le_bytes)

lemma fits_encoding_iff:
  "fits 8 v \<Longrightarrow> w \<in> {2, 4, 8} \<Longrightarrow> fits w v \<longleftrightarrow> intsetValueEncoding v \<le> w"
  by (auto simp: fits_def intsetValueEncoding_def enc_defs)

lemma valueEncoding_cases: "intsetValueEncoding v \<in> {2, 4, 8}"
  by (simp add: intsetValueEncoding_def enc_defs)

lemma fits_mono: "fits w v \<Longrightarrow> w \<le> w' \<Longrightarrow> fits w' v"
proof -
  assume f: "fits w v" and w: "w \<le> w'"
  have "(2::int) ^ (8 * w - 1) \<le> 2 ^ (8 * w' - 1)" using w by (intro power_increasing) simp_all
  then show ?thesis using f unfolding fits_def by linarith
qed

lemma is_repD:
  assumes "is_rep is xs"
  shows "encoding is \<in> {2, 4, 8}" "is_length is = length xs"
    "contents is = concat (map (le_bytes (encoding is)) xs)"
    "\<And>x. x \<in> set xs \<Longrightarrow> fits (encoding is) x" "sorted_wrt (<) xs" "0 < encoding is"
    "sorted xs" "distinct xs"
  using assms by (auto simp: is_rep_def strict_sorted_iff)

lemma is_rep_new: "is_rep intsetNew []"
  by (simp add: is_rep_def intsetNew_def enc_defs)

lemma get_cell_rep:
  assumes "is_rep is xs" "i < length xs"
  shows "intsetGet_cell is i = Some (xs ! i)"
proof -
  note rep = is_repD [OF assms(1)]
  have "get_bytes (contents is) (i * encoding is) (encoding is) = Some (le_bytes (encoding is) (xs ! i))"
    using assms(2) rep(3) by (simp add: cells_get)
  then show ?thesis
    using rep(4,6) assms(2)
    by (simp add: intsetGet_cell_def intsetGetEncoded_def le_signed_fits cell_width_id [OF rep(1)])
qed

section \<open>Search\<close>

lemma sorted_takeWhile_pos:
  fixes xs :: "int list"
  assumes "p \<le> length xs" "\<And>i. i < p \<Longrightarrow> xs ! i < v" "\<And>i. p \<le> i \<Longrightarrow> i < length xs \<Longrightarrow> v \<le> xs ! i"
  shows "length (takeWhile (\<lambda>x. x < v) xs) = p"
proof -
  have "takeWhile (\<lambda>x. x < v) xs = take p xs"
  proof (rule takeWhile_eq_take_P_nth)
    show "\<And>i. i < p \<Longrightarrow> i < length xs \<Longrightarrow> xs ! i < v" using assms(2) by simp
    show "p < length xs \<Longrightarrow> \<not> xs ! p < v" using assms(3) [of p] by simp
  qed
  then show ?thesis using assms(1) by simp
qed

lemma intsetSearch_loop_correct:
  assumes "is_rep is xs" "0 \<le> lo" "lo \<le> hi + 1" "hi < int (length xs)"
    and "\<And>i. i < nat lo \<Longrightarrow> xs ! i < v" "\<And>i. hi < int i \<Longrightarrow> i < length xs \<Longrightarrow> v < xs ! i"
  shows "intsetSearch_loop is v lo hi
           = Some (v \<in> set xs, int (length (takeWhile (\<lambda>x. x < v) xs)))"
  using assms(2-6)
proof (induction "nat (hi - lo + 1)" arbitrary: lo hi rule: less_induct)
  case less
  note strict = sorted_wrt_nth_less [OF is_repD(5) [OF assms(1)]]
  show ?case
  proof (cases "lo \<le> hi")
    case False
    then have lo: "lo = hi + 1" using less.prems(2) by simp
    have "v \<notin> set xs"
    proof
      assume "v \<in> set xs"
      then obtain i where i: "i < length xs" "xs ! i = v" by (auto simp: in_set_conv_nth)
      then show False using less.prems(4) [of i] less.prems(5) [of i] lo by (cases "i < nat lo") (auto simp: not_less nat_le_iff)
    qed
    moreover have "length (takeWhile (\<lambda>x. x < v) xs) = nat lo"
      using less.prems lo by (intro sorted_takeWhile_pos) (auto simp: nat_le_iff le_nat_iff intro: less_imp_le)
    ultimately show ?thesis
      using False less.prems(1) by (simp add: intsetSearch_loop.simps [of _ _ lo])
  next
    case True
    let ?m = "(lo + hi) div 2"
    have m: "lo \<le> ?m" "?m \<le> hi" using True by auto
    then have mr: "nat ?m < length xs" using less.prems(1,3) by (simp add: nat_less_iff)
    note step = intsetSearch_loop.simps [of "is" v lo hi] get_cell_rep [OF assms(1) mr]
    consider "v > xs ! nat ?m" | "v < xs ! nat ?m" | "v = xs ! nat ?m" by linarith
    then show ?thesis
    proof cases
      case 1
      have "xs ! i < v" if "i < nat (?m + 1)" for i
      proof (cases "i = nat ?m")
        case False
        then have "xs ! i < xs ! nat ?m" using that mr by (intro strict) auto
        then show ?thesis using 1 by simp
      qed (use 1 in simp)
      then show ?thesis
        using less.hyps [of hi "?m + 1"] less.prems m True 1 by (simp add: step Let_def)
    next
      case 2
      have "v < xs ! i" if "?m - 1 < int i" "i < length xs" for i
      proof (cases "i = nat ?m")
        case False
        then have "xs ! nat ?m < xs ! i" using that by (intro strict) auto
        then show ?thesis using 2 by simp
      qed (use 2 in simp)
      then have "intsetSearch_loop is v lo (?m - 1)
          = Some (v \<in> set xs, int (length (takeWhile (\<lambda>x. x < v) xs)))"
        using less.prems m by (intro less.hyps) simp_all
      then show ?thesis using True 2 by (simp add: step Let_def)
    next
      case 3
      have "length (takeWhile (\<lambda>x. x < v) xs) = nat ?m"
      proof (rule sorted_takeWhile_pos)
        show "\<And>i. i < nat ?m \<Longrightarrow> xs ! i < v" using strict mr 3 by blast
        show "\<And>i. nat ?m \<le> i \<Longrightarrow> i < length xs \<Longrightarrow> v \<le> xs ! i"
          using strict 3 by (metis le_neq_implies_less less_imp_le order_refl)
      qed (use mr in simp)
      moreover have "v \<in> set xs" using 3 mr by simp
      moreover have "intsetSearch_loop is v lo hi = Some (True, ?m)"
        using True 3 [symmetric] by (simp add: step Let_def)
      ultimately show ?thesis using m less.prems(1) by simp
    qed
  qed
qed

lemma intsetSearch_correct:
  assumes "is_rep is xs"
  shows "intsetSearch is v = Some (v \<in> set xs, length (takeWhile (\<lambda>x. x < v) xs))"
proof (cases "xs = []")
  case True
  then show ?thesis using is_repD(2) [OF assms] by (simp add: intsetSearch_def)
next
  case False
  note rep = is_repD [OF assms]
  note strict = sorted_wrt_nth_less [OF rep(5)]
  have cells: "intsetGet_cell is (length xs - 1) = Some (xs ! (length xs - 1))"
    "intsetGet_cell is 0 = Some (xs ! 0)" using False by (simp_all add: get_cell_rep [OF assms])
  have le_last: "xs ! i \<le> xs ! (length xs - 1)" if "i < length xs" for i
    using rep(7) that by (intro sorted_nth_mono) auto
  have ge_first: "xs ! 0 \<le> xs ! i" if "i < length xs" for i
    using rep(7) that by (intro sorted_nth_mono) auto
  consider "v > xs ! (length xs - 1)" | "v \<le> xs ! (length xs - 1)" "v < xs ! 0"
    | "v \<le> xs ! (length xs - 1)" "v \<ge> xs ! 0" by linarith
  then show ?thesis
  proof cases
    case 1
    then have all: "xs ! i < v" if "i < length xs" for i using le_last [OF that] by simp
    then have "length (takeWhile (\<lambda>x. x < v) xs) = length xs" by (intro sorted_takeWhile_pos) auto
    moreover have "v \<notin> set xs" using all by (auto simp: in_set_conv_nth)
    ultimately show ?thesis using 1 False cells rep(2) by (simp add: intsetSearch_def)
  next
    case 2
    then have all: "v < xs ! i" if "i < length xs" for i using ge_first [OF that] by simp
    then have "length (takeWhile (\<lambda>x. x < v) xs) = 0"
      by (intro sorted_takeWhile_pos) (auto intro: less_imp_le)
    moreover have "v \<notin> set xs" using all by (auto simp: in_set_conv_nth)
    ultimately show ?thesis using 2 False cells rep(2) by (simp add: intsetSearch_def)
  next
    case 3
    have "intsetSearch_loop is v 0 (int (length xs) - 1)
        = Some (v \<in> set xs, int (length (takeWhile (\<lambda>x. x < v) xs)))"
      using False by (intro intsetSearch_loop_correct [OF assms]) (auto simp: Suc_le_eq)
    then show ?thesis using 3 False cells rep(2) by (simp add: intsetSearch_def)
  qed
qed

section \<open>Insertion\<close>

lemma insort_takeWhile:
  "sorted xs \<Longrightarrow> insort v xs = takeWhile (\<lambda>x. x < v) xs @ v # dropWhile (\<lambda>x. x < v) xs"
  for v :: int
  by (induction xs) (auto simp: insort_is_Cons)

lemma take_drop_takeWhile:
  "take (length (takeWhile P xs)) xs = takeWhile P xs"
  "drop (length (takeWhile P xs)) xs = dropWhile P xs"
  by (simp_all add: takeWhile_eq_take [symmetric] dropWhile_eq_drop [symmetric])

lemma intsetUpgrade_loop_correct:
  assumes "length (contents is) = (length xs + 1) * new" "encoding is = new" "prepend \<le> 1"
    and "cur \<in> {2, 4, 8}" "new \<in> {2, 4, 8}" "cur \<le> new"
    and "\<And>x. x \<in> set xs \<Longrightarrow> fits cur x" "len \<le> length xs"
    and "take (len * cur) (contents is) = concat (map (le_bytes cur) (take len xs))"
  shows "\<exists>c. intsetUpgrade_loop is len prepend cur = Some (is\<lparr>contents := c\<rparr>) \<and>
           length c = length (contents is) \<and>
           drop (prepend * new) c
             = concat (map (le_bytes new) (take len xs)) @ drop ((len + prepend) * new) (contents is)"
  using assms(1,2,8,9)
proof (induction len arbitrary: "is")
  case 0
  then show ?case by (intro exI [of _ "contents is"]) simp
next
  case (Suc l)
  let ?B = "contents is" and ?x = "xs ! l" and ?off = "(l + prepend) * new"
  note cw = cell_width_id [OF assms(4)] cell_width_id [OF assms(5)]
  have "0 < cur" using assms(4) by auto
  have l: "l < length xs" using Suc.prems(3) by simp
  have tk: "take (Suc l) xs = take l xs @ [?x]" using l by (rule take_Suc_conv_app_nth)
  have pre: "take (l * cur + cur) ?B = concat (map (le_bytes cur) (take l xs)) @ le_bytes cur ?x"
    using Suc.prems(4) by (simp add: tk add.commute)
  have lc: "length (concat (map (le_bytes cur) (take l xs))) = l * cur"
    using l by (simp add: length_concat_cells [of cur])
  have fit: "l * cur + cur \<le> length ?B"
  proof -
    have "Suc l * cur \<le> (length xs + 1) * new" using l assms(6) by (intro mult_le_mono) auto
    then show ?thesis using Suc.prems(1) by simp
  qed
  have read: "intsetGetEncoded is l cur = Some ?x"
  proof -
    have "take cur (drop (l * cur) ?B) = le_bytes cur ?x"
      using pre lc by (metis add.commute append_eq_conv_conj take_drop)
    then show ?thesis
      using fit \<open>0 < cur\<close> assms(7) l
      by (simp add: intsetGetEncoded_def get_bytes_def le_signed_fits cw)
  qed
  have off: "?off + new \<le> length ?B"
  proof -
    have "(Suc l + prepend) * new \<le> (length xs + 1) * new" using l assms(3) by (intro mult_le_mono1) simp
    then show ?thesis using Suc.prems(1) by (simp add: algebra_simps)
  qed
  define B1 where "B1 = take ?off ?B @ le_bytes new ?x @ drop (?off + new) ?B"
  have stored: "intsetSet_cell is (l + prepend) ?x = Some (is\<lparr>contents := B1\<rparr>)"
    using off Suc.prems(2) by (simp add: intsetSet_cell_def put_bytes_def B1_def cw)
  have "l * cur \<le> ?off" using assms(6) by (intro mult_le_mono) auto
  then have "take (l * cur) B1 = take (l * cur) ?B" using off by (simp add: B1_def)
  also have "\<dots> = take (l * cur) (take (l * cur + cur) ?B)" by simp
  also have "\<dots> = concat (map (le_bytes cur) (take l xs))" by (simp only: pre append_take_drop_id) (simp add: lc)
  finally have keep: "take (l * cur) B1 = concat (map (le_bytes cur) (take l xs))" .
  have lB1: "length B1 = length ?B" using off by (simp add: B1_def)
  have dB1: "drop ?off B1 = le_bytes new ?x @ drop (?off + new) ?B"
    using off by (simp add: B1_def min_absorb2)
  obtain c where c: "intsetUpgrade_loop (is\<lparr>contents := B1\<rparr>) l prepend cur = Some (is\<lparr>contents := c\<rparr>)"
      "length c = length B1"
      "drop (prepend * new) c = concat (map (le_bytes new) (take l xs)) @ drop ?off B1"
    using Suc.IH [of "is\<lparr>contents := B1\<rparr>"] keep lB1 Suc.prems(1,2) l by auto
  have "drop (prepend * new) c
      = concat (map (le_bytes new) (take (Suc l) xs)) @ drop ((Suc l + prepend) * new) ?B"
    by (simp only: c(3) dB1 tk) (simp add: algebra_simps)
  moreover have "length c = length ?B" using c(2) lB1 by simp
  ultimately show ?case using c(1) read stored by auto
qed

lemma resize_ok:
  assumes "len \<le> 2 ^ 29" "encoding is \<in> {2, 4, 8}"
  shows "intsetResize junk is len
           = Some (is\<lparr>contents := realloc junk (contents is) (len * encoding is)\<rparr>)"
proof -
  have "len * encoding is \<le> 2 ^ 29 * 8" using assms by (intro mult_le_mono) auto
  then show ?thesis by (simp add: intsetResize_def Let_def)
qed

lemma insort_extreme:
  fixes v :: int
  shows "(\<And>x. x \<in> set xs \<Longrightarrow> v < x) \<Longrightarrow> insort v xs = v # xs"
    and "(\<And>x. x \<in> set xs \<Longrightarrow> x < v) \<Longrightarrow> insort v xs = xs @ [v]"
proof -
  show "(\<And>x. x \<in> set xs \<Longrightarrow> v < x) \<Longrightarrow> insort v xs = v # xs"
    by (cases xs) (auto intro: less_imp_le)
  show "(\<And>x. x \<in> set xs \<Longrightarrow> x < v) \<Longrightarrow> insort v xs = xs @ [v]"
  proof (induction xs)
    case (Cons a xs)
    then have "\<not> v \<le> a" by (simp add: not_le)
    moreover have "insort v xs = xs @ [v]" using Cons by simp
    ultimately show ?case by simp
  qed simp
qed

lemma is_rep_insert:
  assumes "encoding is \<in> {2, 4, 8}" "is_length is = Suc (length xs)"
    and "contents is = concat (map (le_bytes (encoding is)) (insort v xs))"
    and "\<And>x. x \<in> set xs \<Longrightarrow> fits (encoding is) x" "fits (encoding is) v"
    and "sorted_wrt (<) xs" "v \<notin> set xs"
  shows "is_rep is (insort v xs)"
  using assms by (auto simp: is_rep_def set_insort_key strict_sorted_iff sorted_insort distinct_insort)

lemma intsetUpgradeAndAdd_correct:
  assumes rep: "is_rep is xs" and v: "fits 8 v" "\<not> fits (encoding is) v" and n: "length xs < max_elems"
  shows "\<exists>is'. intsetUpgradeAndAdd junk is v = Some is' \<and> is_rep is' (insort v xs)"
proof -
  note R = is_repD [OF rep]
  let ?new = "intsetValueEncoding v" and ?cur = "encoding is"
  let ?pre = "if v < 0 then 1 else 0 :: nat"
  have new: "?new \<in> {2, 4, 8}" "fits ?new v" "?cur \<le> ?new"
    using valueEncoding_cases [of v] fits_encoding_iff [OF v(1)] v(2) R(1)
    by (auto simp: not_le intro: less_imp_le)
  note cw = cell_width_id [OF new(1)]
  let ?c0 = "realloc junk (contents is) ((length xs + 1) * ?new)"
  let ?is0 = "is\<lparr>encoding := ?new, contents := ?c0\<rparr>"
  have resize: "intsetResize junk (is\<lparr>encoding := ?new\<rparr>) (is_length is + 1) = Some ?is0"
    using resize_ok [of "length xs + 1" "is\<lparr>encoding := ?new\<rparr>"] n new(1) R(2)
    by (simp add: max_elems_def)
  have lc: "length (contents is) = length xs * ?cur"
    unfolding R(3) by (simp add: length_concat_cells [of ?cur])
  have "length xs * ?cur \<le> (length xs + 1) * ?new" using new(3) by (intro mult_le_mono) auto
  then have "take (length xs * ?cur) ?c0 = concat (map (le_bytes ?cur) (take (length xs) xs))"
    using lc R(3) by (simp add: realloc_grow)
  moreover have "?pre \<le> 1" by simp
  ultimately obtain c where c: "intsetUpgrade_loop ?is0 (length xs) ?pre ?cur = Some (?is0\<lparr>contents := c\<rparr>)"
      "length c = (length xs + 1) * ?new"
      "drop (?pre * ?new) c = concat (map (le_bytes ?new) xs) @ drop ((length xs + ?pre) * ?new) ?c0"
    using intsetUpgrade_loop_correct [of ?is0 xs ?new ?pre ?cur "length xs", OF _ _ _ R(1) new(1,3) R(4)]
    by auto
  have outside: "v < 0 \<Longrightarrow> x \<in> set xs \<Longrightarrow> v < x" "\<not> v < 0 \<Longrightarrow> x \<in> set xs \<Longrightarrow> x < v" for x
    using R(4) [of x] v(2) by (auto simp: fits_def)
  have notin: "v \<notin> set xs" using R(4) v(2) by blast
  have fit: "\<And>x. x \<in> set xs \<Longrightarrow> fits ?new x" using R(4) fits_mono new(3) by blast
  show ?thesis
  proof (cases "v < 0")
    case True
    have d: "drop ?new c = concat (map (le_bytes ?new) xs)" using c(3) True by simp
    have "intsetSet_cell (?is0\<lparr>contents := c\<rparr>) 0 v
        = Some (?is0\<lparr>contents := concat (map (le_bytes ?new) (v # xs))\<rparr>)"
      using c(2) d by (simp add: intsetSet_cell_def put_bytes_def cw)
    then have "intsetUpgradeAndAdd junk is v
        = Some (?is0\<lparr>contents := concat (map (le_bytes ?new) (insort v xs)), is_length := Suc (length xs)\<rparr>)"
      using True resize c(1) R(2) insort_extreme(1) [of xs v] outside(1)
      by (simp add: intsetUpgradeAndAdd_def Let_def)
    then show ?thesis using new fit R(5) notin by (auto intro!: is_rep_insert)
  next
    case False
    have d: "c = concat (map (le_bytes ?new) xs) @ drop (length xs * ?new) ?c0" using c(3) False by simp
    have l: "length (concat (map (le_bytes ?new) xs)) = length xs * ?new"
      by (simp add: length_concat_cells [of ?new])
    have "intsetSet_cell (?is0\<lparr>contents := c\<rparr>) (length xs) v
        = Some (?is0\<lparr>contents := concat (map (le_bytes ?new) (xs @ [v]))\<rparr>)"
      using d l by (simp add: intsetSet_cell_def put_bytes_def cw)
    then have "intsetUpgradeAndAdd junk is v
        = Some (?is0\<lparr>contents := concat (map (le_bytes ?new) (insort v xs)), is_length := Suc (length xs)\<rparr>)"
      using False resize c(1) R(2) insort_extreme(2) [of xs v] outside(2)
      by (simp add: intsetUpgradeAndAdd_def Let_def)
    then show ?thesis using new fit R(5) notin by (auto intro!: is_rep_insert)
  qed
qed

lemma moveTail_bytes_exact:
  assumes "from \<le> is_length is" "is_length is \<le> max_elems" "encoding is \<in> {2, 4, 8}"
  shows "unat (intsetMoveTail_bytes is from) = (is_length is - from) * encoding is"
proof -
  have "(is_length is - from) * encoding is \<le> max_elems * 8"
    using assms by (intro mult_le_mono) auto
  then have "(is_length is - from) * encoding is < 2 ^ 32" by (simp add: max_elems_def)
  moreover have "intsetMoveTail_bytes is from = of_nat ((is_length is - from) * encoding is)"
    using assms(1) by (simp add: intsetMoveTail_bytes_def cell_width_id [OF assms(3)] of_nat_diff)
  ultimately show ?thesis by (simp only: unat_of_nat) (simp add: take_bit_nat_eq_self)
qed

lemma moveTail_cells:
  assumes "contents is = concat cs" "cells (encoding is) cs" "encoding is \<in> {2, 4, 8}"
    and "from \<le> is_length is" "is_length is \<le> max_elems"
    and "is_length is \<le> length cs" "to + (is_length is - from) \<le> length cs"
  shows "intsetMoveTail is from to
           = Some (is\<lparr>contents := concat (take to cs @ take (is_length is - from) (drop from cs)
                                       @ drop (to + (is_length is - from)) cs)\<rparr>)"
proof -
  have "from + (is_length is - from) \<le> length cs" using assms(4,6) by simp
  from cells_memmove [OF assms(2) this assms(7)] show ?thesis
    by (simp add: intsetMoveTail_def moveTail_bytes_exact [OF assms(4,5,3)]
        cell_width_id [OF assms(3)] assms(1))
qed

lemma intsetAdd_correct:
  assumes rep: "is_rep is xs" and v: "fits 8 v" and n: "length xs < max_elems"
  shows "\<exists>is'. intsetAdd junk is v = Some (is', v \<notin> set xs) \<and> is_rep is' (insort_insert v xs)"
proof (cases "intsetValueEncoding v > encoding is")
  case True
  then have nf: "\<not> fits (encoding is) v"
    using fits_encoding_iff [OF v is_repD(1) [OF rep]] by simp
  then have "v \<notin> set xs" using is_repD(4) [OF rep] by blast
  then show ?thesis
    using intsetUpgradeAndAdd_correct [OF rep v nf n, of junk] True
    by (auto simp: intsetAdd_def insort_insert_insort)
next
  case False
  note R = is_repD [OF rep]
  let ?w = "encoding is" and ?p = "length (takeWhile (\<lambda>x. x < v) xs)"
  let ?f = "le_bytes ?w"
  have fv: "fits ?w v" using False fits_encoding_iff [OF v R(1)] by simp
  note cw = cell_width_id [OF R(1)]
  have p: "?p \<le> length xs" by (rule length_takeWhile_le)
  show ?thesis
  proof (cases "v \<in> set xs")
    case True
    then show ?thesis
      using False rep by (simp add: intsetAdd_def intsetSearch_correct [OF rep] insort_insert_key_def)
  next
    case new: False
    have lc: "length (contents is) = length xs * ?w"
      unfolding R(3) by (simp add: length_concat_cells [of ?w])
    define j where "j = map junk [length xs * ?w..<(length xs + 1) * ?w]"
    define cs where "cs = map ?f xs @ [j]"
    define is1 where "is1 = is\<lparr>contents := concat cs\<rparr>"
    have cells: "cells ?w cs" "length cs = length xs + 1" by (simp_all add: cs_def j_def)
    have resize: "intsetResize junk is (is_length is + 1) = Some is1"
      using resize_ok [of "length xs + 1" "is" junk] n R(1,2) lc
      by (simp add: max_elems_def realloc_grow is1_def cs_def j_def R(3) [symmetric])
    have I1: "contents is1 = concat cs" "encoding is1 = ?w" "is_length is1 = length xs"
      by (simp_all add: is1_def R(2))
    define ds where "ds = take (Suc ?p) cs @ map ?f (drop ?p xs)"
    have ds: "cells ?w ds" "length ds = length xs + 1"
      using cells p by (simp_all add: ds_def)
    have move: "(if ?p < is_length is1 then intsetMoveTail is1 ?p (?p + 1) else Some is1)
        = Some (is1\<lparr>contents := concat ds\<rparr>)"
    proof (cases "?p < length xs")
      case True
      have "intsetMoveTail is1 ?p (?p + 1) = Some (is1\<lparr>contents := concat (take (?p + 1) cs
          @ take (length xs - ?p) (drop ?p cs) @ drop (?p + 1 + (length xs - ?p)) cs)\<rparr>)"
        using moveTail_cells [of is1 cs ?p "?p + 1"] I1 cells R(1) n True by simp
      then show ?thesis using True I1(3) by (simp add: ds_def cs_def drop_map)
    next
      case F: False
      then have "ds = cs" using p cells(2) by (simp add: ds_def)
      then show ?thesis using F I1(1,3) by simp
    qed
    have final: "ds[?p := ?f v] = map ?f (insort v xs)"
    proof -
      have "ds[?p := ?f v] = take ?p cs @ ?f v # map ?f (drop ?p xs)"
        using ds(2) p cells(2) by (simp add: upd_conv_take_nth_drop ds_def)
      then show ?thesis
        using p by (simp add: insort_takeWhile [OF R(7)] cs_def take_map take_drop_takeWhile)
    qed
    have "intsetSet_cell (is1\<lparr>contents := concat ds\<rparr>) ?p v
        = Some (is1\<lparr>contents := concat (map ?f (insort v xs))\<rparr>)"
      using cells_put [OF ds(1), of "?f v" ?p] ds(2) p
      by (simp add: intsetSet_cell_def I1(2) cw final)
    then have "intsetAdd junk is v
        = Some (is1\<lparr>contents := concat (map ?f (insort v xs)), is_length := Suc (length xs)\<rparr>, True)"
      using False new resize move I1(3) by (simp add: intsetAdd_def intsetSearch_correct [OF rep])
    moreover have "is_rep (is1\<lparr>contents := concat (map ?f (insort v xs)), is_length := Suc (length xs)\<rparr>)
        (insort v xs)"
      using R(1,4,5) fv new I1(2) by (intro is_rep_insert) simp_all
    ultimately show ?thesis using new by (auto simp: insort_insert_insort)
  qed
qed

section \<open>Deletion\<close>

lemma remove1_pos:
  fixes v :: int
  assumes "sorted_wrt (<) xs" "v \<in> set xs" "p = length (takeWhile (\<lambda>x. x < v) xs)"
  shows "p < length xs \<and> remove1 v xs = take p xs @ drop (Suc p) xs"
  using assms
proof (induction xs arbitrary: p)
  case (Cons x xs)
  then show ?case by (cases "x < v") auto
qed simp

lemma intsetRemove_correct:
  assumes rep: "is_rep is xs" and v: "fits 8 v" and n: "length xs \<le> max_elems"
  shows "\<exists>is'. intsetRemove junk is v = Some (is', v \<in> set xs) \<and> is_rep is' (remove1 v xs)"
proof (cases "v \<in> set xs")
  case False
  then show ?thesis
    using rep by (auto simp: intsetRemove_def intsetSearch_correct [OF rep] remove1_idem)
next
  case True
  note R = is_repD [OF rep]
  let ?w = "encoding is" and ?p = "length (takeWhile (\<lambda>x. x < v) xs)"
  let ?cs = "map (le_bytes ?w) xs" and ?ys = "remove1 v xs"
  have enc: "intsetValueEncoding v \<le> ?w"
    using R(4) [OF True] fits_encoding_iff [OF v R(1)] by simp
  have p: "?p < length xs" "?ys = take ?p xs @ drop (Suc ?p) xs"
    using remove1_pos [OF R(5) True refl] by simp_all
  obtain c where move: "(if ?p < is_length is - 1 then intsetMoveTail is (?p + 1) ?p else Some is)
        = Some (is\<lparr>contents := c\<rparr>)"
      and c: "take ((length xs - 1) * ?w) c = concat (map (le_bytes ?w) ?ys)"
      and lc: "length c = length xs * ?w"
  proof (cases "?p < length xs - 1")
    case True
    let ?c = "concat (take ?p ?cs @ drop (Suc ?p) ?cs @ drop (length xs - 1) ?cs)"
    have "intsetMoveTail is (?p + 1) ?p = Some (is\<lparr>contents := ?c\<rparr>)"
      using moveTail_cells [of "is" ?cs "?p + 1" ?p] R(1-3) n p(1) by simp
    moreover have "take ((length xs - 1) * ?w) ?c = concat (map (le_bytes ?w) ?ys)"
      using p by (subst take_concat_cells [of ?w]) (simp_all add: take_map drop_map)
    moreover have "length ?c = length xs * ?w"
    proof -
      have "length (take ?p ?cs @ drop (Suc ?p) ?cs @ drop (length xs - 1) ?cs) = length xs"
        using p(1) by simp
      then show ?thesis by (subst length_concat_cells [of ?w]) simp_all
    qed
    ultimately show thesis using True R(2) by (intro that [of ?c]) simp_all
  next
    case False
    then have "?p = length xs - 1" using p(1) by simp
    then have "?ys = take (length xs - 1) xs" using p by simp
    then have "take ((length xs - 1) * ?w) (contents is) = concat (map (le_bytes ?w) ?ys)"
      unfolding R(3) by (subst take_concat_cells [of ?w]) (simp_all add: take_map)
    moreover have "length (contents is) = length xs * ?w"
      unfolding R(3) by (simp add: length_concat_cells [of ?w])
    ultimately show thesis using False R(2) by (intro that [of "contents is"]) simp_all
  qed
  have "intsetResize junk (is\<lparr>contents := c\<rparr>) (length xs - 1)
      = Some (is\<lparr>contents := concat (map (le_bytes ?w) ?ys)\<rparr>)"
    using resize_ok [of "length xs - 1" "is\<lparr>contents := c\<rparr>" junk] n R(1) c lc
    by (simp add: max_elems_def realloc_shrink)
  then have "intsetRemove junk is v
      = Some (is\<lparr>contents := concat (map (le_bytes ?w) ?ys), is_length := length xs - 1\<rparr>, True)"
    using enc True move R(2)
    by (simp add: intsetRemove_def intsetSearch_correct [OF rep] Let_def split del: if_split)
  moreover have "is_rep (is\<lparr>contents := concat (map (le_bytes ?w) ?ys), is_length := length xs - 1\<rparr>) ?ys"
    using R(1,4,5) True
    by (auto simp: is_rep_def length_remove1 strict_sorted_iff sorted_remove1 dest: notin_set_remove1)
  ultimately show ?thesis using True by auto
qed

section \<open>Queries\<close>

lemma intsetFind_correct:
  assumes "is_rep is xs" "fits 8 v"
  shows "intsetFind is v = Some (v \<in> set xs)"
  using is_repD(4) [OF assms(1), of v] fits_encoding_iff [OF assms(2) is_repD(1) [OF assms(1)]]
  by (auto simp: intsetFind_def intsetSearch_correct [OF assms(1)])













section \<open>The set interface\<close>

text \<open>What a client of a bounded integer set relies on: the representation relation, and one law per
  operation.  The client runs a sequence of commands and sees only the replies.\<close>

datatype set_cmd = Add int | Remove int | Contains int

fun cmd_arg :: "set_cmd \<Rightarrow> int" where
  "cmd_arg (Add v) = v"
| "cmd_arg (Remove v) = v"
| "cmd_arg (Contains v) = v"

text \<open>The abstract behaviour: a mathematical set, and the reply of each command.\<close>

fun spec_cmds :: "int set \<Rightarrow> set_cmd list \<Rightarrow> int set \<times> bool list" where
  "spec_cmds A [] = (A, [])"
| "spec_cmds A (Add v # cs) = map_prod id ((#) (v \<notin> A)) (spec_cmds (insert v A) cs)"
| "spec_cmds A (Remove v # cs) = map_prod id ((#) (v \<in> A)) (spec_cmds (A - {v}) cs)"
| "spec_cmds A (Contains v # cs) = map_prod id ((#) (v \<in> A)) (spec_cmds A cs)"

fun run_cmds ::
  "('s \<Rightarrow> int \<Rightarrow> ('s \<times> bool) option) \<Rightarrow> ('s \<Rightarrow> int \<Rightarrow> ('s \<times> bool) option) \<Rightarrow> ('s \<Rightarrow> int \<Rightarrow> bool option)
   \<Rightarrow> 's \<Rightarrow> set_cmd list \<Rightarrow> ('s \<times> bool list) option" where
  "run_cmds add rem mem s [] = Some (s, [])"
| "run_cmds add rem mem s (Add v # cs) =
     do { (s, r) \<leftarrow> add s v; (s, rs) \<leftarrow> run_cmds add rem mem s cs; Some (s, r # rs) }"
| "run_cmds add rem mem s (Remove v # cs) =
     do { (s, r) \<leftarrow> rem s v; (s, rs) \<leftarrow> run_cmds add rem mem s cs; Some (s, r # rs) }"
| "run_cmds add rem mem s (Contains v # cs) =
     do { r \<leftarrow> mem s v; (s, rs) \<leftarrow> run_cmds add rem mem s cs; Some (s, r # rs) }"

locale bounded_int_set =
  fixes rep :: "'s \<Rightarrow> int set \<Rightarrow> bool"
    and elem :: "int \<Rightarrow> bool"
    and cap :: nat
    and add :: "'s \<Rightarrow> int \<Rightarrow> ('s \<times> bool) option"
    and rem :: "'s \<Rightarrow> int \<Rightarrow> ('s \<times> bool) option"
    and mem :: "'s \<Rightarrow> int \<Rightarrow> bool option"
  assumes rep_finite: "rep s A \<Longrightarrow> finite A"
    and add_law: "rep s A \<Longrightarrow> elem v \<Longrightarrow> card A < cap \<Longrightarrow>
      \<exists>s'. add s v = Some (s', v \<notin> A) \<and> rep s' (insert v A)"
    and rem_law: "rep s A \<Longrightarrow> elem v \<Longrightarrow> card A \<le> cap \<Longrightarrow>
      \<exists>s'. rem s v = Some (s', v \<in> A) \<and> rep s' (A - {v})"
    and mem_law: "rep s A \<Longrightarrow> elem v \<Longrightarrow> mem s v = Some (v \<in> A)"
begin

lemma run_refines:
  assumes "rep s A" "card A + length cs \<le> cap" "\<forall>c \<in> set cs. elem (cmd_arg c)"
  shows "\<exists>s'. run_cmds add rem mem s cs = Some (s', snd (spec_cmds A cs)) \<and> rep s' (fst (spec_cmds A cs))"
  using assms
proof (induction cs arbitrary: s A)
  case Nil
  then show ?case by simp
next
  case (Cons c cs)
  have fin: "finite A" by (rule rep_finite [OF Cons.prems(1)])
  show ?case
  proof (cases c)
    case (Add v)
    obtain s' where s': "add s v = Some (s', v \<notin> A)" "rep s' (insert v A)"
      using add_law [OF Cons.prems(1), of v] Cons.prems(2,3) Add by auto
    have "card (insert v A) \<le> card A + 1" using fin by (simp add: card_insert_if)
    then show ?thesis using Cons.IH [OF s'(2)] Cons.prems(2,3) s'(1) Add by auto
  next
    case (Remove v)
    obtain s' where s': "rem s v = Some (s', v \<in> A)" "rep s' (A - {v})"
      using rem_law [OF Cons.prems(1), of v] Cons.prems(2,3) Remove by auto
    have "card (A - {v}) \<le> card A" using fin by (simp add: card_Diff1_le)
    then show ?thesis using Cons.IH [OF s'(2)] Cons.prems(2,3) s'(1) Remove by auto
  next
    case (Contains v)
    then show ?thesis using Cons.IH [OF Cons.prems(1)] mem_law [OF Cons.prems(1), of v] Cons.prems(2,3) by auto
  qed
qed

end

definition intset_set :: "intset \<Rightarrow> int set \<Rightarrow> bool" where
  "intset_set is A \<longleftrightarrow> (\<exists>xs. is_rep is xs \<and> set xs = A)"

lemma sorted_list_of_rep: "is_rep is xs \<Longrightarrow> sorted_list_of_set (set xs) = xs"
  by (rule sorted_list_of_set.idem_if_sorted_distinct) (auto simp: is_rep_def strict_sorted_iff)

lemma distinct_of_rep: "is_rep is xs \<Longrightarrow> distinct xs"
  by (simp add: is_rep_def strict_sorted_iff)

lemma card_of_rep: "is_rep is xs \<Longrightarrow> card (set xs) = length xs"
  by (rule distinct_card) (rule distinct_of_rep)

interpretation iset: bounded_int_set intset_set "fits 8" max_elems "intsetAdd junk" "intsetRemove junk" intsetFind
  for junk
proof
  fix "is" A v
  show "intset_set is A \<Longrightarrow> finite A" by (auto simp: intset_set_def)
  assume rep: "intset_set is A" and v: "fits 8 v"
  then obtain xs where xs: "is_rep is xs" "A = set xs" by (auto simp: intset_set_def)
  note card = card_of_rep [OF xs(1)]
  show "card A < max_elems \<Longrightarrow>
      \<exists>is'. intsetAdd junk is v = Some (is', v \<notin> A) \<and> intset_set is' (insert v A)"
    using intsetAdd_correct [OF xs(1) v, of junk] xs(2) card
    by (auto simp: intset_set_def intro!: exI [of _ "insort_insert v xs"] set_insort_insert)
  show "card A \<le> max_elems \<Longrightarrow>
      \<exists>is'. intsetRemove junk is v = Some (is', v \<in> A) \<and> intset_set is' (A - {v})"
    using intsetRemove_correct [OF xs(1) v, of junk] xs card
    by (auto simp: intset_set_def distinct_of_rep intro!: exI [of _ "remove1 v xs"])
  show "intsetFind is v = Some (v \<in> A)" using intsetFind_correct [OF xs(1) v] xs(2) by simp
qed

section \<open>Properties\<close>

text \<open>C20. Any sequence of \<open>intsetAdd\<close>, \<open>intsetRemove\<close> and \<open>intsetFind\<close> calls on 64-bit values, started from
  \<open>intsetNew\<close> and short enough for the 32-bit size arithmetic, never reads or writes out of bounds, whatever
  the allocator leaves in fresh memory, and gives exactly the replies of a mathematical set; the final
  array is the sorted list of that set, in cells of one of the three widths.\<close>

theorem intset_run_refines:
  assumes "length cs \<le> max_elems" "\<forall>c \<in> set cs. fits 8 (cmd_arg c)"
  shows "\<exists>is. run_cmds (intsetAdd junk) (intsetRemove junk) intsetFind intsetNew cs
             = Some (is, snd (spec_cmds {} cs)) \<and>
           is_rep is (sorted_list_of_set (fst (spec_cmds {} cs)))"
proof -
  have "intset_set intsetNew {}" using is_rep_new by (auto simp: intset_set_def)
  then obtain "is" where "run_cmds (intsetAdd junk) (intsetRemove junk) intsetFind intsetNew cs
             = Some (is, snd (spec_cmds {} cs))" "intset_set is (fst (spec_cmds {} cs))"
    using iset.run_refines [of intsetNew "{}" cs junk] assms by auto
  then show ?thesis
    by (metis intset_set_def sorted_list_of_rep)
qed

theorem intset_run_refines_witness:
  "\<exists>is. run_cmds (intsetAdd (\<lambda>_. 0)) (intsetRemove (\<lambda>_. 0)) intsetFind intsetNew
           [Add 5, Add 70000, Add 5, Remove 5, Contains 70000]
        = Some (is, [True, True, False, True, True]) \<and> is_rep is [70000]"
proof -
  have "{70000, 5} - {5 :: int} = {70000}" by auto
  then show ?thesis
    using intset_run_refines [of "[Add 5, Add 70000, Add 5, Remove 5, Contains 70000]" "\<lambda>_. 0"]
    by (simp add: max_elems_def fits_def del: run_cmds.simps)
qed





end
