(* ===== verification/Util_Numbers.thy ===== *)
theory Util_Numbers
  imports Redis_Prelude
begin

text \<open>
  Integer and text conversion from \<open>util.c\<close>.  A C string argument with its length is a list of
  characters; a destination buffer of \<open>dstlen\<close> bytes is a list of \<open>dstlen\<close> characters, and a
  write outside it makes the result \<open>None\<close>.  \<open>unsigned long long\<close> is \<open>64 word\<close> with its
  wrap-around; \<open>long long\<close> values are integers in \<open>-2^63 ..< 2^63\<close>.  The reference for
  correctness is \<open>dec\<close>, the usual decimal notation.
\<close>

section \<open>Model\<close>

definition ULLONG_MAX :: u64 where "ULLONG_MAX = - 1"

text \<open>\<open>digits10\<close> on a 64-bit value, read as a natural number.\<close>

fun digits10 :: "nat \<Rightarrow> nat" where
  "digits10 v =
     (if v < 10 then 1
      else if v < 100 then 2
      else if v < 1000 then 3
      else if v < 1000000000000 then
        (if v < 100000000 then
           (if v < 1000000 then
              (if v < 10000 then 4 else 5 + (if v \<ge> 100000 then 1 else 0))
            else 7 + (if v \<ge> 10000000 then 1 else 0))
         else if v < 10000000000 then 9 + (if v \<ge> 1000000000 then 1 else 0)
         else 11 + (if v \<ge> 100000000000 then 1 else 0))
      else 12 + digits10 (v div 1000000000000))"

text \<open>\<open>(uint64_t) -v\<close>, with \<open>LLONG_MIN\<close> treated apart as the code does.\<close>

definition llabs :: "int \<Rightarrow> u64" where
  "llabs v = (if v \<noteq> - (2 ^ 63) then word_of_int (- v) else word_of_int (2 ^ 63 - 1) + 1)"

definition sdigits10 :: "int \<Rightarrow> nat" where
  "sdigits10 v = (if v < 0 then digits10 (unat (llabs v)) + 1 else digits10 (nat v))"

text \<open>A write of one character at index \<open>i\<close> of a buffer.\<close>

definition poke :: "char list \<Rightarrow> nat \<Rightarrow> char \<Rightarrow> char list option" where
  "poke dst i c = (if i < length dst then Some (dst[i := c]) else None)"

definition NUL :: char where "NUL = CHR 0x00"

definition digit_pairs :: string where
  "digit_pairs =
     ''0001020304050607080910111213141516171819'' @
     ''2021222324252627282930313233343536373839'' @
     ''4041424344454647484950515253545556575859'' @
     ''6061626364656667686970717273747576777879'' @
     ''8081828384858687888990919293949596979899''"

text \<open>The \<open>while (value >= 100)\<close> loop: two digits per round, from the end of the buffer.  \<open>next\<close>
  is unsigned in C; decrementing it below zero would wrap, so that case is \<open>None\<close>.\<close>

fun ull2string_loop :: "char list \<Rightarrow> nat \<Rightarrow> nat \<Rightarrow> (char list \<times> nat \<times> nat) option" where
  "ull2string_loop dst nx value =
     (if value \<ge> 100
      then let i = (value mod 100) * 2 in
        if nx < 2 then None
        else do {
          dst \<leftarrow> poke dst nx (digit_pairs ! (i + 1));
          dst \<leftarrow> poke dst (nx - 1) (digit_pairs ! i);
          ull2string_loop dst (nx - 2) (value div 100)
        }
      else Some (dst, nx, value))"

text \<open>The error exit: terminate the buffer if it has room for that, return 0.\<close>

definition conv_err :: "char list \<Rightarrow> (char list \<times> nat) option" where
  "conv_err dst = Some (if length dst > 0 then dst[0 := NUL] else dst, 0)"

definition ull2string :: "char list \<Rightarrow> u64 \<Rightarrow> (char list \<times> nat) option" where
  "ull2string dst v =
     (let value = unat v; len = digits10 value in
      if len \<ge> length dst then conv_err dst
      else do {
        dst \<leftarrow> poke dst len NUL;
        (dst, nx, value) \<leftarrow> ull2string_loop dst (len - 1) value;
        if value < 10
        then do {
          dst \<leftarrow> poke dst nx (char_of (48 + value));
          Some (dst, len)
        }
        else if nx < 1 then None
        else do {
          dst \<leftarrow> poke dst nx (digit_pairs ! (value * 2 + 1));
          dst \<leftarrow> poke dst (nx - 1) (digit_pairs ! (value * 2));
          Some (dst, len)
        }
      })"

definition ll2string :: "char list \<Rightarrow> int \<Rightarrow> (char list \<times> nat) option" where
  "ll2string dst svalue =
     (if svalue < 0
      then if length dst < 2 then conv_err dst
           else do {
             (rest, len) \<leftarrow> ull2string (tl dst) (llabs svalue);
             Some (CHR ''-'' # rest, if len = 0 then 0 else len + 1)
           }
      else ull2string dst (word_of_int svalue))"

definition LONG_STR_SIZE :: nat where "LONG_STR_SIZE = 21"

definition is_digit :: "char \<Rightarrow> bool" where
  "is_digit c \<longleftrightarrow> 48 \<le> (of_char c :: nat) \<and> (of_char c :: nat) \<le> 57"

definition digit_val :: "char \<Rightarrow> nat" where
  "digit_val c = of_char c - 48"

text \<open>The digit loop of \<open>string2ll\<close>: \<open>None\<close> on overflow, otherwise the value and the unread rest.\<close>

fun string2ll_loop :: "u64 \<Rightarrow> string \<Rightarrow> (u64 \<times> string) option" where
  "string2ll_loop v [] = Some (v, [])"
| "string2ll_loop v (c # p) =
     (if is_digit c
      then if v > ULLONG_MAX div 10 then None
           else let v = v * 10 in
             if v > ULLONG_MAX - of_nat (digit_val c) then None
             else string2ll_loop (v + of_nat (digit_val c)) p
      else Some (v, c # p))"

definition string2ll :: "string \<Rightarrow> int option" where
  "string2ll s =
     (if s = [] \<or> length s \<ge> LONG_STR_SIZE then None
      else if s = ''0'' then Some 0
      else let negative = (hd s = CHR ''-''); p = (if negative then tl s else s) in
        if p = [] then None
        else if is_digit (hd p) \<and> hd p \<noteq> CHR ''0''
        then (case string2ll_loop (of_nat (digit_val (hd p))) (tl p) of
                None \<Rightarrow> None
              | Some (v, rest) \<Rightarrow>
                  if rest \<noteq> [] then None
                  else if negative
                  then if v > word_of_int (- (- (2 ^ 63) + 1)) + 1 then None
                       else Some (sint (- v))
                  else if v > word_of_int (2 ^ 63 - 1) then None
                  else Some (sint v))
        else None)"

text \<open>\<open>long\<close> is 64 bits wide on the platforms of the static assertion with 64-bit pointers, and 32
  bits wide on the others: the width is a parameter.\<close>

definition string2l :: "nat \<Rightarrow> string \<Rightarrow> int option" where
  "string2l long_bits s =
     (case string2ll s of
        None \<Rightarrow> None
      | Some v \<Rightarrow>
          if v < - (2 ^ (long_bits - 1)) \<or> v > 2 ^ (long_bits - 1) - 1 then None else Some v)"

definition accum :: "nat \<Rightarrow> string \<Rightarrow> nat" where
  "accum = foldl (\<lambda>n c. 10 * n + digit_val c)"

text \<open>The C library's \<open>strtoull\<close> in base 10: leading white space, an optional sign, then digits.  The result is
  the value, the unread rest, and whether \<open>ERANGE\<close> was set.  With no digits nothing is read; a value that
  does not fit is clamped; a minus sign negates in \<open>unsigned long long\<close>.\<close>

definition c_isspace :: "char \<Rightarrow> bool" where
  "c_isspace c \<longleftrightarrow> c = CHR '' '' \<or> ((9::nat) \<le> of_char c \<and> of_char c \<le> (13::nat))"

definition strtoull10 :: "string \<Rightarrow> u64 \<times> string \<times> bool" where
  "strtoull10 s =
     (let t = dropWhile c_isspace s;
          sign = t \<noteq> [] \<and> (hd t = CHR ''-'' \<or> hd t = CHR ''+'');
          u = (if sign then tl t else t);
          n = accum 0 (takeWhile is_digit u);
          rest = dropWhile is_digit u
      in if takeWhile is_digit u = [] then (0, s, False)
         else if n \<ge> 2 ^ 64 then (ULLONG_MAX, rest, True)
         else (if sign \<and> hd t = CHR ''-'' then - of_nat n else of_nat n, rest, False))"

definition string2ull :: "string \<Rightarrow> u64 option" where
  "string2ull s =
     (case string2ll s of
        Some ll \<Rightarrow> if ll < 0 then None else Some (word_of_int ll)
      | None \<Rightarrow>
          let (v, endptr, erange) = strtoull10 s in
          if erange \<or> \<not> (s \<noteq> [] \<and> endptr = []) then None else Some v)"

text \<open>\<open>memtoull\<close>; \<open>None\<close> stands for the error flag with the return value 0.  \<open>mul\<close> is positive and is
  converted to \<open>unsigned long long\<close> by the final product.\<close>

definition c_tolower :: "char \<Rightarrow> char" where
  "c_tolower c = (if (65::nat) \<le> of_char c \<and> of_char c \<le> (90::nat) then char_of (of_char c + 32 :: nat) else c)"

definition strcaseeq :: "string \<Rightarrow> string \<Rightarrow> bool" where
  "strcaseeq s t \<longleftrightarrow> map c_tolower s = map c_tolower t"

definition mem_unit :: "string \<Rightarrow> u64 option" where
  "mem_unit u =
     (if u = [] \<or> strcaseeq u ''b'' then Some 1
      else if strcaseeq u ''k'' then Some 1000
      else if strcaseeq u ''kb'' then Some 1024
      else if strcaseeq u ''m'' then Some (1000 * 1000)
      else if strcaseeq u ''mb'' then Some (1024 * 1024)
      else if strcaseeq u ''g'' then Some (1000 * 1000 * 1000)
      else if strcaseeq u ''gb'' then Some (1024 * 1024 * 1024)
      else None)"

definition memtoull :: "string \<Rightarrow> u64 option" where
  "memtoull p =
     (if p \<noteq> [] \<and> hd p = CHR ''-'' then None
      else let u = dropWhile is_digit p; buf = takeWhile is_digit p in
        case mem_unit u of
          None \<Rightarrow> None
        | Some mul \<Rightarrow>
            if length buf \<ge> 128 then None
            else let (val, endptr, erange) = strtoull10 buf in
              if endptr \<noteq> [] then None else Some (val * mul))"

definition safe_is_c_in_range :: "char \<Rightarrow> char \<Rightarrow> char \<Rightarrow> bool" where
  "safe_is_c_in_range c start stop \<longleftrightarrow>
     (of_char start :: nat) \<le> of_char c \<and> (of_char c :: nat) \<le> of_char stop"

definition base_16_char_type :: "char \<Rightarrow> int" where
  "base_16_char_type c =
     (if safe_is_c_in_range c (CHR ''0'') (CHR ''9'') then 0
      else if safe_is_c_in_range c (CHR ''a'') (CHR ''f'') then 1
      else if safe_is_c_in_range c (CHR ''A'') (CHR ''F'') then 2
      else - 1)"

definition hex_val :: "char \<Rightarrow> u64" where
  "hex_val c = of_nat (of_char c) - (if base_16_char_type c = 0 then 48
                                     else if base_16_char_type c = 1 then 97 - 10 else 65 - 10)"

text \<open>\<open>None\<close> is the overflow return \<open>-1\<close>.  The source reads one character past the end before it
  tests the index; \<open>s\<close> ends where the index test stops the loop.\<close>

fun string2ul_base16_loop :: "u64 \<Rightarrow> string \<Rightarrow> u64 option" where
  "string2ul_base16_loop result [] = Some result"
| "string2ul_base16_loop result (c # s) =
     (if base_16_char_type c = - 1 then Some result
      else let curr_val = hex_val c in
        if result > ULLONG_MAX div 16 \<or> result > (ULLONG_MAX - curr_val) div 16 then None
        else string2ul_base16_loop (result * 16 + curr_val) s)"

definition string2ul_base16_async_signal_safe :: "string \<Rightarrow> u64 option" where
  "string2ul_base16_async_signal_safe s = string2ul_base16_loop 0 s"

fun mempbrk :: "'a list \<Rightarrow> 'a list \<Rightarrow> nat option" where
  "mempbrk [] chars = None"
| "mempbrk (c # s) chars = (if c \<in> set chars then Some 0 else map_option Suc (mempbrk s chars))"

text \<open>The inner loop of \<open>memmapchars\<close> replaces by the first match and breaks.\<close>

fun memmapchar :: "('a \<times> 'a) list \<Rightarrow> 'a \<Rightarrow> 'a" where
  "memmapchar [] c = c"
| "memmapchar ((f, t) # sets) c = (if c = f then t else memmapchar sets c)"

definition memmapchars :: "'a list \<Rightarrow> 'a list \<Rightarrow> 'a list \<Rightarrow> 'a list" where
  "memmapchars s from to = map (memmapchar (zip from to)) s"

declare digits10.simps [simp del] ull2string_loop.simps [simp del]

section \<open>Decimal notation\<close>

definition digit :: "nat \<Rightarrow> char" where
  "digit d = char_of (48 + d)"

fun dec :: "nat \<Rightarrow> string" where
  "dec n = (if n < 10 then [digit n] else dec (n div 10) @ [digit (n mod 10)])"

declare dec.simps [simp del]

definition sdec :: "int \<Rightarrow> string" where
  "sdec v = (if v < 0 then CHR ''-'' # dec (nat (- v)) else dec (nat v))"

lemma dec_small [simp]: "n < 10 \<Longrightarrow> dec n = [digit n]"
  by (simp add: dec.simps)

lemma dec_step: "0 < m \<Longrightarrow> d < 10 \<Longrightarrow> dec (10 * m + d) = dec m @ [digit d]"
  by (subst dec.simps) simp

lemma length_dec_pos: "0 < length (dec n)"
  by (subst dec.simps) simp

lemma length_dec_iff: "0 < k \<Longrightarrow> length (dec n) \<le> k \<longleftrightarrow> n < 10 ^ k"
proof (induction k arbitrary: n)
  case (Suc k)
  show ?case
  proof (cases "n < 10")
    case True
    then show ?thesis by (simp add: less_le_trans [of n 10])
  next
    case False
    then have "length (dec n) = Suc (length (dec (n div 10)))" by (subst dec.simps) simp
    moreover have "n < 10 ^ Suc k \<longleftrightarrow> n div 10 < 10 ^ k" by (simp add: less_mult_imp_div_less div_less_iff_less_mult mult.commute)
    ultimately show ?thesis
      using Suc.IH [of "n div 10"] False length_dec_pos [of "n div 10"] by (cases "k = 0") auto
  qed
qed simp

lemma length_dec_eq: "10 ^ k \<le> n \<Longrightarrow> n < 10 ^ Suc k \<Longrightarrow> length (dec n) = Suc k"
  using length_dec_iff [of k n] length_dec_iff [of "Suc k" n] length_dec_pos [of n]
  by (cases "k = 0") auto

lemma length_dec_shift: "10 ^ k \<le> n \<Longrightarrow> length (dec n) = k + length (dec (n div 10 ^ k))"
proof (induction k arbitrary: n)
  case (Suc k)
  have ten: "\<not> n < 10"
    using Suc.prems one_le_power [of "10::nat" k] unfolding power_Suc by linarith
  have "10 ^ k \<le> n div 10" using Suc.prems by (simp add: less_eq_div_iff_mult_less_eq mult.commute)
  then have "length (dec (n div 10)) = k + length (dec (n div 10 div 10 ^ k))" by (rule Suc.IH)
  then show ?case using ten by (subst dec.simps) (simp add: div_mult2_eq)
qed simp

text \<open>Every comparison of \<open>digits10\<close> is a comparison of the length of the notation.\<close>

lemma less_pow10_iff:
  "v < 10 \<longleftrightarrow> length (dec v) \<le> 1" "v < 100 \<longleftrightarrow> length (dec v) \<le> 2"
  "v < 1000 \<longleftrightarrow> length (dec v) \<le> 3" "v < 10000 \<longleftrightarrow> length (dec v) \<le> 4"
  "v < 100000 \<longleftrightarrow> length (dec v) \<le> 5" "v < 1000000 \<longleftrightarrow> length (dec v) \<le> 6"
  "v < 10000000 \<longleftrightarrow> length (dec v) \<le> 7" "v < 100000000 \<longleftrightarrow> length (dec v) \<le> 8"
  "v < 1000000000 \<longleftrightarrow> length (dec v) \<le> 9" "v < 10000000000 \<longleftrightarrow> length (dec v) \<le> 10"
  "v < 100000000000 \<longleftrightarrow> length (dec v) \<le> 11" "v < 1000000000000 \<longleftrightarrow> length (dec v) \<le> 12"
  using length_dec_iff [of 1 v] length_dec_iff [of 2 v] length_dec_iff [of 3 v] length_dec_iff [of 4 v]
    length_dec_iff [of 5 v] length_dec_iff [of 6 v] length_dec_iff [of 7 v] length_dec_iff [of 8 v]
    length_dec_iff [of 9 v] length_dec_iff [of 10 v] length_dec_iff [of 11 v] length_dec_iff [of 12 v]
  by simp_all

lemma digits10_correct: "digits10 v = length (dec v)"
proof (induction v rule: less_induct)
  case (less v)
  have L: "1 \<le> length (dec v)" using length_dec_pos [of v] by (simp only: One_nat_def Suc_le_eq)
  show ?case
  proof (cases "length (dec v) \<le> 12")
    case True
    then show ?thesis
      unfolding digits10.simps [of v] linorder_not_less [symmetric] less_pow10_iff
      using L by (simp split: if_split)
  next
    case False
    then have big: "1000000000000 \<le> v" using less_pow10_iff(12) [of v] by simp
    then have "digits10 (v div 1000000000000) = length (dec (v div 1000000000000))"
      by (intro less.IH) simp
    moreover have "digits10 v = 12 + digits10 (v div 1000000000000)"
      using big by (subst digits10.simps) simp
    ultimately show ?thesis using length_dec_shift [of 12 v] big by simp
  qed
qed

section \<open>Printing\<close>

lemma length_digit_pairs: "length digit_pairs = 200"
  by (simp add: digit_pairs_def)

lemma digit_chars:
  "digit 0 = CHR ''0''" "digit (Suc 0) = CHR ''1''" "digit 1 = CHR ''1''" "digit 2 = CHR ''2''"
  "digit 3 = CHR ''3''" "digit 4 = CHR ''4''" "digit 5 = CHR ''5''" "digit 6 = CHR ''6''"
  "digit 7 = CHR ''7''" "digit 8 = CHR ''8''" "digit 9 = CHR ''9''"
  "digit (Suc (Suc 0)) = CHR ''2''"
  by (simp_all add: digit_def char_of_def bit_0)

lemma digit_pairs_concat:
  "digit_pairs = concat (map (\<lambda>k. [digit (k div 10), digit (k mod 10)]) [0..<100])"
  by (simp add: digit_pairs_def digit_chars upt_conv_Cons)

lemma digit_pairs_nth:
  assumes "k < 100"
  shows "digit_pairs ! (k * 2) = digit (k div 10)" "digit_pairs ! (k * 2 + 1) = digit (k mod 10)"
proof -
  let ?cs = "map (\<lambda>k. [digit (k div 10), digit (k mod 10)]) [0..<100]"
  have "get_bytes digit_pairs (k * 2) 2 = Some [digit (k div 10), digit (k mod 10)]"
    using assms cells_get [of 2 ?cs k] by (simp add: digit_pairs_concat)
  then have pair: "take 2 (drop (k * 2) digit_pairs) = [digit (k div 10), digit (k mod 10)]"
    by (simp add: get_bytes_def split: if_splits)
  show "digit_pairs ! (k * 2) = digit (k div 10)" "digit_pairs ! (k * 2 + 1) = digit (k mod 10)"
    using arg_cong [OF pair, of "\<lambda>l. l ! 0"] arg_cong [OF pair, of "\<lambda>l. l ! 1"] assms length_digit_pairs
    by simp_all
qed

lemma dec_100:
  assumes "100 \<le> n"
  shows "dec n = dec (n div 100) @ [digit (n mod 100 div 10), digit (n mod 100 mod 10)]"
proof -
  have "dec n = dec (n div 10) @ [digit (n mod 10)]" using assms by (subst dec.simps) simp
  moreover have "dec (n div 10) = dec (n div 10 div 10) @ [digit (n div 10 mod 10)]"
    using assms by (subst dec.simps) simp
  moreover have "n mod 100 = 10 * (n div 10 mod 10) + n mod 10"
    using mod_mult2_eq [of n 10 10] by simp
  then have "n mod 100 div 10 = n div 10 mod 10" "n mod 100 mod 10 = n mod 10" by simp_all
  ultimately show ?thesis by (simp add: div_mult2_eq [of n 10 10, simplified])
qed

text \<open>The digit loop followed by the code for the last one or two digits.\<close>

definition ull2string_digits :: "char list \<Rightarrow> nat \<Rightarrow> nat \<Rightarrow> char list option" where
  "ull2string_digits dst nx value = do {
     (dst, nx, value) \<leftarrow> ull2string_loop dst nx value;
     if value < 10 then poke dst nx (char_of (48 + value))
     else if nx < 1 then None
     else do {
       dst \<leftarrow> poke dst nx (digit_pairs ! (value * 2 + 1));
       poke dst (nx - 1) (digit_pairs ! (value * 2))
     }
   }"

lemma ull2string_alt:
  "ull2string dst v =
     (if digits10 (unat v) \<ge> length dst then conv_err dst
      else do {
        dst \<leftarrow> poke dst (digits10 (unat v)) NUL;
        dst \<leftarrow> ull2string_digits dst (digits10 (unat v) - 1) (unat v);
        Some (dst, digits10 (unat v))
      })"
  by (auto simp: ull2string_def ull2string_digits_def Let_def split: bind_splits)

lemma poke_pair:
  assumes "nx < length dst" "1 \<le> nx"
  shows "do { dst \<leftarrow> poke dst nx b; poke dst (nx - 1) a }
           = Some (take (nx - 1) dst @ [a, b] @ drop (nx + 1) dst)"
proof -
  obtain m where m: "nx = Suc m" using assms(2) by (cases nx) auto
  have "dst[Suc m := b, m := a] = take m dst @ [a, b] @ drop (Suc (Suc m)) dst"
    using assms(1) m by (simp add: upd_conv_take_nth_drop list_update_append min_absorb1 take_Suc_conv_app_nth)
  then show ?thesis using assms(1) m by (simp add: poke_def)
qed

lemma ull2string_digits_correct:
  "nx + 1 = length (dec n) \<Longrightarrow> nx < length dst \<Longrightarrow>
     ull2string_digits dst nx n = Some (dec n @ drop (nx + 1) dst)"
proof (induction n arbitrary: dst nx rule: less_induct)
  case (less n)
  show ?case
  proof (cases "100 \<le> n")
    case True
    let ?k = "n mod 100"
    have d: "dec n = dec (n div 100) @ [digit (?k div 10), digit (?k mod 10)]"
      using True by (rule dec_100)
    have nx: "2 \<le> nx" "nx - 2 + 1 = length (dec (n div 100))"
      using less.prems(1) d length_dec_pos [of "n div 100"] by (simp_all add: Suc_le_eq)
    define dst1 where "dst1 = take (nx - 1) dst @ [digit (?k div 10), digit (?k mod 10)] @ drop (nx + 1) dst"
    have "do { dst \<leftarrow> poke dst nx (digit_pairs ! (?k * 2 + 1)); poke dst (nx - 1) (digit_pairs ! (?k * 2)) }
        = Some dst1"
      using poke_pair [of nx dst] less.prems(2) nx(1) digit_pairs_nth [of ?k] by (simp add: dst1_def)
    then have "ull2string_digits dst nx n = ull2string_digits dst1 (nx - 2) (n div 100)"
      using True nx(1) unfolding ull2string_digits_def
      by (subst ull2string_loop.simps) (auto simp: Let_def not_less split: bind_splits)
    also have "\<dots> = Some (dec (n div 100) @ drop (nx - 2 + 1) dst1)"
      using less.prems(2) nx True by (intro less.IH) (auto simp: dst1_def)
    also have "drop (nx - 2 + 1) dst1 = [digit (?k div 10), digit (?k mod 10)] @ drop (nx + 1) dst"
      using less.prems(2) nx(1) by (simp add: dst1_def min_absorb2)
    finally show ?thesis by (simp add: d)
  next
    case False
    show ?thesis
    proof (cases "n < 10")
      case True
      then have "nx = 0" using less.prems(1) by simp
      then show ?thesis
        using True less.prems(2) False
        by (cases dst) (simp_all add: ull2string_digits_def ull2string_loop.simps poke_def digit_def)
    next
      case F: False
      have "n div 10 < 10" using False by simp
      then have d: "dec n = [digit (n div 10), digit (n mod 10)]"
        using F by (subst dec.simps) simp
      then have nx: "nx = 1" using less.prems(1) by simp
      have "do { dst \<leftarrow> poke dst 1 (digit_pairs ! (n * 2 + 1)); poke dst (1 - 1) (digit_pairs ! (n * 2)) }
          = Some ([digit (n div 10), digit (n mod 10)] @ drop 2 dst)"
        using poke_pair [of 1 dst] less.prems(2) nx digit_pairs_nth [of n] False
        by (simp add: numeral_2_eq_2)
      then show ?thesis
        using F False nx d by (simp add: ull2string_digits_def ull2string_loop.simps numeral_2_eq_2)
    qed
  qed
qed

lemma ull2string_correct:
  "ull2string dst v =
     Some (if length (dec (unat v)) < length dst
           then (dec (unat v) @ NUL # drop (length (dec (unat v)) + 1) dst, length (dec (unat v)))
           else (if dst = [] then [] else NUL # tl dst, 0))"
proof (cases "length (dec (unat v)) < length dst")
  case True
  let ?n = "length (dec (unat v))"
  have "ull2string_digits (dst[?n := NUL]) (?n - 1) (unat v)
      = Some (dec (unat v) @ drop ?n (dst[?n := NUL]))"
    using ull2string_digits_correct [of "?n - 1" "unat v" "dst[?n := NUL]"] True length_dec_pos [of "unat v"]
    by simp
  moreover have "drop ?n (dst[?n := NUL]) = NUL # drop (?n + 1) dst"
    using True by (simp add: upd_conv_take_nth_drop)
  ultimately show ?thesis
    using True by (simp add: ull2string_alt digits10_correct poke_def)
next
  case False
  then show ?thesis by (cases dst) (simp_all add: ull2string_alt digits10_correct conv_err_def)
qed

lemma unat_llabs: "- (2 ^ 63) \<le> v \<Longrightarrow> v < 0 \<Longrightarrow> unat (llabs v) = nat (- v)"
proof (cases "v = - (2 ^ 63)")
  case False
  assume "- (2 ^ 63) \<le> v" "v < 0"
  then have "uint (word_of_int (- v) :: u64) = - v" by (subst uint_word_of_int) simp
  then show ?thesis using False by (simp add: llabs_def unat_eq_nat_uint)
qed (simp add: llabs_def)

lemma ll2string_correct:
  assumes "- (2 ^ 63) \<le> v" "v < 2 ^ 63" "length (sdec v) < length dst"
  shows "ll2string dst v = Some (sdec v @ NUL # drop (length (sdec v) + 1) dst, length (sdec v))"
proof (cases "v < 0")
  case True
  then obtain c rest where dst: "dst = c # rest" using assms(3) by (cases dst) auto
  have "2 \<le> length dst" using assms(3) True length_dec_pos [of "nat (- v)"] by (simp add: sdec_def)
  then show ?thesis
    using True assms dst length_dec_pos [of "nat (- v)"]
    by (auto simp: ll2string_def ull2string_correct unat_llabs sdec_def)
next
  case False
  then have "unat (word_of_int v :: u64) = nat v"
    using assms by (simp add: unat_eq_nat_uint uint_word_of_int)
  then show ?thesis using False assms by (simp add: ll2string_def ull2string_correct sdec_def)
qed

lemma ll2string_too_small:
  assumes "- (2 ^ 63) \<le> v" "v < 2 ^ 63" "length dst \<le> length (sdec v)"
  shows "\<exists>dst'. ll2string dst v = Some (dst', 0) \<and> length dst' = length dst"
proof (cases "v < 0")
  case True
  then show ?thesis
    using assms by (cases dst; cases "tl dst")
      (auto simp: ll2string_def conv_err_def ull2string_correct unat_llabs sdec_def)
next
  case False
  then have "unat (word_of_int v :: u64) = nat v"
    using assms by (simp add: unat_eq_nat_uint uint_word_of_int)
  then show ?thesis using False assms by (cases dst) (auto simp: ll2string_def ull2string_correct sdec_def)
qed

section \<open>Parsing\<close>

lemma accum_simps [simp]:
  "accum n [] = n" "accum n (c # cs) = accum (10 * n + digit_val c) cs"
  "accum n (cs @ [c]) = 10 * accum n cs + digit_val c"
  by (simp_all add: accum_def)

lemma accum_ge: "n \<le> accum n cs"
proof (induction cs arbitrary: n)
  case (Cons c cs)
  have "10 * n + digit_val c \<le> accum (10 * n + digit_val c) cs" by (rule Cons.IH)
  then show ?case by simp
qed simp

lemma digit_val_bound: "is_digit c \<Longrightarrow> digit_val c < 10"
  unfolding is_digit_def digit_val_def by linarith

lemma digit_digit_val: "is_digit c \<Longrightarrow> digit (digit_val c) = c"
  by (simp add: is_digit_def digit_val_def digit_def)

lemma digit_val_digit: "d < 10 \<Longrightarrow> digit_val (digit d) = d \<and> is_digit (digit d)"
  by (simp add: is_digit_def digit_val_def digit_def)

lemma unat_ULLONG_MAX: "unat ULLONG_MAX = 2 ^ 64 - 1"
  by (simp add: ULLONG_MAX_def unsigned_minus_1_eq_mask mask_eq_exp_minus_1)

text \<open>The two overflow tests together are exact.\<close>

lemma overflow_test:
  fixes v :: u64
  assumes "d < 10"
  shows "\<not> v > ULLONG_MAX div 10 \<and> \<not> v * 10 > ULLONG_MAX - of_nat d \<longleftrightarrow> 10 * unat v + d < 2 ^ 64"
    and "10 * unat v + d < 2 ^ 64 \<Longrightarrow> unat (v * 10 + of_nat d) = 10 * unat v + d"
proof -
  have d: "unat (of_nat d :: u64) = d" using assms by (simp add: unat_of_nat take_bit_nat_eq_self)
  have ten: "unat (10 :: u64) = 10" by simp
  have mul: "unat (v * 10) = 10 * unat v" if "10 * unat v < 2 ^ 64"
    using that by (simp add: unat_word_ariths mult.commute)
  have "(of_nat d :: u64) \<le> ULLONG_MAX" by (simp add: ULLONG_MAX_def)
  then have sub: "unat (ULLONG_MAX - of_nat d) = 2 ^ 64 - 1 - d"
    using d by (simp add: unat_sub unat_ULLONG_MAX)
  have dv: "v > ULLONG_MAX div 10 \<longleftrightarrow> unat v > (2 ^ 64 - 1) div 10"
    by (simp add: word_less_nat_alt unat_div unat_ULLONG_MAX)
  show "\<not> v > ULLONG_MAX div 10 \<and> \<not> v * 10 > ULLONG_MAX - of_nat d \<longleftrightarrow> 10 * unat v + d < 2 ^ 64"
  proof (cases "10 * unat v < 2 ^ 64")
    case True
    have "v * 10 > ULLONG_MAX - of_nat d \<longleftrightarrow> 10 * unat v > 2 ^ 64 - 1 - d"
      unfolding word_less_nat_alt mul [OF True] sub ..
    then show ?thesis unfolding dv using True assms by simp linarith
  next
    case False
    then show ?thesis unfolding dv by simp
  qed
  show "10 * unat v + d < 2 ^ 64 \<Longrightarrow> unat (v * 10 + of_nat d) = 10 * unat v + d"
    using mul d by (subst unat_word_ariths(1)) simp
qed

lemma string2ll_loop_correct:
  "string2ll_loop v cs = Some (w, []) \<longleftrightarrow>
     (\<forall>c \<in> set cs. is_digit c) \<and> accum (unat v) cs < 2 ^ 64 \<and> unat w = accum (unat v) cs"
proof (induction cs arbitrary: v)
  case Nil
  show ?case using unsigned_less [of v] by (auto simp: word_unat_eq_iff)
next
  case (Cons c cs)
  let ?n = "10 * unat v + digit_val c"
  show ?case
  proof (cases "is_digit c")
    case True
    note T = overflow_test [OF digit_val_bound [OF True], of v]
    show ?thesis
    proof (cases "?n < 2 ^ 64")
      case small: True
      then show ?thesis
        using True T Cons.IH [of "v * 10 + of_nat (digit_val c)"] by (simp add: Let_def)
    next
      case False
      then have "\<not> accum ?n cs < 2 ^ 64" using accum_ge [of ?n cs] by linarith
      then show ?thesis using True T(1) False by (auto simp: Let_def)
    qed
  qed simp
qed

lemma dec_digits: "\<forall>c \<in> set (dec n). is_digit c"
proof (induction n rule: dec.induct)
  case (1 n)
  then show ?case by (subst dec.simps) (auto simp: digit_val_digit)
qed

lemma accum_dec: "accum 0 (dec n) = n"
proof (induction n rule: dec.induct)
  case (1 n)
  then show ?case by (subst dec.simps) (auto simp: digit_val_digit)
qed

lemma hd_dec: "0 < n \<Longrightarrow> hd (dec n) \<noteq> CHR ''0''"
proof (induction n rule: dec.induct)
  case (1 n)
  show ?case
  proof (cases "n < 10")
    case True
    then show ?thesis using "1.prems" digit_val_digit [OF True] by (auto simp: digit_val_def)
  next
    case False
    then have "hd (dec n) = hd (dec (n div 10))"
      using length_dec_pos [of "n div 10"] by (subst dec.simps) simp
    then show ?thesis using False 1 by simp
  qed
qed

lemma dec_accum:
  assumes "is_digit c" "c \<noteq> CHR ''0''" "\<forall>c \<in> set cs. is_digit c"
  shows "0 < accum 0 (c # cs) \<and> dec (accum 0 (c # cs)) = c # cs"
  using assms(3)
proof (induction cs rule: rev_induct)
  case Nil
  have "0 < digit_val c"
  proof (rule ccontr)
    assume "\<not> 0 < digit_val c"
    then have "c = digit 0" using digit_digit_val [OF assms(1)] by simp
    then show False using assms(2) by (simp add: digit_chars)
  qed
  then show ?case using digit_val_bound [OF assms(1)] digit_digit_val [OF assms(1)] by simp
next
  case (snoc d cs)
  then have IH: "0 < accum 0 (c # cs)" "dec (accum 0 (c # cs)) = c # cs" by simp_all
  have "accum 0 (c # cs @ [d]) = 10 * accum 0 (c # cs) + digit_val d"
    using accum_simps(3) [of 0 "c # cs" d] by simp
  then show ?case
    using IH dec_step [OF IH(1), of "digit_val d"] snoc.prems digit_val_bound [of d] digit_digit_val [of d]
    by simp
qed

lemma positive_parse:
  "p \<noteq> [] \<and> is_digit (hd p) \<and> hd p \<noteq> CHR ''0'' \<and>
     string2ll_loop (of_nat (digit_val (hd p))) (tl p) = Some (w, []) \<longleftrightarrow> 0 < unat w \<and> p = dec (unat w)"
    (is "?l \<longleftrightarrow> ?r")
proof
  have small: "unat (of_nat (digit_val c) :: u64) = digit_val c" if "is_digit c" for c
    using digit_val_bound [OF that] by (simp add: unat_of_nat take_bit_nat_eq_self)
  {
    assume ?l
    then obtain c cs where p: "p = c # cs" "is_digit c" "c \<noteq> CHR ''0''" by (cases p) auto
    then show ?r
      using \<open>?l\<close> small [of c] dec_accum [of c cs] by (auto simp: string2ll_loop_correct)
  next
    assume ?r
    then obtain c cs where p: "p = c # cs" "dec (unat w) = c # cs"
      using length_dec_pos [of "unat w"] by (metis length_greater_0_conv neq_Nil_conv)
    then have "is_digit c" "\<forall>c \<in> set cs. is_digit c" "c \<noteq> CHR ''0''"
      using dec_digits [of "unat w"] hd_dec [of "unat w"] \<open>?r\<close> by auto
    moreover have "accum (digit_val c) cs = unat w" using accum_dec [of "unat w"] p(2) by simp
    moreover have "unat w < 2 ^ 64" using unsigned_less [of w] by simp
    ultimately show ?l using small [of c] p(1) by (simp add: string2ll_loop_correct)
  }
qed

lemma length_sdec: "- (2 ^ 63) \<le> v \<Longrightarrow> v < 2 ^ 63 \<Longrightarrow> length (sdec v) < LONG_STR_SIZE"
proof -
  assume v: "- (2 ^ 63) \<le> v" "v < 2 ^ 63"
  have "length (dec (nat (- v))) \<le> 19" "length (dec (nat v)) \<le> 19"
    using v by (simp_all add: length_dec_iff nat_less_iff)
  then show ?thesis by (simp add: sdec_def LONG_STR_SIZE_def)
qed

lemma range_tests:
  "w > word_of_int (- (- (2 ^ 63) + 1)) + 1 \<longleftrightarrow> unat w > 2 ^ 63"
  "w > word_of_int (2 ^ 63 - 1) \<longleftrightarrow> unat w \<ge> 2 ^ 63" for w :: u64
  by (auto simp: word_less_nat_alt)

lemma dec_head: "hd (dec n) \<noteq> CHR ''-''"
proof -
  have "is_digit (hd (dec n))" using dec_digits [of n] length_dec_pos [of n] by simp
  moreover have "\<not> is_digit (CHR ''-'')" by (simp add: is_digit_def)
  ultimately show ?thesis by metis
qed

lemma dec_eq_iff: "dec m = dec n \<longleftrightarrow> m = n"
  by (metis accum_dec)

lemma sdec_zero_iff: "sdec v = ''0'' \<longleftrightarrow> v = 0"
proof -
  have "dec 0 = ''0''" by (simp add: digit_chars)
  then have "dec n = ''0'' \<longleftrightarrow> n = 0" for n using dec_eq_iff [of n 0] by simp
  then show ?thesis by (simp add: sdec_def)
qed

lemma string2ll_unfold:
  assumes "s \<noteq> []" "length s < LONG_STR_SIZE" "s \<noteq> ''0''"
  shows "string2ll s = Some v \<longleftrightarrow>
     (\<exists>w :: u64. 0 < unat w \<and>
        (if hd s = CHR ''-'' then tl s = dec (unat w) \<and> unat w \<le> 2 ^ 63 \<and> v = - int (unat w)
         else s = dec (unat w) \<and> unat w < 2 ^ 63 \<and> v = int (unat w)))"
proof -
  let ?p = "if hd s = CHR ''-'' then tl s else s"
  have "string2ll s = Some v \<longleftrightarrow>
     (\<exists>w :: u64. ?p \<noteq> [] \<and> is_digit (hd ?p) \<and> hd ?p \<noteq> CHR ''0'' \<and>
        string2ll_loop (of_nat (digit_val (hd ?p))) (tl ?p) = Some (w, []) \<and>
        (if hd s = CHR ''-'' then unat w \<le> 2 ^ 63 \<and> v = sint (- w)
         else unat w < 2 ^ 63 \<and> v = sint w))"
    using assms unfolding string2ll_def Let_def range_tests
    by (auto split: option.splits if_splits)
  also have "\<dots> \<longleftrightarrow> (\<exists>w :: u64. 0 < unat w \<and> ?p = dec (unat w) \<and>
        (if hd s = CHR ''-'' then unat w \<le> 2 ^ 63 \<and> v = sint (- w)
         else unat w < 2 ^ 63 \<and> v = sint w))"
  proof (rule iff_exI)
    fix w :: u64
    show "?p \<noteq> [] \<and> is_digit (hd ?p) \<and> hd ?p \<noteq> CHR ''0'' \<and>
        string2ll_loop (of_nat (digit_val (hd ?p))) (tl ?p) = Some (w, []) \<and>
        (if hd s = CHR ''-'' then unat w \<le> 2 ^ 63 \<and> v = sint (- w)
         else unat w < 2 ^ 63 \<and> v = sint w) \<longleftrightarrow>
      0 < unat w \<and> ?p = dec (unat w) \<and>
        (if hd s = CHR ''-'' then unat w \<le> 2 ^ 63 \<and> v = sint (- w)
         else unat w < 2 ^ 63 \<and> v = sint w)"
      using positive_parse [of ?p w] by argo
  qed
  finally show ?thesis
    using sint_small_u64 sint_uminus_u64 by (smt (verit, ccfv_threshold))
qed

lemma unat_of_nat_abs: "n < 2 ^ 64 \<Longrightarrow> unat (of_nat n :: u64) = n"
  by (simp add: unat_of_nat take_bit_nat_eq_self)

lemma string2ll_exact: "string2ll s = Some v \<longleftrightarrow> - (2 ^ 63) \<le> v \<and> v < 2 ^ 63 \<and> s = sdec v"
proof (cases "s \<noteq> [] \<and> length s < LONG_STR_SIZE \<and> s \<noteq> ''0''")
  case True
  show ?thesis
  proof
    assume "string2ll s = Some v"
    then obtain n where n: "0 < n"
        "if hd s = CHR ''-'' then tl s = dec n \<and> n \<le> 2 ^ 63 \<and> v = - int n
         else s = dec n \<and> n < 2 ^ 63 \<and> v = int n"
      using string2ll_unfold [of s v] True by metis
    then show "- (2 ^ 63) \<le> v \<and> v < 2 ^ 63 \<and> s = sdec v"
      using True by (cases s) (auto simp: sdec_def split: if_splits)
  next
    assume v: "- (2 ^ 63) \<le> v \<and> v < 2 ^ 63 \<and> s = sdec v"
    let ?w = "of_nat (nat \<bar>v\<bar>) :: u64"
    have w: "unat ?w = nat \<bar>v\<bar>" using v by (intro unat_of_nat_abs) (auto simp: nat_less_iff)
    have "v \<noteq> 0" using True v sdec_zero_iff by auto
    then show "string2ll s = Some v"
      using string2ll_unfold [of s v] True v w dec_head [of "nat v"]
      by (intro iffD2 [OF string2ll_unfold] exI [of _ ?w]) (auto simp: sdec_def nat_le_iff nat_less_iff)
  qed
next
  case False
  then consider "s = []" | "length s \<ge> LONG_STR_SIZE" | "s = ''0''" by fastforce
  then show ?thesis
  proof cases
    case 1
    then show ?thesis using length_dec_pos [of "nat v"] by (auto simp: string2ll_def sdec_def)
  next
    case 2
    then show ?thesis using length_sdec [of v] by (auto simp: string2ll_def)
  next
    case 3
    then show ?thesis using sdec_zero_iff [of v] by (auto simp: string2ll_def LONG_STR_SIZE_def)
  qed
qed

section \<open>The library conversions\<close>

lemma is_digit_not_space: "is_digit c \<Longrightarrow> \<not> c_isspace c \<and> c \<noteq> CHR ''-'' \<and> c \<noteq> CHR ''+''"
  by (auto simp: is_digit_def c_isspace_def)

lemma takeWhile_dec: "takeWhile is_digit (dec n) = dec n" "dropWhile is_digit (dec n) = []"
  using dec_digits [of n] by simp_all

lemma dec_nonspace: "\<not> c_isspace (hd (dec n))" "hd (dec n) \<noteq> CHR ''-''" "hd (dec n) \<noteq> CHR ''+''"
  using is_digit_not_space [of "hd (dec n)"] dec_digits [of n] length_dec_pos [of n] by (cases "dec n"; simp)+

lemma strtoull10_dec: "n < 2 ^ 64 \<Longrightarrow> strtoull10 (dec n) = (of_nat n, [], False)"
proof -
  have "dropWhile c_isspace (dec n) = dec n"
    using dec_nonspace(1) [of n] length_dec_pos [of n] by (cases "dec n") simp_all
  then show "n < 2 ^ 64 \<Longrightarrow> ?thesis"
    using length_dec_pos [of n] dec_nonspace [of n] by (simp add: strtoull10_def Let_def takeWhile_dec accum_dec)
qed

lemma strtoull10_minus_dec: "n < 2 ^ 64 \<Longrightarrow> strtoull10 (CHR ''-'' # dec n) = (- of_nat n, [], False)"
  using length_dec_pos [of n] by (simp add: strtoull10_def c_isspace_def Let_def takeWhile_dec accum_dec)

lemma string2ll_dec: "string2ll (dec n) = (if n < 2 ^ 63 then Some (int n) else None)"
proof (cases "string2ll (dec n)")
  case None
  then show ?thesis using string2ll_exact [of "dec n" "int n"] by (auto simp: sdec_def)
next
  case (Some v)
  then have v: "v < 2 ^ 63" "dec n = sdec v" using string2ll_exact [of "dec n" v] by auto
  then have "v = int n" using dec_head [of n] by (auto simp: sdec_def dec_eq_iff split: if_splits)
  then show ?thesis using Some v(1) by simp
qed

lemma string2ull_dec: "n < 2 ^ 64 \<Longrightarrow> string2ull (dec n) = Some (of_nat n)"
  using length_dec_pos [of n] by (auto simp: string2ull_def string2ll_dec strtoull10_dec)

lemma mem_unit_no_digit: "mem_unit u = Some m \<Longrightarrow> u = [] \<or> \<not> is_digit (hd u)"
proof (cases u)
  case (Cons c cs)
  have "c_tolower c \<in> {CHR ''b'', CHR ''k'', CHR ''m'', CHR ''g''}" if "mem_unit u = Some m"
    using that Cons
    by (auto simp: mem_unit_def strcaseeq_def split: if_splits) (auto simp: c_tolower_def)
  moreover have "is_digit c \<Longrightarrow> c_tolower c = c" by (auto simp: is_digit_def c_tolower_def)
  ultimately show "mem_unit u = Some m \<Longrightarrow> ?thesis" using Cons by (auto simp: is_digit_def)
qed simp

lemma memtoull_dec:
  assumes "n < 2 ^ 64" "mem_unit u = Some m"
  shows "memtoull (dec n @ u) = Some (of_nat n * m)"
proof -
  have "takeWhile is_digit (dec n @ u) = dec n" "dropWhile is_digit (dec n @ u) = u"
    using dec_digits [of n] mem_unit_no_digit [OF assms(2)] by (cases u; simp)+
  moreover have "length (dec n) < 128"
    using length_dec_iff [of 127 n] assms(1) by (simp add: order.strict_trans2)
  moreover have "hd (dec n @ u) \<noteq> CHR ''-''" using dec_head [of n] length_dec_pos [of n] by simp
  ultimately show ?thesis by (simp add: memtoull_def assms(2) strtoull10_dec [OF assms(1)] Let_def)
qed

section \<open>Properties\<close>

text \<open>C23. \<open>string2ll\<close> accepts a string exactly when it is the canonical decimal notation of a 64-bit signed
  integer, and returns that integer: no overflow goes unnoticed, and there are no leading zeros, plus signs
  or spaces.\<close>

theorem string2ll_parses_exactly:
  "string2ll s = Some v \<longleftrightarrow> - (2 ^ 63) \<le> v \<and> v < 2 ^ 63 \<and> s = sdec v"
  by (rule string2ll_exact)

text \<open>C24. \<open>ll2string\<close> into a buffer of \<open>LONG_STR_SIZE\<close> bytes or more stays inside the buffer, ends the text with a
  zero byte, and \<open>string2ll\<close> reads the same integer back from the text, for every 64-bit value.\<close>

theorem ll2string_string2ll:
  assumes "- (2 ^ 63) \<le> v" "v < 2 ^ 63" "LONG_STR_SIZE \<le> length dst"
  shows "\<exists>dst' n. ll2string dst v = Some (dst', n) \<and> length dst' = length dst \<and> dst' ! n = NUL \<and>
           string2ll (take n dst') = Some v"
proof -
  have len: "length (sdec v) < length dst" using length_sdec [OF assms(1,2)] assms(3) by simp
  show ?thesis
    using ll2string_correct [OF assms(1,2) len] string2ll_exact [of "sdec v" v] assms(1,2) len
    by (simp add: nth_append)
qed

theorem ll2string_string2ll_witness:
  "\<exists>dst' n. ll2string (replicate 21 (CHR ''A'')) (- 9223372036854775808) = Some (dst', n) \<and>
     string2ll (take n dst') = Some (- 9223372036854775808)"
  using ll2string_string2ll [of "- 9223372036854775808" "replicate 21 (CHR ''A'')"]
  by (auto simp: LONG_STR_SIZE_def)

text \<open>A buffer too small for the text of the integer and its terminator makes \<open>ll2string\<close> return 0 without
  writing outside the buffer.\<close>

theorem ll2string_small_buffer:
  assumes "- (2 ^ 63) \<le> v" "v < 2 ^ 63" "length dst \<le> length (sdec v)"
  shows "\<exists>dst'. ll2string dst v = Some (dst', 0) \<and> length dst' = length dst"
  by (rule ll2string_too_small [OF assms])

theorem ll2string_small_buffer_witness: "\<exists>dst'. ll2string ''abc'' (- 12) = Some (dst', 0)"
proof -
  have "sdec (- 12) = ''-12''" by (simp add: sdec_def dec.simps digit_chars)
  then show ?thesis using ll2string_small_buffer [of "- 12" "''abc''"] by auto
qed

text \<open>\<open>string2ull\<close> reads the decimal notation of every 64-bit unsigned integer.\<close>

theorem string2ull_reads:
  assumes "n < 2 ^ 64"
  shows "string2ull (dec n) = Some (of_nat n)"
  by (rule string2ull_dec [OF assms])

theorem string2ull_reads_witness: "string2ull ''18446744073709551615'' = Some (- 1)"
proof -
  have "dec 18446744073709551615 = ''18446744073709551615''" by (simp add: dec.simps digit_chars)
  then show ?thesis using string2ull_reads [of 18446744073709551615] by simp
qed

text \<open>A number below the signed range slips through the test for negative values of
  \<open>string2ull\<close>: the fallback to \<open>strtoull\<close> negates it modulo \<open>2^64\<close> and the conversion succeeds.\<close>

theorem string2ull_accepts_negative:
  assumes "2 ^ 63 < n" "n < 2 ^ 64"
  shows "string2ull (CHR ''-'' # dec n) = Some (- of_nat n)"
proof -
  have "string2ll (CHR ''-'' # dec n) \<noteq> Some v" for v
  proof
    assume "string2ll (CHR ''-'' # dec n) = Some v"
    then have v: "- (2 ^ 63) \<le> v" "CHR ''-'' # dec n = sdec v" using string2ll_exact by auto
    have "v < 0"
    proof (rule ccontr)
      assume "\<not> v < 0"
      then have "dec (nat v) = CHR ''-'' # dec n" using v(2) by (simp add: sdec_def)
      then show False using dec_head [of "nat v"] by simp
    qed
    then have "int n = - v" using v(2) by (simp add: sdec_def dec_eq_iff)
    then show False using v(1) assms(1) by simp
  qed
  then show ?thesis using strtoull10_minus_dec [OF assms(2)] by (simp add: string2ull_def split: option.split)
qed

theorem string2ull_accepts_negative_witness: "string2ull ''-18446744073709551615'' = Some 1"
proof -
  have "dec 18446744073709551615 = ''18446744073709551615''" by (simp add: dec.simps digit_chars)
  then show ?thesis using string2ull_accepts_negative [of 18446744073709551615] by simp
qed



text \<open>The product is not checked: an amount of memory that does not fit wraps around without an error.\<close>

theorem memtoull_wraps: "memtoull ''17179869185gb'' = Some 1073741824"
proof -
  have "mem_unit ''gb'' = Some 1073741824" by code_simp
  moreover have "dec 17179869185 = ''17179869185''" by (simp add: dec.simps digit_chars)
  ultimately show ?thesis using memtoull_dec [of 17179869185 "''gb''" 1073741824] by simp
qed

end
