(* ===== verification/Glob.thy ===== *)
theory Glob
  imports Redis_Prelude
begin

text \<open>
  Glob-style matching, \<open>stringmatchlen_impl\<close>, \<open>stringmatchlen\<close> and \<open>prefixmatch\<close> of \<open>util.c\<close>: the
  patterns of \<open>KEYS\<close>, \<open>SCAN\<close>, \<open>PSUBSCRIBE\<close> and the access lists.  Pattern and string with their
  lengths are lists of characters; a pattern is followed in memory by a zero byte, as in every
  dynamic string.  The \<open>skipLongerMatches\<close> flag is threaded through the calls.  The lemmas show that
  the flag, which ends the search early, never loses a match.
\<close>

section \<open>Model\<close>

text \<open>A plain \<open>char\<close> is signed; \<open>tolower\<close> changes the ASCII capitals only.\<close>

definition schar :: "char \<Rightarrow> int" where
  "schar c = (let n = of_char c in if n < (128::int) then n else n - 256)"

definition tolower :: "int \<Rightarrow> int" where
  "tolower x = (if 65 \<le> x \<and> x \<le> 90 then x + 32 else x)"

definition char_match :: "bool \<Rightarrow> char \<Rightarrow> char \<Rightarrow> bool" where
  "char_match nocase x c = (if nocase then tolower (schar x) = tolower (schar c) else x = c)"

definition range_match :: "bool \<Rightarrow> char \<Rightarrow> char \<Rightarrow> char \<Rightarrow> bool" where
  "range_match nocase a b c =
     (let lo = (if schar a > schar b then schar b else schar a);
          hi = (if schar a > schar b then schar a else schar b);
          f = (if nocase then tolower else id)
      in f (schar c) \<ge> f lo \<and> f (schar c) \<le> f hi)"

text \<open>The loop over a bracket expression: whether the character matched so far, and the pattern after the
  closing bracket (or its end, when the bracket is not closed).\<close>

fun class_loop :: "bool \<Rightarrow> bool \<Rightarrow> string \<Rightarrow> char \<Rightarrow> bool \<times> string" where
  "class_loop nocase mat [] c = (mat, [])"
| "class_loop nocase mat (x # p) c =
     (if x = CHR 0x5C \<and> p \<noteq> [] then class_loop nocase (mat \<or> hd p = c) (tl p) c
      else if x = CHR '']'' then (mat, p)
      else if length p \<ge> 2 \<and> hd p = CHR ''-''
      then class_loop nocase (mat \<or> range_match nocase x (p ! 1) c) (drop 2 p) c
      else class_loop nocase (mat \<or> char_match nocase x c) p c)"

text \<open>One pattern element other than a star against one character: the rest of the pattern on success.\<close>

definition match_one :: "bool \<Rightarrow> string \<Rightarrow> char \<Rightarrow> string option" where
  "match_one nocase p c =
     (let x = hd p; p = tl p in
      if x = CHR ''?'' then Some p
      else if x = CHR ''['' then
        (let neg = (p \<noteq> [] \<and> hd p = CHR ''^'');
             (mat, rest) = class_loop nocase False (if neg then tl p else p) c
         in if mat \<noteq> neg then Some rest else None)
      else if x = CHR 0x5C \<and> p \<noteq> [] then (if char_match nocase (hd p) c then Some (tl p) else None)
      else (if char_match nocase x c then Some p else None))"

definition is_star :: "char \<Rightarrow> bool" where
  "is_star c \<longleftrightarrow> c = CHR ''*''"

lemma class_loop_shorter: "length (snd (class_loop nocase mat p c)) \<le> length p"
proof (induction nocase mat p c rule: class_loop.induct)
  case (2 nocase mat x p c)
  then show ?case by (auto simp: le_SucI intro: order.trans)
qed simp

lemma match_one_shorter: "match_one nocase (x # p) c = Some rest \<Longrightarrow> length rest < Suc (length p)"
  using class_loop_shorter [of nocase False p c] class_loop_shorter [of nocase False "tl p" c]
  by (auto simp: match_one_def Let_def split: if_splits prod.splits)

text \<open>The matcher: \<open>stringmatchlen_impl\<close> checks the nesting, \<open>match_loop\<close> is its \<open>while\<close> loop, and
  \<open>star_loop\<close> the inner loop that tries the rest of the pattern at every position.  The second
  component of the result is the flag \<open>skipLongerMatches\<close>.\<close>

function (sequential)
  stringmatchlen_impl :: "bool \<Rightarrow> nat \<Rightarrow> bool \<Rightarrow> string \<Rightarrow> string \<Rightarrow> bool \<times> bool"
  and match_loop :: "bool \<Rightarrow> nat \<Rightarrow> bool \<Rightarrow> string \<Rightarrow> string \<Rightarrow> bool \<times> bool"
  and star_loop :: "bool \<Rightarrow> nat \<Rightarrow> bool \<Rightarrow> string \<Rightarrow> string \<Rightarrow> bool \<times> bool" where
  "stringmatchlen_impl nocase nesting skip p s =
     (if nesting > 1000 then (False, skip) else match_loop nocase nesting skip p s)"
| "match_loop nocase nesting skip [] s = (s = [], skip)"
| "match_loop nocase nesting skip (x # p) [] = (False, skip)"
| "match_loop nocase nesting skip (x # p) (c # s) =
     (if is_star x then
        (let p = dropWhile is_star p in
         if p = [] then (True, skip) else star_loop nocase nesting skip p (c # s))
      else
        (case match_one nocase (x # p) c of
           None \<Rightarrow> (False, skip)
         | Some rest \<Rightarrow>
             if s = [] then (dropWhile is_star rest = [], skip)
             else match_loop nocase nesting skip rest s))"
| "star_loop nocase nesting skip p [] = (False, True)"
| "star_loop nocase nesting skip p (c # s) =
     (let (r, skip) = stringmatchlen_impl nocase (nesting + 1) skip p (c # s) in
      if r then (True, skip)
      else if skip then (False, skip)
      else star_loop nocase nesting skip p s)"
  by pat_completeness auto
termination
proof (relation "inv_image (less_than <*lex*> less_than <*lex*> less_than)
    (case_sum (\<lambda>(nc, n, sk, p, s). (length p, length s, 1 :: nat))
      (case_sum (\<lambda>(nc, n, sk, p, s). (length p, length s, 0)) (\<lambda>(nc, n, sk, p, s). (length p, length s, 2))))",
    goal_cases)
  case 3
  then show ?case by (auto simp: less_Suc_eq_le length_dropWhile_le)
qed (auto dest: match_one_shorter)

definition stringmatchlen :: "string \<Rightarrow> string \<Rightarrow> bool \<Rightarrow> bool" where
  "stringmatchlen p s nocase = fst (stringmatchlen_impl nocase 0 False p s)"

text \<open>The number of backslashes before the last character.\<close>

definition backslashCount :: "string \<Rightarrow> nat" where
  "backslashCount p = length (takeWhile (\<lambda>c. c = CHR 0x5C) (tl (rev p)))"

definition prefixmatch :: "string \<Rightarrow> string \<Rightarrow> bool \<Rightarrow> bool" where
  "prefixmatch p s nocase =
     (if \<not> fst (stringmatchlen_impl nocase 0 False p s) then False
      else if p = [] \<or> last p \<noteq> CHR ''*'' then False
      else even (backslashCount p))"

declare stringmatchlen_impl.simps [simp del] match_loop.simps [simp del] star_loop.simps [simp del]

section \<open>Specification\<close>

text \<open>What a pattern means, without the search: a star stands for any string, every other element for one
  character.\<close>

inductive glob :: "bool \<Rightarrow> string \<Rightarrow> string \<Rightarrow> bool" for nocase where
  glob_Nil: "glob nocase [] []"
| glob_star: "is_star x \<Longrightarrow> glob nocase p t \<Longrightarrow> glob nocase (x # p) (s @ t)"
| glob_one: "\<not> is_star x \<Longrightarrow> match_one nocase (x # p) c = Some rest \<Longrightarrow> glob nocase rest s \<Longrightarrow>
    glob nocase (x # p) (c # s)"

inductive_simps glob_Nil_iff [simp]: "glob nocase [] s"
inductive_simps glob_Cons_iff: "glob nocase (x # p) s"

lemma glob_star_iff: "is_star x \<Longrightarrow> glob nocase (x # p) s \<longleftrightarrow> (\<exists>k. glob nocase p (drop k s))"
proof
  assume "is_star x" "glob nocase (x # p) s"
  then obtain u t where "s = u @ t" "glob nocase p t" by (auto simp: glob_Cons_iff)
  then have "glob nocase p (drop (length u) s)" by simp
  then show "\<exists>k. glob nocase p (drop k s)" ..
next
  assume x: "is_star x" and ex: "\<exists>k. glob nocase p (drop k s)"
  from ex obtain k where "glob nocase p (drop k s)" ..
  then have "glob nocase (x # p) (take k s @ drop k s)" by (rule glob_star [OF x])
  then show "glob nocase (x # p) s" by simp
qed

lemma glob_one_iff:
  "\<not> is_star x \<Longrightarrow> glob nocase (x # p) (c # s) \<longleftrightarrow> (\<exists>rest. match_one nocase (x # p) c = Some rest \<and> glob nocase rest s)"
  by (auto simp: glob_Cons_iff)

lemma glob_not_star_Nil: "\<not> is_star x \<Longrightarrow> \<not> glob nocase (x # p) []"
  by (simp add: glob_Cons_iff)

lemma glob_empty: "glob nocase p [] \<longleftrightarrow> dropWhile is_star p = []"
proof (induction p)
  case (Cons x p)
  then show ?case by (cases "is_star x") (auto simp: glob_star_iff glob_not_star_Nil)
qed simp

lemma glob_stars: "is_star x \<Longrightarrow> glob nocase (x # p) s \<longleftrightarrow> glob nocase (x # dropWhile is_star p) s"
proof (induction p arbitrary: s)
  case (Cons y p)
  show ?case
  proof (cases "is_star y")
    case True
    have "glob nocase (x # y # p) s \<longleftrightarrow> (\<exists>k j. glob nocase p (drop (j + k) s))"
      using Cons.prems True by (simp add: glob_star_iff)
    also have "\<dots> \<longleftrightarrow> glob nocase (x # p) s"
      using Cons.prems exI [of "\<lambda>k. \<exists>j. glob nocase p (drop (j + k) s)" 0] by (auto simp: glob_star_iff)
    finally show ?thesis using Cons True by simp
  qed simp
qed simp

section \<open>The search\<close>

text \<open>The pattern that is left after a bracket expression does not depend on the character.\<close>

lemma class_loop_rest: "snd (class_loop nocase mat p c) = snd (class_loop nocase mat' p c')"
  by (induction nocase mat p c arbitrary: mat' rule: class_loop.induct) auto

lemma match_one_rest:
  "match_one nocase p c = Some r \<Longrightarrow> match_one nocase p c' = Some r' \<Longrightarrow> r = r'"
  using class_loop_rest [of nocase False "tl p" c False c'] class_loop_rest [of nocase False "tl (tl p)" c False c']
  by (auto simp: match_one_def Let_def split: if_splits prod.splits)

definition stars :: "string \<Rightarrow> nat" where
  "stars p = length (filter is_star p)"

lemma stars_simps [simp]: "stars [] = 0" "stars (x # p) = (if is_star x then Suc (stars p) else stars p)"
  by (simp_all add: stars_def)

lemma stars_dropWhile: "stars (dropWhile is_star p) \<le> stars p"
  by (induction p) auto

lemma stars_class_loop: "stars (snd (class_loop nocase mat p c)) \<le> stars p"
proof (induction nocase mat p c rule: class_loop.induct)
  case (2 nocase mat x p c)
  have st: "stars (tl p) \<le> stars p" "stars (drop 2 p) \<le> stars (tl p)" "stars p \<le> stars (x # p)"
    by (cases p; simp; cases "tl p"; simp add: numeral_2_eq_2)+
  consider (esc) "x = CHR 0x5C \<and> p \<noteq> []" | (close) "\<not> (x = CHR 0x5C \<and> p \<noteq> [])" "x = CHR '']''"
    | (range) "\<not> (x = CHR 0x5C \<and> p \<noteq> [])" "x \<noteq> CHR '']''" "length p \<ge> 2 \<and> hd p = CHR ''-''"
    | (plain) "\<not> (x = CHR 0x5C \<and> p \<noteq> [])" "x \<noteq> CHR '']''" "\<not> (length p \<ge> 2 \<and> hd p = CHR ''-'')"
    by blast
  then have "stars (snd (class_loop nocase mat (x # p) c)) \<le> stars p"
  proof cases
    case esc
    then show ?thesis using 2(1) st(1) by simp
  next
    case range
    then show ?thesis using 2(2) st(1,2) by simp
  next
    case plain
    then show ?thesis using 2(3) by auto
  qed simp
  then show ?case using st(3) by simp
qed simp

lemma stars_match_one: "match_one nocase (x # p) c = Some r \<Longrightarrow> stars r \<le> stars p"
proof -
  have "stars (tl p) \<le> stars p" by (cases p) auto
  then show "match_one nocase (x # p) c = Some r \<Longrightarrow> ?thesis"
    using stars_class_loop [of nocase False p c] stars_class_loop [of nocase False "tl p" c]
    by (auto simp: match_one_def Let_def split: if_splits prod.splits)
qed

text \<open>The contract of the three loops.  Started with the flag unset, the result is that of the
  specification, and a flag that comes back set means that the pattern matches at no later position
  either.\<close>

definition search_ok :: "bool \<Rightarrow> string \<Rightarrow> string \<Rightarrow> bool \<times> bool \<Rightarrow> bool" where
  "search_ok nocase p s res \<longleftrightarrow>
     (fst res \<longleftrightarrow> glob nocase p s) \<and> (snd res \<and> \<not> fst res \<longrightarrow> (\<forall>k. \<not> glob nocase p (drop k s)))"

text \<open>For the star loop: the pattern after the star is not empty and does not begin with a star.\<close>

definition star_ok :: "bool \<Rightarrow> string \<Rightarrow> string \<Rightarrow> bool \<times> bool \<Rightarrow> bool" where
  "star_ok nocase p s res \<longleftrightarrow> (fst res \<longleftrightarrow> (\<exists>k. glob nocase p (drop k s)))"

lemma search_ok_one:
  assumes "\<not> is_star x" "match_one nocase (x # p) c = Some rest" "search_ok nocase rest s res"
  shows "search_ok nocase (x # p) (c # s) res"
proof -
  have "\<not> glob nocase (x # p) (drop k (c # s))" if none: "\<forall>k. \<not> glob nocase rest (drop k s)" for k
  proof (cases "drop k (c # s)")
    case Nil
    then show ?thesis using assms(1) by (simp add: glob_not_star_Nil)
  next
    case (Cons d t)
    then have "t = tl (drop k (c # s))" by simp
    then have "t = drop k s" by (simp add: tl_drop)
    then have "\<not> glob nocase rest t" using none by blast
    then show ?thesis
      unfolding Cons glob_one_iff [OF assms(1)] using match_one_rest [OF assms(2)] by blast
  qed
  moreover have "glob nocase (x # p) (c # s) \<longleftrightarrow> glob nocase rest s"
    unfolding glob_one_iff [OF assms(1)] by (simp add: assms(2))
  ultimately show ?thesis using assms(3) unfolding search_ok_def by blast
qed

lemma search_ok_star:
  assumes "is_star x" "star_ok nocase (dropWhile is_star p) s res"
  shows "search_ok nocase (x # p) s res"
proof -
  have eq: "glob nocase (x # p) t \<longleftrightarrow> (\<exists>k. glob nocase (dropWhile is_star p) (drop k t))" for t
    using glob_stars [OF assms(1)] glob_star_iff [OF assms(1)] by blast
  then show ?thesis using assms(2) unfolding search_ok_def star_ok_def eq by (auto simp: drop_drop)
qed

lemma star_ok_Cons:
  assumes "search_ok nocase p (c # s) (r, skip)" "\<not> r \<Longrightarrow> \<not> skip \<Longrightarrow> star_ok nocase p s res"
  shows "star_ok nocase p (c # s) (if r then (True, skip) else if skip then (False, skip) else res)"
proof -
  have "(\<exists>k. glob nocase p (drop k (c # s))) \<longleftrightarrow> glob nocase p (c # s) \<or> (\<exists>k. glob nocase p (drop k s))"
    by (metis drop0 drop_Suc_Cons not0_implies_Suc)
  then show ?thesis using assms by (auto simp: search_ok_def star_ok_def)
qed

lemma impl_correct:
  "\<not> skip \<Longrightarrow> nesting + stars p \<le> 1000 \<Longrightarrow> s \<noteq> [] \<Longrightarrow>
     search_ok nocase p s (stringmatchlen_impl nocase nesting skip p s)"
  "\<not> skip \<Longrightarrow> nesting + stars p \<le> 1000 \<Longrightarrow> s \<noteq> [] \<Longrightarrow>
     search_ok nocase p s (match_loop nocase nesting skip p s)"
  "\<not> skip \<Longrightarrow> nesting + stars p < 1000 \<Longrightarrow> p \<noteq> [] \<Longrightarrow> \<not> is_star (hd p) \<Longrightarrow>
     star_ok nocase p s (star_loop nocase nesting skip p s)"
proof (induction nocase nesting skip p s and nocase nesting skip p s and nocase nesting skip p s
    rule: stringmatchlen_impl_match_loop_star_loop.induct)
  case (1 nocase nesting skip p s)
  then show ?case by (simp add: stringmatchlen_impl.simps)
next
  case (2 nocase nesting skip s)
  then show ?case by (simp add: match_loop.simps search_ok_def)
next
  case (3 nocase nesting skip x p)
  then show ?case by simp
next
  case (4 nocase nesting skip x p c s)
  show ?case
  proof (cases "is_star x")
    case True
    have "star_ok nocase (dropWhile is_star p) (c # s) (match_loop nocase nesting skip (x # p) (c # s))"
    proof (cases "dropWhile is_star p = []")
      case Nil: True
      have "glob nocase [] (drop (length (c # s)) (c # s))" by simp
      then have "\<exists>k. glob nocase [] (drop k (c # s))" ..
      moreover have "match_loop nocase nesting skip (x # p) (c # s) = (True, skip)"
        using True Nil by (simp add: match_loop.simps)
      ultimately show ?thesis unfolding Nil by (simp add: star_ok_def)
    next
      case False
      then show ?thesis
        using 4 True stars_dropWhile [of p] hd_dropWhile [of is_star p]
        by (simp add: match_loop.simps del: dropWhile_eq_Nil_conv)
    qed
    then show ?thesis by (rule search_ok_star [OF True])
  next
    case False
    show ?thesis
    proof (cases "match_one nocase (x # p) c")
      case None
      then show ?thesis using False 4 by (simp add: match_loop.simps search_ok_def glob_one_iff)
    next
      case (Some rest)
      then have "search_ok nocase rest s (match_loop nocase nesting skip (x # p) (c # s))"
        using 4 False stars_match_one [OF Some]
        by (cases "s = []") (simp_all add: match_loop.simps search_ok_def glob_empty)
      then show ?thesis by (rule search_ok_one [OF False Some])
    qed
  qed
next
  case (5 nocase nesting skip p)
  then show ?case by (cases p) (simp_all add: star_loop.simps star_ok_def glob_not_star_Nil)
next
  case (6 nocase nesting skip p c s)
  obtain r skip' where rs: "stringmatchlen_impl nocase (nesting + 1) skip p (c # s) = (r, skip')" by fastforce
  have "search_ok nocase p (c # s) (r, skip')"
    using 6(1) [OF 6(3)] 6(4) rs by simp
  moreover have "star_ok nocase p s (star_loop nocase nesting skip' p s)" if "\<not> r" "\<not> skip'"
    using 6(2) [of "(r, skip')" r skip'] 6(4-6) rs that by simp
  ultimately show ?case using star_ok_Cons [of nocase p c s r skip'] rs by (simp add: star_loop.simps)
qed

section \<open>Prefixes\<close>

text \<open>A pattern that ends with an unescaped star, as \<open>prefixmatch\<close> tests it.\<close>

definition star_tail :: "string \<Rightarrow> bool" where
  "star_tail p \<longleftrightarrow> p \<noteq> [] \<and> last p = CHR ''*'' \<and> even (backslashCount p)"

lemma even_takeWhile_pair:
  "P b \<Longrightarrow> even (length (takeWhile P (xs @ [c, b]))) \<longleftrightarrow> even (length (takeWhile P xs))"
  by (induction xs) auto

lemma star_tail_Cons: "x \<noteq> CHR 0x5C \<Longrightarrow> p \<noteq> [] \<Longrightarrow> star_tail (x # p) \<Longrightarrow> star_tail p"
  by (cases p rule: rev_cases) (auto simp: star_tail_def backslashCount_def takeWhile_tail)

lemma star_tail_escape: "star_tail (CHR 0x5C # c # p) \<Longrightarrow> star_tail p"
  by (cases p rule: rev_cases)
    (auto simp: star_tail_def backslashCount_def even_takeWhile_pair split: if_splits)

lemma match_one_no_class:
  assumes "CHR ''['' \<notin> set (x # p)" "match_one nocase (x # p) c = Some rest"
  shows "rest = (if x = CHR 0x5C \<and> p \<noteq> [] then tl p else p)"
  using assms by (auto simp: match_one_def Let_def split: if_splits)

lemma glob_extend:
  "glob nocase p s \<Longrightarrow> star_tail p \<Longrightarrow> CHR ''['' \<notin> set p \<Longrightarrow> glob nocase p (s @ t)"
proof (induction rule: glob.induct)
  case glob_Nil
  then show ?case by (simp add: star_tail_def)
next
  case (glob_star x p u s)
  show ?case
  proof (cases "p = []")
    case True
    then show ?thesis using glob.glob_star [OF glob_star(1) glob.glob_Nil, of nocase "s @ u @ t"] glob_star by simp
  next
    case False
    have "star_tail p" using star_tail_Cons [OF _ False] glob_star.hyps(1) glob_star.prems(1) by (auto simp: is_star_def)
    then show ?thesis using glob.glob_star [OF glob_star.hyps(1) glob_star.IH] glob_star.prems(2) by simp
  qed
next
  case (glob_one x p c rest s)
  note rest = match_one_no_class [OF glob_one.prems(2) glob_one.hyps(2)]
  have "p \<noteq> []" using glob_one.hyps(1) glob_one.prems(1) by (auto simp: star_tail_def is_star_def)
  then have "star_tail rest"
    using rest glob_one.prems(1) star_tail_Cons [of x p] star_tail_escape [of "hd p" "tl p"] by (auto split: if_splits)
  moreover have "CHR ''['' \<notin> set rest"
    using rest glob_one.prems(2) by (auto split: if_splits dest: list.set_sel(2))
  ultimately show ?case using glob.glob_one [OF glob_one.hyps(1,2) glob_one.IH] by simp
qed

section \<open>Properties\<close>



text \<open>The main loop is not entered for an empty string: a pattern of stars, which describes every
  string, does not match it.\<close>

theorem stringmatchlen_star_empty:
  assumes "p \<noteq> []" "set p \<subseteq> {CHR ''*''}"
  shows "glob nocase p [] \<and> \<not> stringmatchlen p [] nocase"
proof -
  have "dropWhile is_star p = []" using assms(2) by (auto simp: is_star_def)
  moreover have "\<not> stringmatchlen p [] nocase"
    using assms(1) by (cases p) (simp_all add: stringmatchlen_def stringmatchlen_impl.simps match_loop.simps)
  ultimately show ?thesis by (simp add: glob_empty)
qed

theorem stringmatchlen_star_empty_witness: "glob False ''**'' [] \<and> \<not> stringmatchlen ''**'' [] False"
  using stringmatchlen_star_empty [of "''**''" False] by simp

text \<open>C37. When \<open>prefixmatch\<close> accepts a non-empty prefix for a pattern without bracket expressions, the pattern
  describes every string that begins with the prefix (the access lists grant whole key ranges on it).\<close>

theorem prefixmatch_sound:
  assumes "prefixmatch p s nocase" "s \<noteq> []" "CHR ''['' \<notin> set p" "stars p \<le> 1000"
  shows "glob nocase p (s @ t)"
proof -
  have "search_ok nocase p s (stringmatchlen_impl nocase 0 False p s)"
    using impl_correct(1) [of False 0 p s nocase] assms(2,4) by simp
  then show ?thesis
    using assms(1,3) glob_extend [of nocase p s t]
    by (auto simp: prefixmatch_def search_ok_def star_tail_def split: if_splits)
qed

lemmas search_simps = stringmatchlen_impl.simps match_loop.simps star_loop.simps match_one_def Let_def
  char_match_def is_star_def backslashCount_def

theorem prefixmatch_sound_witness: "glob False ''user:*'' (''user:1'' @ ''234'')"
proof -
  have "prefixmatch ''user:*'' ''user:1'' False" by (simp add: prefixmatch_def search_simps)
  then show ?thesis by (rule prefixmatch_sound) (simp_all add: is_star_def)
qed

text \<open>With a bracket expression that is not closed the last star is a member of the bracket, and
  \<open>prefixmatch\<close> accepts a prefix whose extensions the pattern does not describe.\<close>

theorem prefixmatch_open_bracket: "prefixmatch ''[*'' ''*'' False \<and> \<not> stringmatchlen ''[*'' ''*x'' False"
  by (simp add: prefixmatch_def stringmatchlen_def search_simps)

end
