(* ===== verification/Dict.thy ===== *)
theory Dict
  imports Redis_Prelude "HOL-Library.Multiset"
begin

unbundle bit_operations_syntax

text \<open>
  The hash table of \<open>dict.c\<close>: two bucket arrays, incremental rehashing from the first to the second,
  automatic growth and shrinking.  A collision chain is the list of its entries, the first one first;
  the tagged pointers of tables without values differ only in how a chain is stored and give the same
  lists.  The arrays \<open>ht_table\<close>, \<open>ht_used\<close> and \<open>ht_size_exp\<close> with their two places are the two \<open>ht\<close>
  records; a \<open>NULL\<close> array is the empty list.  An access outside an array, a failed \<open>assert\<close> and a counter
  that would go below zero make the result \<open>None\<close>.  The callbacks of \<open>dictType\<close> and the global
  \<open>dict_can_resize\<close> are parameters.
\<close>

section \<open>Model\<close>

datatype dictResizeEnable = DICT_RESIZE_ENABLE | DICT_RESIZE_AVOID | DICT_RESIZE_FORBID

record 'k dictType =
  hashFunction :: "'k \<Rightarrow> u64"
  keyCompare :: "'k \<Rightarrow> 'k \<Rightarrow> bool"
  resizeAllowed :: "nat \<Rightarrow> nat \<Rightarrow> nat \<Rightarrow> bool"
  force_full_rehash :: bool

record ('k, 'v) ht =
  ht_table :: "('k \<times> 'v) list list"
  ht_used :: nat
  ht_size_exp :: int

record ('k, 'v) dict =
  ht0 :: "('k, 'v) ht"
  ht1 :: "('k, 'v) ht"
  rehashidx :: int
  pauserehash :: nat
  pauseAutoResize :: int

definition DICT_HT_INITIAL_EXP :: int where "DICT_HT_INITIAL_EXP = 2"
definition DICT_HT_INITIAL_SIZE :: nat where "DICT_HT_INITIAL_SIZE = 4"
definition HASHTABLE_MIN_FILL :: nat where "HASHTABLE_MIN_FILL = 8"
definition dict_force_resize_ratio :: nat where "dict_force_resize_ratio = 4"

definition DICTHT_SIZE :: "int \<Rightarrow> nat" where
  "DICTHT_SIZE exp = (if exp = - 1 then 0 else 2 ^ nat exp)"

definition DICTHT_SIZE_MASK :: "int \<Rightarrow> u64" where
  "DICTHT_SIZE_MASK exp = (if exp = - 1 then 0 else of_nat (DICTHT_SIZE exp) - 1)"

definition dictIsRehashing :: "('k, 'v) dict \<Rightarrow> bool" where
  "dictIsRehashing d \<longleftrightarrow> rehashidx d \<noteq> - 1"

definition dictSize :: "('k, 'v) dict \<Rightarrow> nat" where
  "dictSize d = ht_used (ht0 d) + ht_used (ht1 d)"

definition dictBuckets :: "('k, 'v) dict \<Rightarrow> nat" where
  "dictBuckets d = DICTHT_SIZE (ht_size_exp (ht0 d)) + DICTHT_SIZE (ht_size_exp (ht1 d))"

definition dictReset :: "('k, 'v) ht" where
  "dictReset = \<lparr>ht_table = [], ht_used = 0, ht_size_exp = - 1\<rparr>"

definition dictCreate :: "('k, 'v) dict" where
  "dictCreate = \<lparr>ht0 = dictReset, ht1 = dictReset, rehashidx = - 1, pauserehash = 0, pauseAutoResize = 0\<rparr>"

text \<open>One bucket of an array, and its replacement.\<close>

definition bucket :: "('k, 'v) ht \<Rightarrow> nat \<Rightarrow> ('k \<times> 'v) list option" where
  "bucket t i = (if i < length (ht_table t) then Some (ht_table t ! i) else None)"

definition set_bucket :: "('k, 'v) ht \<Rightarrow> nat \<Rightarrow> ('k \<times> 'v) list \<Rightarrow> ('k, 'v) ht" where
  "set_bucket t i c = t\<lparr>ht_table := (ht_table t)[i := c]\<rparr>"

definition used_dec :: "('k, 'v) ht \<Rightarrow> ('k, 'v) ht option" where
  "used_dec t = (if ht_used t = 0 then None else Some (t\<lparr>ht_used := ht_used t - 1\<rparr>))"

definition used_inc :: "('k, 'v) ht \<Rightarrow> ('k, 'v) ht" where
  "used_inc t = t\<lparr>ht_used := ht_used t + 1\<rparr>"

definition hash_index :: "'k dictType \<Rightarrow> ('k, 'v) ht \<Rightarrow> 'k \<Rightarrow> nat" where
  "hash_index ty t key = unat (hashFunction ty key AND DICTHT_SIZE_MASK (ht_size_exp t))"

text \<open>\<open>__builtin_clzl\<close> on a 64-bit value that is not zero.\<close>

fun bit_length :: "nat \<Rightarrow> nat" where
  "bit_length n = (if n = 0 then 0 else Suc (bit_length (n div 2)))"

declare bit_length.simps [simp del]

definition clzl :: "nat \<Rightarrow> nat" where
  "clzl n = 64 - bit_length n"

definition dictNextExp :: "nat \<Rightarrow> int" where
  "dictNextExp sz =
     (if sz \<le> DICT_HT_INITIAL_SIZE then DICT_HT_INITIAL_EXP
      else if sz \<ge> 2 ^ 63 - 1 then 63
      else 64 - int (clzl (sz - 1)))"

text \<open>Moving one chain: every entry goes to the front of its new chain.\<close>

fun rehash_chain :: "'k dictType \<Rightarrow> nat \<Rightarrow> ('k, 'v) dict \<Rightarrow> ('k \<times> 'v) list \<Rightarrow> ('k, 'v) dict option" where
  "rehash_chain ty idx d [] = Some d"
| "rehash_chain ty idx d (e # es) = do {
     let h = (if ht_size_exp (ht1 d) > ht_size_exp (ht0 d) then hash_index ty (ht1 d) (fst e)
              else unat (of_nat idx AND DICTHT_SIZE_MASK (ht_size_exp (ht1 d))));
     c \<leftarrow> bucket (ht1 d) h;
     t0 \<leftarrow> used_dec (ht0 d);
     rehash_chain ty idx (d\<lparr>ht0 := t0, ht1 := used_inc (set_bucket (ht1 d) h (e # c))\<rparr>) es
   }"

definition rehashEntriesInBucketAtIndex :: "'k dictType \<Rightarrow> ('k, 'v) dict \<Rightarrow> nat \<Rightarrow> ('k, 'v) dict option" where
  "rehashEntriesInBucketAtIndex ty d idx = do {
     c \<leftarrow> bucket (ht0 d) idx;
     d \<leftarrow> rehash_chain ty idx d c;
     Some (d\<lparr>ht0 := set_bucket (ht0 d) idx []\<rparr>)
   }"

definition dictCheckRehashingCompleted :: "('k, 'v) dict \<Rightarrow> ('k, 'v) dict \<times> bool" where
  "dictCheckRehashingCompleted d =
     (if ht_used (ht0 d) \<noteq> 0 then (d, False)
      else (d\<lparr>ht0 := ht1 d, ht1 := dictReset, rehashidx := - 1\<rparr>, True))"

text \<open>Resizing forbidden, or to be avoided and the sizes not far enough apart.\<close>

definition rehash_refused :: "dictResizeEnable \<Rightarrow> ('k, 'v) dict \<Rightarrow> bool" where
  "rehash_refused can d =
     (let s0 = DICTHT_SIZE (ht_size_exp (ht0 d)); s1 = DICTHT_SIZE (ht_size_exp (ht1 d)) in
      can = DICT_RESIZE_FORBID \<or> \<not> dictIsRehashing d \<or>
      can = DICT_RESIZE_AVOID \<and>
        ((s1 > s0 \<and> s1 < dict_force_resize_ratio * s0) \<or>
         (s1 < s0 \<and> s0 < HASHTABLE_MIN_FILL * dict_force_resize_ratio * s1)))"

text \<open>Skipping empty buckets from index \<open>i\<close>; the third component tells that the budget of empty visits is
  used up.\<close>

fun skip_empty :: "('k, 'v) ht \<Rightarrow> nat \<Rightarrow> nat \<Rightarrow> (nat \<times> nat \<times> bool) option" where
  "skip_empty t i empty_visits = do {
     c \<leftarrow> bucket t i;
     if c \<noteq> [] then Some (i, empty_visits, False)
     else case empty_visits of
            0 \<Rightarrow> None
          | Suc ev \<Rightarrow> if ev = 0 then Some (i + 1, 0, True) else skip_empty t (i + 1) ev
   }"

declare skip_empty.simps [simp del]

text \<open>The loop of \<open>dictRehash\<close>; the flag tells that it returned 1 from inside.\<close>

fun dictRehash_loop :: "'k dictType \<Rightarrow> ('k, 'v) dict \<Rightarrow> nat \<Rightarrow> nat \<Rightarrow> (('k, 'v) dict \<times> bool) option" where
  "dictRehash_loop ty d 0 empty_visits = Some (d, False)"
| "dictRehash_loop ty d (Suc n) empty_visits =
     (if ht_used (ht0 d) = 0 then Some (d, False)
      else if \<not> int (DICTHT_SIZE (ht_size_exp (ht0 d))) > rehashidx d then None
      else do {
        (i, ev, stop) \<leftarrow> skip_empty (ht0 d) (nat (rehashidx d)) empty_visits;
        if stop then Some (d\<lparr>rehashidx := int i\<rparr>, True)
        else do {
          d \<leftarrow> rehashEntriesInBucketAtIndex ty d i;
          dictRehash_loop ty (d\<lparr>rehashidx := int i + 1\<rparr>) n ev
        }
      })"

definition dictRehash :: "'k dictType \<Rightarrow> dictResizeEnable \<Rightarrow> ('k, 'v) dict \<Rightarrow> nat \<Rightarrow> (('k, 'v) dict \<times> bool) option" where
  "dictRehash ty can d n =
     (if rehash_refused can d then Some (d, False)
      else do {
        (d, stop) \<leftarrow> dictRehash_loop ty d n (n * 10);
        if stop then Some (d, True)
        else let (d, completed) = dictCheckRehashingCompleted d in Some (d, \<not> completed)
      })"

definition dictRehashStep :: "'k dictType \<Rightarrow> dictResizeEnable \<Rightarrow> ('k, 'v) dict \<Rightarrow> ('k, 'v) dict option" where
  "dictRehashStep ty can d = (if pauserehash d = 0 then map_option fst (dictRehash ty can d 1) else Some d)"

definition dictBucketRehash :: "'k dictType \<Rightarrow> dictResizeEnable \<Rightarrow> ('k, 'v) dict \<Rightarrow> nat \<Rightarrow> (('k, 'v) dict \<times> bool) option" where
  "dictBucketRehash ty can d idx =
     (if pauserehash d \<noteq> 0 then Some (d, False)
      else if rehash_refused can d then Some (d, False)
      else do {
        d \<leftarrow> rehashEntriesInBucketAtIndex ty d idx;
        Some (fst (dictCheckRehashingCompleted d), True)
      })"

definition dictRehashStepIfNeeded :: "'k dictType \<Rightarrow> dictResizeEnable \<Rightarrow> ('k, 'v) dict \<Rightarrow> nat \<Rightarrow> ('k, 'v) dict option" where
  "dictRehashStepIfNeeded ty can d visitedIdx =
     (if \<not> dictIsRehashing d \<or> pauserehash d \<noteq> 0 then Some d
      else do {
        hit \<leftarrow> (if int visitedIdx \<ge> rehashidx d
               then do { c \<leftarrow> bucket (ht0 d) visitedIdx; Some (c \<noteq> []) }
               else Some False);
        if hit then map_option fst (dictBucketRehash ty can d visitedIdx)
        else map_option fst (dictRehash ty can d 1)
      })"

text \<open>The full rehash that \<open>force_full_rehash\<close> asks for: repeated steps, with fuel.\<close>

fun dictRehash_full :: "nat \<Rightarrow> 'k dictType \<Rightarrow> dictResizeEnable \<Rightarrow> ('k, 'v) dict \<Rightarrow> ('k, 'v) dict option" where
  "dictRehash_full 0 ty can d = None"
| "dictRehash_full (Suc fuel) ty can d = do {
     (d, more) \<leftarrow> dictRehash ty can d 1000;
     if more then dictRehash_full fuel ty can d else Some d
   }"

text \<open>\<open>_dictResize\<close>.  The allocator is a parameter; the result is the dictionary, \<open>DICT_OK\<close> as \<open>True\<close>, and
  \<open>malloc_failed\<close>.\<close>

definition dictResize ::
  "'k dictType \<Rightarrow> dictResizeEnable \<Rightarrow> (nat \<Rightarrow> bool) \<Rightarrow> ('k, 'v) dict \<Rightarrow> nat \<Rightarrow> (('k, 'v) dict \<times> bool \<times> bool) option" where
  "dictResize ty can alloc d sz =
     (if dictIsRehashing d then None
      else let new_exp = dictNextExp sz; newsize = DICTHT_SIZE new_exp in
        if newsize < sz \<or> newsize * 8 mod 2 ^ 64 < newsize then Some (d, False, False)
        else if new_exp = ht_size_exp (ht0 d) then Some (d, False, False)
        else if \<not> alloc (newsize * 8) then Some (d, False, True)
        else
          let new = \<lparr>ht_table = replicate newsize [], ht_used = 0, ht_size_exp = new_exp\<rparr> in
          if ht_table (ht0 d) = [] \<or> ht_used (ht0 d) = 0
          then Some (d\<lparr>ht0 := new, ht1 := dictReset, rehashidx := - 1\<rparr>, True, False)
          else
            let d = d\<lparr>ht1 := new, rehashidx := 0\<rparr> in
            if force_full_rehash ty
            then do {
              d \<leftarrow> dictRehash_full (DICTHT_SIZE (ht_size_exp (ht0 d)) + 1) ty can d;
              Some (d, True, False)
            }
            else Some (d, True, False))"

definition dictExpand_gen ::
  "'k dictType \<Rightarrow> dictResizeEnable \<Rightarrow> (nat \<Rightarrow> bool) \<Rightarrow> ('k, 'v) dict \<Rightarrow> nat \<Rightarrow> (('k, 'v) dict \<times> bool \<times> bool) option" where
  "dictExpand_gen ty can alloc d sz =
     (if dictIsRehashing d \<or> ht_used (ht0 d) > sz \<or> DICTHT_SIZE (ht_size_exp (ht0 d)) \<ge> sz
      then Some (d, False, False)
      else dictResize ty can alloc d sz)"

definition dictExpand :: "'k dictType \<Rightarrow> dictResizeEnable \<Rightarrow> ('k, 'v) dict \<Rightarrow> nat \<Rightarrow> (('k, 'v) dict \<times> bool) option" where
  "dictExpand ty can d sz = map_option (\<lambda>(d, ok, _). (d, ok)) (dictExpand_gen ty can (\<lambda>_. True) d sz)"

definition dictTryExpand ::
  "'k dictType \<Rightarrow> dictResizeEnable \<Rightarrow> (nat \<Rightarrow> bool) \<Rightarrow> ('k, 'v) dict \<Rightarrow> nat \<Rightarrow> (('k, 'v) dict \<times> bool) option" where
  "dictTryExpand ty can alloc d sz = map_option (\<lambda>(d, _, failed). (d, \<not> failed)) (dictExpand_gen ty can alloc d sz)"

definition dictShrink :: "'k dictType \<Rightarrow> dictResizeEnable \<Rightarrow> ('k, 'v) dict \<Rightarrow> nat \<Rightarrow> (('k, 'v) dict \<times> bool) option" where
  "dictShrink ty can d sz =
     (if dictIsRehashing d \<or> ht_used (ht0 d) > sz \<or> DICTHT_SIZE (ht_size_exp (ht0 d)) \<le> sz
      then Some (d, False)
      else map_option (\<lambda>(d, ok, _). (d, ok)) (dictResize ty can (\<lambda>_. True) d sz))"

definition dictTypeResizeAllowed :: "'k dictType \<Rightarrow> ('k, 'v) dict \<Rightarrow> nat \<Rightarrow> bool" where
  "dictTypeResizeAllowed ty d sz =
     resizeAllowed ty (DICTHT_SIZE (dictNextExp sz) * 8) (ht_used (ht0 d)) (DICTHT_SIZE (ht_size_exp (ht0 d)))"

definition dictExpandIfNeeded :: "'k dictType \<Rightarrow> dictResizeEnable \<Rightarrow> ('k, 'v) dict \<Rightarrow> (('k, 'v) dict \<times> bool) option" where
  "dictExpandIfNeeded ty can d =
     (let sz = DICTHT_SIZE (ht_size_exp (ht0 d)); used = ht_used (ht0 d) in
      if dictIsRehashing d then Some (d, True)
      else if sz = 0 then map_option (\<lambda>(d, _). (d, True)) (dictExpand ty can d DICT_HT_INITIAL_SIZE)
      else if (can = DICT_RESIZE_ENABLE \<and> used \<ge> sz) \<or>
              (can \<noteq> DICT_RESIZE_FORBID \<and> used \<ge> dict_force_resize_ratio * sz)
      then if dictTypeResizeAllowed ty d (used + 1)
           then map_option (\<lambda>(d, _). (d, True)) (dictExpand ty can d (used + 1))
           else Some (d, True)
      else Some (d, False))"

definition dictExpandIfAutoResize :: "'k dictType \<Rightarrow> dictResizeEnable \<Rightarrow> ('k, 'v) dict \<Rightarrow> (('k, 'v) dict \<times> bool) option" where
  "dictExpandIfAutoResize ty can d =
     (if pauseAutoResize d > 0 then Some (d, False) else dictExpandIfNeeded ty can d)"

definition dictShrinkIfNeeded :: "'k dictType \<Rightarrow> dictResizeEnable \<Rightarrow> ('k, 'v) dict \<Rightarrow> (('k, 'v) dict \<times> bool) option" where
  "dictShrinkIfNeeded ty can d =
     (let sz = DICTHT_SIZE (ht_size_exp (ht0 d)); used = ht_used (ht0 d) in
      if dictIsRehashing d then Some (d, True)
      else if sz \<le> DICT_HT_INITIAL_SIZE then Some (d, True)
      else if (can = DICT_RESIZE_ENABLE \<and> used * HASHTABLE_MIN_FILL \<le> sz) \<or>
              (can \<noteq> DICT_RESIZE_FORBID \<and> used * HASHTABLE_MIN_FILL * dict_force_resize_ratio \<le> sz)
      then if dictTypeResizeAllowed ty d used
           then map_option (\<lambda>(d, _). (d, True)) (dictShrink ty can d used)
           else Some (d, True)
      else Some (d, False))"

definition dictShrinkIfAutoResize :: "'k dictType \<Rightarrow> dictResizeEnable \<Rightarrow> ('k, 'v) dict \<Rightarrow> ('k, 'v) dict option" where
  "dictShrinkIfAutoResize ty can d =
     (if pauseAutoResize d > 0 then Some d else map_option fst (dictShrinkIfNeeded ty can d))"

text \<open>A \<open>dictEntryLink\<close> is a place in a chain: table, bucket, position.  A link to a bucket has position 0.\<close>

type_synonym link = "nat \<times> nat \<times> nat"

definition get_ht :: "('k, 'v) dict \<Rightarrow> nat \<Rightarrow> ('k, 'v) ht" where
  "get_ht d table = (if table = 0 then ht0 d else ht1 d)"

definition set_ht :: "('k, 'v) dict \<Rightarrow> nat \<Rightarrow> ('k, 'v) ht \<Rightarrow> ('k, 'v) dict" where
  "set_ht d table t = (if table = 0 then d\<lparr>ht0 := t\<rparr> else d\<lparr>ht1 := t\<rparr>)"

fun chain_pos :: "('k \<Rightarrow> 'k \<Rightarrow> bool) \<Rightarrow> 'k \<Rightarrow> ('k \<times> 'v) list \<Rightarrow> nat option" where
  "chain_pos cmp key [] = None"
| "chain_pos cmp key (e # es) = (if cmp key (fst e) then Some 0 else map_option Suc (chain_pos cmp key es))"

definition search_table :: "'k dictType \<Rightarrow> ('k, 'v) dict \<Rightarrow> nat \<Rightarrow> 'k \<Rightarrow> (nat \<times> nat option) option" where
  "search_table ty d table key = do {
     let idx = hash_index ty (get_ht d table) key;
     c \<leftarrow> bucket (get_ht d table) idx;
     Some (idx, chain_pos (keyCompare ty) key c)
   }"

text \<open>The loop over the tables that the lookups share.  \<open>idx\<close> is the index in the first table computed before
  the rehashing step; the result is the link of the key if it was found, and the last bucket searched.\<close>

definition search_tables :: "'k dictType \<Rightarrow> ('k, 'v) dict \<Rightarrow> nat \<Rightarrow> 'k \<Rightarrow> (link option \<times> link) option" where
  "search_tables ty d idx key = do {
     (i0, p0) \<leftarrow> (if int idx < rehashidx d then Some (idx, None) else search_table ty d 0 key);
     case p0 of
       Some p \<Rightarrow> Some (Some (0, i0, p), (0, i0, 0))
     | None \<Rightarrow>
         if dictIsRehashing d
         then do {
           (i1, p1) \<leftarrow> search_table ty d 1 key;
           Some (map_option (\<lambda>p. (1, i1, p)) p1, (1, i1, 0))
         }
         else Some (None, (0, i0, 0))
   }"

definition dictFindLinkInternal ::
  "'k dictType \<Rightarrow> dictResizeEnable \<Rightarrow> ('k, 'v) dict \<Rightarrow> 'k \<Rightarrow> bool \<Rightarrow> (('k, 'v) dict \<times> link option \<times> link option) option" where
  "dictFindLinkInternal ty can d key want_bucket =
     (if \<not> want_bucket \<and> dictSize d = 0 then Some (d, None, None)
      else do {
        let idx = hash_index ty (ht0 d) key;
        d \<leftarrow> dictRehashStepIfNeeded ty can d idx;
        (l, b) \<leftarrow> search_tables ty d idx key;
        Some (d, l, Some b)
      })"

definition dictFindLink ::
  "'k dictType \<Rightarrow> dictResizeEnable \<Rightarrow> ('k, 'v) dict \<Rightarrow> 'k \<Rightarrow> bool \<Rightarrow> (('k, 'v) dict \<times> link option \<times> link option) option" where
  "dictFindLink ty can d key want_bucket =
     (if dictSize d = 0 then Some (d, None, None) else dictFindLinkInternal ty can d key want_bucket)"

definition deref :: "('k, 'v) dict \<Rightarrow> link \<Rightarrow> ('k \<times> 'v) option" where
  "deref d l = (case l of (table, i, p) \<Rightarrow> do {
     c \<leftarrow> bucket (get_ht d table) i;
     if p < length c then Some (c ! p) else None
   })"

definition dictFind :: "'k dictType \<Rightarrow> dictResizeEnable \<Rightarrow> ('k, 'v) dict \<Rightarrow> 'k \<Rightarrow> (('k, 'v) dict \<times> ('k \<times> 'v) option) option" where
  "dictFind ty can d key = do {
     (d, l, _) \<leftarrow> dictFindLink ty can d key False;
     case l of None \<Rightarrow> Some (d, None) | Some l \<Rightarrow> do { e \<leftarrow> deref d l; Some (d, Some e) }
   }"

definition dictFetchValue :: "'k dictType \<Rightarrow> dictResizeEnable \<Rightarrow> ('k, 'v) dict \<Rightarrow> 'k \<Rightarrow> (('k, 'v) dict \<times> 'v option) option" where
  "dictFetchValue ty can d key = do { (d, e) \<leftarrow> dictFind ty can d key; Some (d, map_option snd e) }"

text \<open>\<open>dictFindLinkForInsert\<close>: the bucket for a new key, or the link of the existing entry.\<close>

definition dictFindLinkForInsert ::
  "'k dictType \<Rightarrow> dictResizeEnable \<Rightarrow> ('k, 'v) dict \<Rightarrow> 'k \<Rightarrow> (('k, 'v) dict \<times> link option \<times> link option) option" where
  "dictFindLinkForInsert ty can d key = do {
     let idx = hash_index ty (ht0 d) key;
     d \<leftarrow> dictRehashStepIfNeeded ty can d idx;
     (d, _) \<leftarrow> dictExpandIfAutoResize ty can d;
     (l, b) \<leftarrow> search_tables ty d idx key;
     case l of Some l \<Rightarrow> Some (d, None, Some l) | None \<Rightarrow> Some (d, Some b, None)
   }"

definition dictInsertKeyAtLink :: "('k, 'v) dict \<Rightarrow> 'k \<Rightarrow> 'v \<Rightarrow> link \<Rightarrow> ('k, 'v) dict option" where
  "dictInsertKeyAtLink d key val l =
     (case l of (table, i, p) \<Rightarrow>
        if table \<noteq> (if dictIsRehashing d then 1 else 0) then None
        else do {
          c \<leftarrow> bucket (get_ht d table) i;
          Some (set_ht d table (used_inc (set_bucket (get_ht d table) i ((key, val) # c))))
        })"

definition set_entry :: "('k, 'v) dict \<Rightarrow> link \<Rightarrow> ('k \<times> 'v) \<Rightarrow> ('k, 'v) dict option" where
  "set_entry d l e = (case l of (table, i, p) \<Rightarrow> do {
     c \<leftarrow> bucket (get_ht d table) i;
     if p < length c then Some (set_ht d table (set_bucket (get_ht d table) i (c[p := e]))) else None
   })"

definition dictSetVal :: "('k, 'v) dict \<Rightarrow> link \<Rightarrow> 'v \<Rightarrow> ('k, 'v) dict option" where
  "dictSetVal d l val = do { e \<leftarrow> deref d l; set_entry d l (fst e, val) }"

text \<open>\<open>dictAddRaw\<close>: the fresh entry has an unset value, the parameter \<open>junk\<close>.  The result holds the link of the
  new entry, or the link of the existing one.\<close>

definition dictAddRaw ::
  "'k dictType \<Rightarrow> dictResizeEnable \<Rightarrow> 'v \<Rightarrow> ('k, 'v) dict \<Rightarrow> 'k \<Rightarrow> (('k, 'v) dict \<times> link option \<times> link option) option" where
  "dictAddRaw ty can junk d key = do {
     (d, position, existing) \<leftarrow> dictFindLinkForInsert ty can d key;
     case position of
       None \<Rightarrow> Some (d, None, existing)
     | Some b \<Rightarrow> do { d \<leftarrow> dictInsertKeyAtLink d key junk b; Some (d, Some b, None) }
   }"

definition dictAdd ::
  "'k dictType \<Rightarrow> dictResizeEnable \<Rightarrow> 'v \<Rightarrow> ('k, 'v) dict \<Rightarrow> 'k \<Rightarrow> 'v \<Rightarrow> (('k, 'v) dict \<times> bool) option" where
  "dictAdd ty can junk d key val = do {
     (d, entry, _) \<leftarrow> dictAddRaw ty can junk d key;
     case entry of
       None \<Rightarrow> Some (d, False)
     | Some l \<Rightarrow> do { d \<leftarrow> dictSetVal d l val; Some (d, True) }
   }"

definition dictReplace ::
  "'k dictType \<Rightarrow> dictResizeEnable \<Rightarrow> 'v \<Rightarrow> ('k, 'v) dict \<Rightarrow> 'k \<Rightarrow> 'v \<Rightarrow> (('k, 'v) dict \<times> bool) option" where
  "dictReplace ty can junk d key val = do {
     (d, entry, existing) \<leftarrow> dictAddRaw ty can junk d key;
     case entry of
       Some l \<Rightarrow> do { d \<leftarrow> dictSetVal d l val; Some (d, True) }
     | None \<Rightarrow> (case existing of
                  Some l \<Rightarrow> do { d \<leftarrow> dictSetVal d l val; Some (d, False) }
                | None \<Rightarrow> None)
   }"

definition dictAddOrFind ::
  "'k dictType \<Rightarrow> dictResizeEnable \<Rightarrow> 'v \<Rightarrow> ('k, 'v) dict \<Rightarrow> 'k \<Rightarrow> (('k, 'v) dict \<times> link option) option" where
  "dictAddOrFind ty can junk d key = do {
     (d, entry, existing) \<leftarrow> dictAddRaw ty can junk d key;
     Some (d, if entry \<noteq> None then entry else existing)
   }"

text \<open>Unlinking the entry a link points to, with the bookkeeping of \<open>ht_used\<close>.\<close>

definition remove_at :: "nat \<Rightarrow> 'a list \<Rightarrow> 'a list" where
  "remove_at p xs = take p xs @ drop (Suc p) xs"

definition unlink :: "('k, 'v) dict \<Rightarrow> link \<Rightarrow> (('k, 'v) dict \<times> ('k \<times> 'v)) option" where
  "unlink d l = (case l of (table, i, p) \<Rightarrow> do {
     c \<leftarrow> bucket (get_ht d table) i;
     if p < length c
     then do {
       t \<leftarrow> used_dec (set_bucket (get_ht d table) i (remove_at p c));
       Some (set_ht d table t, c ! p)
     }
     else None
   })"

definition dictGenericDelete ::
  "'k dictType \<Rightarrow> dictResizeEnable \<Rightarrow> ('k, 'v) dict \<Rightarrow> 'k \<Rightarrow> (('k, 'v) dict \<times> ('k \<times> 'v) option) option" where
  "dictGenericDelete ty can d key =
     (if dictSize d = 0 then Some (d, None)
      else do {
        let idx = hash_index ty (ht0 d) key;
        d \<leftarrow> dictRehashStepIfNeeded ty can d idx;
        (l, _) \<leftarrow> search_tables ty d idx key;
        case l of
          None \<Rightarrow> Some (d, None)
        | Some l \<Rightarrow> do {
            (d, he) \<leftarrow> unlink d l;
            d \<leftarrow> dictShrinkIfAutoResize ty can d;
            Some (d, Some he)
          }
      })"

definition dictDelete :: "'k dictType \<Rightarrow> dictResizeEnable \<Rightarrow> ('k, 'v) dict \<Rightarrow> 'k \<Rightarrow> (('k, 'v) dict \<times> bool) option" where
  "dictDelete ty can d key = do { (d, he) \<leftarrow> dictGenericDelete ty can d key; Some (d, he \<noteq> None) }"

definition dictTwoPhaseUnlinkFind ::
  "'k dictType \<Rightarrow> dictResizeEnable \<Rightarrow> ('k, 'v) dict \<Rightarrow> 'k \<Rightarrow> (('k, 'v) dict \<times> link option) option" where
  "dictTwoPhaseUnlinkFind ty can d key =
     (if dictSize d = 0 then Some (d, None)
      else do {
        d \<leftarrow> (if dictIsRehashing d then dictRehashStep ty can d else Some d);
        (l, _) \<leftarrow> search_tables ty d (hash_index ty (ht0 d) key) key;
        Some (if l = None then d else d\<lparr>pauserehash := pauserehash d + 1\<rparr>, l)
      })"

definition dictTwoPhaseUnlinkFree ::
  "'k dictType \<Rightarrow> dictResizeEnable \<Rightarrow> ('k, 'v) dict \<Rightarrow> link option \<Rightarrow> ('k, 'v) dict option" where
  "dictTwoPhaseUnlinkFree ty can d plink =
     (case plink of
        None \<Rightarrow> Some d
      | Some l \<Rightarrow>
          if deref d l = None then Some d
          else do {
            (d, _) \<leftarrow> unlink d l;
            d \<leftarrow> dictShrinkIfAutoResize ty can d;
            if pauserehash d = 0 then None else Some (d\<lparr>pauserehash := pauserehash d - 1\<rparr>)
          })"

definition dictEmpty :: "('k, 'v) dict \<Rightarrow> ('k, 'v) dict" where
  "dictEmpty d = d\<lparr>ht0 := dictReset, ht1 := dictReset, rehashidx := - 1, pauserehash := 0, pauseAutoResize := 0\<rparr>"

section \<open>Tables\<close>

definition ht_entries :: "('k, 'v) ht \<Rightarrow> ('k \<times> 'v) list" where
  "ht_entries t = concat (ht_table t)"

text \<open>A table is unallocated, or has a power of two of buckets, counts its entries and holds every entry in
  the bucket of its hash.\<close>

definition ht_ok :: "'k dictType \<Rightarrow> ('k, 'v) ht \<Rightarrow> bool" where
  "ht_ok ty t \<longleftrightarrow>
     (if ht_size_exp t = - 1 then t = dictReset
      else 0 \<le> ht_size_exp t \<and> ht_size_exp t \<le> 63 \<and> length (ht_table t) = DICTHT_SIZE (ht_size_exp t) \<and>
        ht_used t = length (ht_entries t) \<and>
        (\<forall>i < length (ht_table t). \<forall>e \<in> set (ht_table t ! i). hash_index ty t (fst e) = i))"

lemma ht_ok_reset [simp]: "ht_ok ty dictReset"
  by (simp add: ht_ok_def dictReset_def)

lemma ht_entries_reset [simp]: "ht_entries dictReset = []"
  by (simp add: ht_entries_def dictReset_def)

lemma ht_used_entries: "ht_ok ty t \<Longrightarrow> ht_used t = length (ht_entries t)"
  by (auto simp: ht_ok_def dictReset_def ht_entries_def split: if_splits)

lemma length_ht_table: "ht_ok ty t \<Longrightarrow> length (ht_table t) = DICTHT_SIZE (ht_size_exp t)"
  by (auto simp: ht_ok_def dictReset_def DICTHT_SIZE_def split: if_splits)

lemma ht_ok_index:
  "ht_ok ty t \<Longrightarrow> i < length (ht_table t) \<Longrightarrow> e \<in> set (ht_table t ! i) \<Longrightarrow> hash_index ty t (fst e) = i"
  by (auto simp: ht_ok_def dictReset_def split: if_splits)

lemma size_mask: "0 \<le> exp \<Longrightarrow> DICTHT_SIZE_MASK exp = mask (nat exp)"
  by (simp add: DICTHT_SIZE_MASK_def DICTHT_SIZE_def mask_eq_decr_exp)

lemma hash_index_mod:
  assumes "ht_ok ty t" "ht_size_exp t \<noteq> - 1"
  shows "hash_index ty t k = unat (hashFunction ty k) mod 2 ^ nat (ht_size_exp t)"
proof -
  have "0 \<le> ht_size_exp t" using assms by (simp add: ht_ok_def)
  then have "hash_index ty t k = unat (take_bit (nat (ht_size_exp t)) (hashFunction ty k))"
    by (simp add: hash_index_def size_mask take_bit_eq_mask)
  then show ?thesis by (simp only: unsigned_take_bit_eq) (simp only: take_bit_eq_mod)
qed

lemma hash_index_less:
  assumes "ht_ok ty t" "ht_size_exp t \<noteq> - 1"
  shows "hash_index ty t k < length (ht_table t)"
  using assms length_ht_table [OF assms(1)] by (simp add: hash_index_mod DICTHT_SIZE_def)

lemma hash_index_cong: "ht_size_exp t = ht_size_exp t' \<Longrightarrow> hash_index ty t k = hash_index ty t' k"
  by (simp add: hash_index_def)

lemma bucket_hash:
  assumes "ht_ok ty t" "ht_size_exp t \<noteq> - 1"
  shows "bucket t (hash_index ty t k) = Some (ht_table t ! hash_index ty t k)"
  using hash_index_less [OF assms] by (simp add: bucket_def)

text \<open>The bucket of the larger table determines the bucket of the smaller one.\<close>

lemma hash_index_shrink:
  assumes "ht_ok ty t" "ht_ok ty t'" "ht_size_exp t \<noteq> - 1" "ht_size_exp t' \<noteq> - 1" "ht_size_exp t' \<le> ht_size_exp t"
  shows "unat (of_nat (hash_index ty t k) AND DICTHT_SIZE_MASK (ht_size_exp t')) = hash_index ty t' k"
proof -
  have e: "0 \<le> ht_size_exp t" "0 \<le> ht_size_exp t'" using assms by (auto simp: ht_ok_def)
  have "(hashFunction ty k AND mask (nat (ht_size_exp t))) AND mask (nat (ht_size_exp t'))
      = hashFunction ty k AND mask (nat (ht_size_exp t'))"
    using assms(5) e by (simp add: take_bit_eq_mask [symmetric] min_def)
  then show ?thesis using e by (simp add: hash_index_def size_mask)
qed

lemma mset_concat_update:
  "i < length bs \<Longrightarrow> mset (concat (bs[i := c])) + mset (bs ! i) = mset (concat bs) + mset c"
  by (subst (3) id_take_nth_drop, assumption) (simp add: upd_conv_take_nth_drop)

lemma length_concat_update:
  "i < length bs \<Longrightarrow> length (concat (bs[i := c])) + length (bs ! i) = length (concat bs) + length c"
  using arg_cong [OF mset_concat_update [of i bs c], where f = size] by simp

text \<open>Replacing the chain of one bucket by another one whose entries belong there.\<close>

lemma ht_ok_set_bucket:
  assumes ok: "ht_ok ty t" and i: "i < length (ht_table t)" and c: "\<forall>e \<in> set c. hash_index ty t (fst e) = i"
    and n: "n + length (ht_table t ! i) = ht_used t + length c"
  shows "ht_ok ty (t\<lparr>ht_table := (ht_table t)[i := c], ht_used := n\<rparr>)"
proof -
  have e: "ht_size_exp t \<noteq> - 1" using i ok by (auto simp: ht_ok_def dictReset_def)
  have "n = length (concat ((ht_table t)[i := c]))"
    using length_concat_update [OF i, of c] n ht_used_entries [OF ok] by (simp add: ht_entries_def)
  then show ?thesis
    using ok e c i unfolding ht_ok_def
    by (simp add: ht_entries_def nth_list_update hash_index_def)
qed

lemma ht_ok_insert:
  assumes "ht_ok ty t" "ht_size_exp t \<noteq> - 1" "h = hash_index ty t (fst e)"
  shows "ht_ok ty (used_inc (set_bucket t h (e # ht_table t ! h)))"
    "mset (ht_entries (used_inc (set_bucket t h (e # ht_table t ! h)))) = add_mset e (mset (ht_entries t))"
proof -
  have h: "h < length (ht_table t)" using hash_index_less [OF assms(1,2)] assms(3) by simp
  show "ht_ok ty (used_inc (set_bucket t h (e # ht_table t ! h)))"
    using ht_ok_set_bucket [OF assms(1) h, of "e # ht_table t ! h" "ht_used t + 1"] assms(3)
      ht_ok_index [OF assms(1) h]
    by (simp add: used_inc_def set_bucket_def)
  show "mset (ht_entries (used_inc (set_bucket t h (e # ht_table t ! h)))) = add_mset e (mset (ht_entries t))"
    using mset_concat_update [OF h, of "e # ht_table t ! h"] by (simp add: ht_entries_def used_inc_def set_bucket_def)
qed

lemma size_exp_insert [simp]:
  "ht_size_exp (used_inc t) = ht_size_exp t" "ht_size_exp (set_bucket t i c) = ht_size_exp t"
  by (simp_all add: used_inc_def set_bucket_def)

section \<open>Rehashing\<close>

definition entries :: "('k, 'v) dict \<Rightarrow> ('k \<times> 'v) list" where
  "entries d = ht_entries (ht0 d) @ ht_entries (ht1 d)"

text \<open>The invariant of a dictionary.  The second table is in use only while rehashing, and then the buckets of
  the first table before \<open>rehashidx\<close> are empty.\<close>

definition dict_inv :: "'k dictType \<Rightarrow> ('k, 'v) dict \<Rightarrow> bool" where
  "dict_inv ty d \<longleftrightarrow>
     ht_ok ty (ht0 d) \<and> ht_ok ty (ht1 d) \<and> distinct (map fst (entries d)) \<and> - 1 \<le> rehashidx d \<and>
     (if rehashidx d = - 1 then ht1 d = dictReset
      else ht_size_exp (ht0 d) \<noteq> - 1 \<and> ht_size_exp (ht1 d) \<noteq> - 1 \<and>
        rehashidx d \<le> int (length (ht_table (ht0 d))) \<and>
        (\<forall>i. int i < rehashidx d \<longrightarrow> ht_table (ht0 d) ! i = []))"

text \<open>A step that keeps the contents.\<close>

definition same_content :: "'k dictType \<Rightarrow> ('k, 'v) dict \<Rightarrow> ('k, 'v) dict \<Rightarrow> bool" where
  "same_content ty d d' \<longleftrightarrow>
     dict_inv ty d' \<and> mset (entries d') = mset (entries d) \<and>
     pauserehash d' = pauserehash d \<and> pauseAutoResize d' = pauseAutoResize d"

lemma dict_invD:
  assumes "dict_inv ty d"
  shows "ht_ok ty (ht0 d)" "ht_ok ty (ht1 d)" "distinct (map fst (entries d))"
    "\<not> dictIsRehashing d \<Longrightarrow> ht1 d = dictReset"
    "dictIsRehashing d \<Longrightarrow> 0 \<le> rehashidx d \<and> ht_size_exp (ht0 d) \<noteq> - 1 \<and> ht_size_exp (ht1 d) \<noteq> - 1 \<and>
       rehashidx d \<le> int (length (ht_table (ht0 d)))"
    "int i < rehashidx d \<Longrightarrow> ht_table (ht0 d) ! i = []"
  using assms by (auto simp: dict_inv_def dictIsRehashing_def split: if_splits)

lemma dictSize_entries: "dict_inv ty d \<Longrightarrow> dictSize d = length (entries d)"
  by (simp add: dictSize_def entries_def ht_used_entries [OF dict_invD(1)] ht_used_entries [OF dict_invD(2)])

lemma same_content_refl [simp]: "same_content ty d d \<longleftrightarrow> dict_inv ty d"
  by (simp add: same_content_def)

lemma same_content_trans: "same_content ty d d' \<Longrightarrow> same_content ty d' d'' \<Longrightarrow> same_content ty d d''"
  by (simp add: same_content_def)

lemma distinct_mset_cong: "mset (xs :: ('k \<times> 'v) list) = mset ys \<Longrightarrow> distinct (map fst xs) \<longleftrightarrow> distinct (map fst ys)"
  by (metis mset_eq_imp_distinct_iff mset_map)

lemma rehash_chain_correct:
  assumes "ht_ok ty t0" "ht_size_exp t0 \<noteq> - 1" "\<forall>e \<in> set c. hash_index ty t0 (fst e) = idx"
  shows "ht_size_exp (ht0 d) = ht_size_exp t0 \<Longrightarrow> ht_ok ty (ht1 d) \<Longrightarrow> ht_size_exp (ht1 d) \<noteq> - 1 \<Longrightarrow>
    length c \<le> ht_used (ht0 d) \<Longrightarrow>
    \<exists>t1. rehash_chain ty idx d c
            = Some (d\<lparr>ht0 := (ht0 d)\<lparr>ht_used := ht_used (ht0 d) - length c\<rparr>, ht1 := t1\<rparr>) \<and>
          ht_ok ty t1 \<and> ht_size_exp t1 = ht_size_exp (ht1 d) \<and>
          mset (ht_entries t1) = mset c + mset (ht_entries (ht1 d))"
  using assms(3)
proof (induction c arbitrary: d)
  case Nil
  then show ?case by (intro exI [of _ "ht1 d"]) simp
next
  case (Cons e c)
  let ?h = "hash_index ty (ht1 d) (fst e)"
  have "(if ht_size_exp (ht1 d) > ht_size_exp (ht0 d) then ?h
         else unat (of_nat idx AND DICTHT_SIZE_MASK (ht_size_exp (ht1 d)))) = ?h"
    using hash_index_shrink [OF assms(1) Cons.prems(2) assms(2) Cons.prems(3), of "fst e"] Cons.prems(1,5) by simp
  then have step: "rehash_chain ty idx d (e # c) = rehash_chain ty idx
      (d\<lparr>ht0 := (ht0 d)\<lparr>ht_used := ht_used (ht0 d) - 1\<rparr>, ht1 := used_inc (set_bucket (ht1 d) ?h (e # ht_table (ht1 d) ! ?h))\<rparr>) c"
    (is "_ = rehash_chain ty idx ?d c")
    using Cons.prems(4) bucket_hash [OF Cons.prems(2,3)] by (simp add: used_dec_def Let_def)
  have "\<exists>t1. rehash_chain ty idx ?d c
            = Some (?d\<lparr>ht0 := (ht0 ?d)\<lparr>ht_used := ht_used (ht0 ?d) - length c\<rparr>, ht1 := t1\<rparr>) \<and>
          ht_ok ty t1 \<and> ht_size_exp t1 = ht_size_exp (ht1 ?d) \<and>
          mset (ht_entries t1) = mset c + mset (ht_entries (ht1 ?d))"
    using Cons.prems ht_ok_insert(1) [OF Cons.prems(2,3) refl, of e] by (intro Cons.IH) simp_all
  then show ?case unfolding step using ht_ok_insert(2) [OF Cons.prems(2,3) refl, of e] by auto
qed

lemma rehashEntries_correct:
  assumes inv: "dict_inv ty d" and re: "dictIsRehashing d" and idx: "idx < length (ht_table (ht0 d))"
  shows "\<exists>d'. rehashEntriesInBucketAtIndex ty d idx = Some d' \<and> same_content ty d d' \<and>
    rehashidx d' = rehashidx d \<and> ht_table (ht0 d') = (ht_table (ht0 d))[idx := []] \<and>
    ht_size_exp (ht0 d') = ht_size_exp (ht0 d) \<and> ht_size_exp (ht1 d') = ht_size_exp (ht1 d)"
proof -
  note D = dict_invD [OF inv]
  let ?c = "ht_table (ht0 d) ! idx"
  have used: "length ?c \<le> ht_used (ht0 d)"
    using length_concat_update [OF idx, of "[]"] ht_used_entries [OF D(1)] by (simp add: ht_entries_def)
  obtain t1 where t1: "rehash_chain ty idx d ?c
        = Some (d\<lparr>ht0 := (ht0 d)\<lparr>ht_used := ht_used (ht0 d) - length ?c\<rparr>, ht1 := t1\<rparr>)"
      "ht_ok ty t1" "ht_size_exp t1 = ht_size_exp (ht1 d)"
      "mset (ht_entries t1) = mset ?c + mset (ht_entries (ht1 d))"
    using rehash_chain_correct [OF D(1) _ _ refl D(2) _ used, of idx] D(5) re ht_ok_index [OF D(1) idx] by auto
  let ?t0 = "(ht0 d)\<lparr>ht_table := (ht_table (ht0 d))[idx := []], ht_used := ht_used (ht0 d) - length ?c\<rparr>"
  let ?d = "d\<lparr>ht0 := ?t0, ht1 := t1\<rparr>"
  have eq: "rehashEntriesInBucketAtIndex ty d idx = Some ?d"
    using idx t1(1) by (simp add: rehashEntriesInBucketAtIndex_def bucket_def set_bucket_def)
  have "mset (entries ?d) = mset (entries d)"
    using mset_concat_update [OF idx, of "[]"] t1(4) by (simp add: entries_def ht_entries_def)
  moreover have "ht_ok ty ?t0" using ht_ok_set_bucket [OF D(1) idx, of "[]"] used by simp
  moreover have "\<forall>i. int i < rehashidx d \<longrightarrow> (ht_table (ht0 d))[idx := []] ! i = []"
  proof (intro allI impI)
    fix i
    assume "int i < rehashidx d"
    then show "(ht_table (ht0 d))[idx := []] ! i = []"
      using D(6) [of i] idx by (cases "i = idx") simp_all
  qed
  ultimately have "same_content ty d ?d"
    using t1(2,3) D(3,5) re distinct_mset_cong [of "entries ?d" "entries d"]
    by (simp add: same_content_def dict_inv_def dictIsRehashing_def)
  then show ?thesis using eq t1(3) by simp
qed

lemma completed_correct:
  assumes inv: "dict_inv ty d" and re: "dictIsRehashing d"
  shows "same_content ty d (fst (dictCheckRehashingCompleted d))"
    "dictIsRehashing (fst (dictCheckRehashingCompleted d)) \<longleftrightarrow> \<not> snd (dictCheckRehashingCompleted d)"
    "ht_size_exp (ht0 (fst (dictCheckRehashingCompleted d))) \<noteq> - 1"
proof -
  note D = dict_invD [OF inv]
  have "ht_used (ht0 d) = 0 \<Longrightarrow> ht_entries (ht0 d) = []" using ht_used_entries [OF D(1)] by simp
  then show "same_content ty d (fst (dictCheckRehashingCompleted d))"
    using inv D(2,3) by (auto simp: dictCheckRehashingCompleted_def same_content_def dict_inv_def entries_def)
  show "dictIsRehashing (fst (dictCheckRehashingCompleted d)) \<longleftrightarrow> \<not> snd (dictCheckRehashingCompleted d)"
    using re by (simp add: dictCheckRehashingCompleted_def dictIsRehashing_def)
  show "ht_size_exp (ht0 (fst (dictCheckRehashingCompleted d))) \<noteq> - 1"
    using D(5) re by (simp add: dictCheckRehashingCompleted_def)
qed

text \<open>Skipping: the budget runs out, or a chain that is not empty is found; everything passed is empty.\<close>

definition skipped :: "('k, 'v) ht \<Rightarrow> nat \<Rightarrow> nat \<times> nat \<times> bool \<Rightarrow> bool" where
  "skipped t i res \<longleftrightarrow>
     (case res of (k, ev, stop) \<Rightarrow>
        i \<le> k \<and> k \<le> length (ht_table t) \<and> (\<forall>l. i \<le> l \<and> l < k \<longrightarrow> ht_table t ! l = []) \<and>
        (if stop then i < k else k < length (ht_table t) \<and> ht_table t ! k \<noteq> [] \<and> 0 < ev))"

lemma skipped_Suc: "skipped t (Suc i) res \<Longrightarrow> ht_table t ! i = [] \<Longrightarrow> skipped t i res"
proof -
  assume res: "skipped t (Suc i) res" and "ht_table t ! i = []"
  obtain k ev stop where k: "res = (k, ev, stop)" by (cases res)
  have "ht_table t ! l = []" if "i \<le> l" "l < k" for l
    using res that \<open>ht_table t ! i = []\<close> by (cases "l = i") (simp_all add: k skipped_def)
  then show "skipped t i res" using res by (cases stop) (simp_all add: k skipped_def)
qed

lemma skip_empty_correct:
  assumes "0 < ev" "j < length (ht_table t)" "ht_table t ! j \<noteq> []" "i \<le> j"
  shows "\<exists>res. skip_empty t i ev = Some res \<and> skipped t i res"
  using assms(1,4)
proof (induction ev arbitrary: i)
  case 0
  then show ?case by simp
next
  case (Suc ev)
  have i: "i < length (ht_table t)" using Suc.prems(2) assms(2) by simp
  have eq: "skip_empty t i (Suc ev) = (if ht_table t ! i \<noteq> [] then Some (i, Suc ev, False)
      else if ev = 0 then Some (i + 1, 0, True) else skip_empty t (i + 1) ev)"
    using i by (subst skip_empty.simps) (simp add: bucket_def)
  show ?case
  proof (cases "ht_table t ! i = []")
    case False
    then have "skipped t i (i, Suc ev, False)" using i by (auto simp: skipped_def)
    then show ?thesis unfolding eq using False by simp
  next
    case True
    show ?thesis
    proof (cases "ev = 0")
      case ev: True
      have "skipped t i (i + 1, 0, True)" using i True by (auto simp: skipped_def le_less_Suc_eq)
      then show ?thesis unfolding eq using True ev by simp
    next
      case ev: False
      have "i \<noteq> j" using True assms(3) by auto
      then obtain res where "skip_empty t (i + 1) ev = Some res" "skipped t (i + 1) res"
        using Suc.IH [of "i + 1"] Suc.prems(2) ev by auto
      then show ?thesis unfolding eq using True ev skipped_Suc [of t i res] by simp
    qed
  qed
qed

text \<open>While entries are left in the first table, one of its chains from \<open>rehashidx\<close> on is not empty.\<close>

lemma chain_left:
  assumes inv: "dict_inv ty d" and re: "dictIsRehashing d" and used: "ht_used (ht0 d) \<noteq> 0"
  shows "\<exists>j. nat (rehashidx d) \<le> j \<and> j < length (ht_table (ht0 d)) \<and> ht_table (ht0 d) ! j \<noteq> []"
proof -
  note D = dict_invD [OF inv]
  have "ht_entries (ht0 d) \<noteq> []" using ht_used_entries [OF D(1)] used by auto
  then obtain c where "c \<in> set (ht_table (ht0 d))" "c \<noteq> []" by (auto simp: ht_entries_def)
  then obtain j where j: "j < length (ht_table (ht0 d))" "ht_table (ht0 d) ! j \<noteq> []"
    by (auto simp: in_set_conv_nth)
  then have "\<not> int j < rehashidx d" using D(6) [of j] by blast
  then show ?thesis using j D(5) re by (intro exI [of _ j]) simp
qed

lemma same_content_rehashidx:
  assumes "dict_inv ty d" "dictIsRehashing d" "k \<le> length (ht_table (ht0 d))"
    and "\<And>i. i < k \<Longrightarrow> ht_table (ht0 d) ! i = []"
  shows "same_content ty d (d\<lparr>rehashidx := int k\<rparr>)"
  using assms by (simp add: same_content_def dict_inv_def dictIsRehashing_def entries_def)

text \<open>The loop keeps the contents and never lowers \<open>rehashidx\<close>; if it stops early, or makes one round, it has
  moved \<open>rehashidx\<close> on.\<close>

lemma dictRehash_loop_correct:
  "dict_inv ty d \<Longrightarrow> dictIsRehashing d \<Longrightarrow> n = 0 \<or> 0 < ev \<Longrightarrow>
   \<exists>d' stop. dictRehash_loop ty d n ev = Some (d', stop) \<and> same_content ty d d' \<and> dictIsRehashing d' \<and>
     ht_size_exp (ht0 d') = ht_size_exp (ht0 d) \<and> ht_size_exp (ht1 d') = ht_size_exp (ht1 d) \<and>
     rehashidx d \<le> rehashidx d' \<and>
     (0 < n \<and> ht_used (ht0 d) \<noteq> 0 \<longrightarrow> rehashidx d < rehashidx d')"
proof (induction n arbitrary: d ev)
  case 0
  then show ?case by auto
next
  case (Suc n)
  note D = dict_invD [OF Suc.prems(1)]
  let ?r = "nat (rehashidx d)"
  show ?case
  proof (cases "ht_used (ht0 d) = 0")
    case True
    then show ?thesis using Suc.prems by auto
  next
    case used: False
    obtain j where j: "?r \<le> j" "j < length (ht_table (ht0 d))" "ht_table (ht0 d) ! j \<noteq> []"
      using chain_left [OF Suc.prems(1,2) used] by blast
    have r: "rehashidx d = int ?r" using D(5) Suc.prems(2) by simp
    have assert: "rehashidx d < int (DICTHT_SIZE (ht_size_exp (ht0 d)))"
      using j(1,2) r length_ht_table [OF D(1)] by simp
    obtain k ev' stop where k: "skip_empty (ht0 d) ?r ev = Some (k, ev', stop)" "?r \<le> k"
        "k \<le> length (ht_table (ht0 d))" "\<forall>l. ?r \<le> l \<and> l < k \<longrightarrow> ht_table (ht0 d) ! l = []"
        "if stop then ?r < k else k < length (ht_table (ht0 d)) \<and> ht_table (ht0 d) ! k \<noteq> [] \<and> 0 < ev'"
      using skip_empty_correct [OF _ j(2,3,1), of ev] Suc.prems(3) by (auto simp: skipped_def)
    have empty: "ht_table (ht0 d) ! i = []" if "i < k" for i
      using that k(4) D(6) [of i] r by (cases "?r \<le> i") auto
    show ?thesis
    proof (cases stop)
      case True
      then have "?r < k" using k(5) by simp
      then have "rehashidx d < int k" using r by linarith
      then show ?thesis
        using used assert k(1) True same_content_rehashidx [OF Suc.prems(1,2) k(3) empty]
        by (auto simp: dictIsRehashing_def)
    next
      case False
      then have k': "k < length (ht_table (ht0 d))" "0 < ev'" using k(5) by simp_all
      obtain d1 where d1: "rehashEntriesInBucketAtIndex ty d k = Some d1" "same_content ty d d1"
          "rehashidx d1 = rehashidx d" "ht_table (ht0 d1) = (ht_table (ht0 d))[k := []]"
          "ht_size_exp (ht0 d1) = ht_size_exp (ht0 d)" "ht_size_exp (ht1 d1) = ht_size_exp (ht1 d)"
        using rehashEntries_correct [OF Suc.prems(1,2) k'(1)] by blast
      have inv1: "dict_inv ty d1" "dictIsRehashing d1"
        using d1(2,3) Suc.prems(2) by (simp_all add: same_content_def dictIsRehashing_def)
      have "ht_table (ht0 d1) ! i = []" if "i < Suc k" for i
        using that d1(4) empty [of i] k'(1) by (cases "i = k") simp_all
      then have sc: "same_content ty d1 (d1\<lparr>rehashidx := int (Suc k)\<rparr>)"
        using same_content_rehashidx [OF inv1, of "Suc k"] d1(4) k'(1) by simp
      let ?d2 = "d1\<lparr>rehashidx := int (Suc k)\<rparr>"
      have "dict_inv ty ?d2" "dictIsRehashing ?d2" using sc by (simp_all add: same_content_def dictIsRehashing_def)
      then obtain d' stop' where "dictRehash_loop ty ?d2 n ev' = Some (d', stop')" "same_content ty ?d2 d'"
          "dictIsRehashing d'" "ht_size_exp (ht0 d') = ht_size_exp (ht0 ?d2)"
          "ht_size_exp (ht1 d') = ht_size_exp (ht1 ?d2)" "rehashidx ?d2 \<le> rehashidx d'"
        using Suc.IH [of ?d2 ev'] k'(2) by blast
      moreover have "rehashidx d < int (Suc k)" using r k(2) by linarith
      ultimately show ?thesis
        using used assert k(1) False d1(1,5,6) same_content_trans [OF d1(2) same_content_trans [OF sc]]
        by (auto simp: add.commute)
    qed
  qed
qed

lemma dictRehash_correct:
  assumes "dict_inv ty d"
  shows "\<exists>d' more. dictRehash ty can d n = Some (d', more) \<and> same_content ty d d' \<and>
    (rehash_refused can d \<longrightarrow> d' = d \<and> \<not> more) \<and>
    (ht_size_exp (ht0 d) \<noteq> - 1 \<longrightarrow> ht_size_exp (ht0 d') \<noteq> - 1) \<and>
    (more \<longrightarrow> dictIsRehashing d' \<and> ht_size_exp (ht0 d') = ht_size_exp (ht0 d) \<and>
       ht_size_exp (ht1 d') = ht_size_exp (ht1 d) \<and> (0 < n \<longrightarrow> rehashidx d < rehashidx d')) \<and>
    (\<not> more \<and> \<not> rehash_refused can d \<longrightarrow> \<not> dictIsRehashing d')"
proof (cases "rehash_refused can d")
  case True
  then show ?thesis using assms by (auto simp: dictRehash_def)
next
  case False
  then have re: "dictIsRehashing d" by (simp add: rehash_refused_def Let_def)
  obtain d' stop where d': "dictRehash_loop ty d n (n * 10) = Some (d', stop)" "same_content ty d d'" "dictIsRehashing d'"
      "ht_size_exp (ht0 d') = ht_size_exp (ht0 d)" "ht_size_exp (ht1 d') = ht_size_exp (ht1 d)"
      "rehashidx d \<le> rehashidx d'"
      "0 < n \<and> ht_used (ht0 d) \<noteq> 0 \<longrightarrow> rehashidx d < rehashidx d'"
    using dictRehash_loop_correct [OF assms re, of n "n * 10"] by auto
  have inv': "dict_inv ty d'" using d'(2) by (simp add: same_content_def)
  have moved: "rehashidx d < rehashidx d'" if "0 < n" "stop \<or> ht_used (ht0 d') \<noteq> 0"
  proof (cases "ht_used (ht0 d) = 0")
    case True
    then have "d' = d \<and> \<not> stop" using d'(1) that(1) by (cases n) auto
    then show ?thesis using that True by simp
  qed (use d'(7) that in simp)
  show ?thesis
  proof (cases stop)
    case True
    then show ?thesis using False d' moved by (auto simp: dictRehash_def)
  next
    case no: False
    obtain d2 completed where c: "dictCheckRehashingCompleted d' = (d2, completed)" by fastforce
    then have "same_content ty d d2" "dictIsRehashing d2 \<longleftrightarrow> \<not> completed" "ht_size_exp (ht0 d2) \<noteq> - 1"
      using completed_correct [OF inv' d'(3)] same_content_trans [OF d'(2)] by auto
    moreover have "\<not> completed \<Longrightarrow> d2 = d' \<and> ht_used (ht0 d') \<noteq> 0"
      using c by (auto simp: dictCheckRehashingCompleted_def split: if_splits)
    ultimately show ?thesis using False no c d' moved by (auto simp: dictRehash_def)
  qed
qed

text \<open>A step in the course of a rehashing: contents kept, and while rehashing goes on the first table keeps
  its size.\<close>

definition rehash_step :: "'k dictType \<Rightarrow> ('k, 'v) dict \<Rightarrow> ('k, 'v) dict \<Rightarrow> bool" where
  "rehash_step ty d d' \<longleftrightarrow>
     same_content ty d d' \<and> (dictIsRehashing d' \<longrightarrow> ht_size_exp (ht0 d') = ht_size_exp (ht0 d)) \<and>
     (ht_size_exp (ht0 d) \<noteq> - 1 \<longrightarrow> ht_size_exp (ht0 d') \<noteq> - 1)"

lemma rehash_step_refl [simp]: "rehash_step ty d d \<longleftrightarrow> dict_inv ty d"
  by (simp add: rehash_step_def)

lemma dictRehash_step:
  assumes "dict_inv ty d"
  shows "\<exists>d' more. dictRehash ty can d n = Some (d', more) \<and> rehash_step ty d d'"
  using dictRehash_correct [OF assms, of can n] by (auto simp: rehash_step_def)

lemma dictRehashStep_correct:
  "dict_inv ty d \<Longrightarrow> \<exists>d'. dictRehashStep ty can d = Some d' \<and> rehash_step ty d d'"
  using dictRehash_step [of ty d can 1] by (auto simp: dictRehashStep_def)

lemma dictBucketRehash_correct:
  assumes inv: "dict_inv ty d" and idx: "idx < length (ht_table (ht0 d))"
  shows "\<exists>d' b. dictBucketRehash ty can d idx = Some (d', b) \<and> rehash_step ty d d'"
proof (cases "pauserehash d \<noteq> 0 \<or> rehash_refused can d")
  case True
  then show ?thesis using inv by (auto simp: dictBucketRehash_def)
next
  case False
  then have re: "dictIsRehashing d" by (auto simp: rehash_refused_def Let_def)
  obtain d1 where d1: "rehashEntriesInBucketAtIndex ty d idx = Some d1" "same_content ty d d1"
      "rehashidx d1 = rehashidx d" "ht_size_exp (ht0 d1) = ht_size_exp (ht0 d)"
    using rehashEntries_correct [OF inv re idx] by blast
  let ?c = "dictCheckRehashingCompleted d1"
  have "dict_inv ty d1" "dictIsRehashing d1" using d1 re by (auto simp: same_content_def dictIsRehashing_def)
  then have "same_content ty d1 (fst ?c)" "dictIsRehashing (fst ?c) \<longleftrightarrow> \<not> snd ?c" "ht_size_exp (ht0 (fst ?c)) \<noteq> - 1"
    by (rule completed_correct)+
  moreover have "\<not> snd ?c \<Longrightarrow> fst ?c = d1" by (simp add: dictCheckRehashingCompleted_def split: if_splits)
  ultimately have "rehash_step ty d (fst ?c)"
    using same_content_trans [OF d1(2)] d1(4) by (auto simp: rehash_step_def)
  then show ?thesis using False d1(1) by (auto simp: dictBucketRehash_def)
qed

lemma dictRehashStepIfNeeded_correct:
  assumes inv: "dict_inv ty d"
  shows "\<exists>d'. dictRehashStepIfNeeded ty can d (hash_index ty (ht0 d) key) = Some d' \<and> rehash_step ty d d'"
proof (cases "\<not> dictIsRehashing d \<or> pauserehash d \<noteq> 0")
  case True
  then show ?thesis using inv by (auto simp: dictRehashStepIfNeeded_def)
next
  case False
  note D = dict_invD [OF inv]
  have e: "ht_size_exp (ht0 d) \<noteq> - 1" using D(5) False by simp
  show ?thesis
    using False bucket_hash [OF D(1) e, of key] dictRehash_step [OF inv, of can 1]
      dictBucketRehash_correct [OF inv hash_index_less [OF D(1) e, of key], of can]
    by (auto simp: dictRehashStepIfNeeded_def)
qed

text \<open>The forced rehash ends within one round per bucket and one more, and unless it is refused it is complete.\<close>

lemma dictRehash_full_correct:
  assumes "dict_inv ty d" "dictIsRehashing d" "int (length (ht_table (ht0 d))) - rehashidx d < int fuel"
  shows "\<exists>d'. dictRehash_full fuel ty can d = Some d' \<and> same_content ty d d' \<and>
           (if rehash_refused can d then d' = d else \<not> dictIsRehashing d')"
  using assms
proof (induction fuel arbitrary: d)
  case 0
  then show ?case using dict_invD(5) [OF 0(1,2)] by simp
next
  case (Suc fuel)
  obtain d' more where d': "dictRehash ty can d 1000 = Some (d', more)" "same_content ty d d'"
      "rehash_refused can d \<Longrightarrow> d' = d \<and> \<not> more"
      "more \<Longrightarrow> dictIsRehashing d' \<and> ht_size_exp (ht0 d') = ht_size_exp (ht0 d) \<and>
         ht_size_exp (ht1 d') = ht_size_exp (ht1 d) \<and> rehashidx d < rehashidx d'"
      "\<not> more \<and> \<not> rehash_refused can d \<Longrightarrow> \<not> dictIsRehashing d'"
    using dictRehash_correct [OF Suc.prems(1), of can 1000] by auto
  show ?case
  proof (cases more)
    case True
    have inv': "dict_inv ty d'" using d'(2) by (simp add: same_content_def)
    have "length (ht_table (ht0 d')) = length (ht_table (ht0 d))"
      using d'(4) [OF True] length_ht_table [OF dict_invD(1) [OF inv']] length_ht_table [OF dict_invD(1) [OF Suc.prems(1)]]
      by simp
    moreover have "rehash_refused can d' = rehash_refused can d"
      using d'(4) [OF True] Suc.prems(2) by (simp add: rehash_refused_def)
    ultimately obtain d'' where "dictRehash_full fuel ty can d' = Some d''" "same_content ty d' d''"
        "if rehash_refused can d then d'' = d' else \<not> dictIsRehashing d''"
      using Suc.IH [OF inv'] Suc.prems(3) d'(4) [OF True] by auto
    then show ?thesis using d'(1,3) True same_content_trans [OF d'(2)] by auto
  next
    case False
    then show ?thesis using d' by auto
  qed
qed

section \<open>Resizing\<close>

lemma bit_length_less: "n < 2 ^ bit_length n"
proof (induction n rule: bit_length.induct)
  case (1 n)
  then show ?case by (subst bit_length.simps) (auto simp: less_eq_Suc_le)
qed

lemma bit_length_le: "n < 2 ^ k \<Longrightarrow> bit_length n \<le> k"
proof (induction k arbitrary: n)
  case 0
  then show ?case by (simp add: bit_length.simps)
next
  case (Suc k)
  then have "n div 2 < 2 ^ k" by auto
  then show ?case using Suc.IH by (subst bit_length.simps) auto
qed

text \<open>The exponent is the least one, from 2 on, whose power of two is at least the requested size.\<close>

lemma dictNextExp_bounds: "2 \<le> dictNextExp sz \<and> dictNextExp sz \<le> 63"
proof (cases "sz \<le> 4 \<or> sz \<ge> 2 ^ 63 - 1")
  case False
  then have "bit_length (sz - 1) \<le> 63" by (intro bit_length_le) auto
  moreover have "\<not> bit_length (sz - 1) \<le> 1"
  proof
    assume "bit_length (sz - 1) \<le> 1"
    then have "(2::nat) ^ bit_length (sz - 1) \<le> 2 ^ 1" by (intro power_increasing) auto
    then have "sz - 1 < 2" using bit_length_less [of "sz - 1"] by simp
    then show False using False by auto
  qed
  ultimately show ?thesis using False by (simp add: dictNextExp_def DICT_HT_INITIAL_SIZE_def clzl_def of_nat_diff)
qed (auto simp: dictNextExp_def DICT_HT_INITIAL_SIZE_def DICT_HT_INITIAL_EXP_def)

lemma dictNextExp_enough: "sz < 2 ^ 63 \<Longrightarrow> sz \<le> DICTHT_SIZE (dictNextExp sz)"
proof -
  assume sz: "sz < 2 ^ 63"
  show ?thesis
  proof (cases "sz \<le> 4 \<or> sz \<ge> 2 ^ 63 - 1")
    case False
    then have "bit_length (sz - 1) \<le> 63" by (intro bit_length_le) auto
    moreover have "sz - 1 < 2 ^ bit_length (sz - 1)" by (rule bit_length_less)
    ultimately show ?thesis
      using False by (simp add: dictNextExp_def DICTHT_SIZE_def DICT_HT_INITIAL_SIZE_def clzl_def of_nat_diff)
  qed (use sz in \<open>auto simp: dictNextExp_def DICTHT_SIZE_def DICT_HT_INITIAL_SIZE_def DICT_HT_INITIAL_EXP_def\<close>)
qed

lemma bit_length_pow: "0 < n \<Longrightarrow> 2 ^ bit_length n \<le> 2 * n"
proof (induction n rule: bit_length.induct)
  case (1 n)
  show ?case
  proof (cases "n div 2 = 0")
    case True
    then have "n = 1" using 1(2) by auto
    then show ?thesis by (simp add: bit_length.simps)
  next
    case False
    then show ?thesis using 1 by (subst bit_length.simps) auto
  qed
qed

lemma dictNextExp_least: "sz < 2 ^ 63 \<Longrightarrow> 4 < sz \<Longrightarrow> DICTHT_SIZE (dictNextExp sz) < 2 * sz"
proof (cases "sz \<ge> 2 ^ 63 - 1")
  case False
  assume sz: "sz < 2 ^ 63" "4 < sz"
  then have "bit_length (sz - 1) \<le> 63" by (intro bit_length_le) auto
  moreover have "2 ^ bit_length (sz - 1) \<le> 2 * (sz - 1)" using sz by (intro bit_length_pow) auto
  ultimately show ?thesis
    using False sz by (simp add: dictNextExp_def DICTHT_SIZE_def DICT_HT_INITIAL_SIZE_def clzl_def of_nat_diff)
qed (auto simp: dictNextExp_def DICTHT_SIZE_def DICT_HT_INITIAL_SIZE_def)

lemma ht_ok_new: "0 \<le> exp \<Longrightarrow> exp \<le> 63 \<Longrightarrow> ht_ok ty \<lparr>ht_table = replicate (DICTHT_SIZE exp) [], ht_used = 0, ht_size_exp = exp\<rparr>"
  by (simp add: ht_ok_def ht_entries_def)

lemma exp_of_entries: "dict_inv ty d \<Longrightarrow> dictSize d \<noteq> 0 \<Longrightarrow> ht_size_exp (ht0 d) \<noteq> - 1"
  using dict_invD(1,4,5) [of ty d]
  by (cases "dictIsRehashing d") (auto simp: dictSize_def ht_ok_def dictReset_def split: if_splits)

lemma dictSize_same: "dict_inv ty d \<Longrightarrow> same_content ty d d' \<Longrightarrow> dictSize d' = dictSize d"
  using dictSize_entries [of ty d] dictSize_entries [of ty d'] mset_eq_length [of "entries d'" "entries d"]
  by (simp add: same_content_def)

text \<open>Starting a resize: contents kept, \<open>rehashidx\<close> not beyond the start, the first table still allocated.\<close>

definition resize_step :: "'k dictType \<Rightarrow> ('k, 'v) dict \<Rightarrow> ('k, 'v) dict \<Rightarrow> bool" where
  "resize_step ty d d' \<longleftrightarrow>
     same_content ty d d' \<and> (d' = d \<or> rehashidx d' \<le> 0) \<and>
     (ht_size_exp (ht0 d) \<noteq> - 1 \<longrightarrow> ht_size_exp (ht0 d') \<noteq> - 1)"

lemma resize_step_refl [simp]: "resize_step ty d d \<longleftrightarrow> dict_inv ty d"
  by (simp add: resize_step_def)

lemma dictResize_correct:
  assumes inv: "dict_inv ty d" and re: "\<not> dictIsRehashing d"
  shows "\<exists>d' ok failed. dictResize ty can alloc d sz = Some (d', ok, failed) \<and> resize_step ty d d'"
proof -
  note D = dict_invD [OF inv]
  define new :: "('a, 'b) ht" where
    "new = \<lparr>ht_table = replicate (DICTHT_SIZE (dictNextExp sz)) [], ht_used = 0, ht_size_exp = dictNextExp sz\<rparr>"
  have new: "ht_ok ty new" "ht_entries new = []" "ht_size_exp new \<noteq> - 1"
    using ht_ok_new [of "dictNextExp sz" ty] dictNextExp_bounds [of sz] by (auto simp: new_def ht_entries_def)
  have empty: "ht1 d = dictReset" using D(4) re by simp
  have sc0: "resize_step ty d (d\<lparr>ht0 := new, ht1 := dictReset, rehashidx := - 1\<rparr>)"
    if "ht_table (ht0 d) = [] \<or> ht_used (ht0 d) = 0"
  proof -
    have "ht_entries (ht0 d) = []" using that ht_used_entries [OF D(1)] by (auto simp: ht_entries_def)
    then show ?thesis using new empty by (simp add: resize_step_def same_content_def dict_inv_def entries_def)
  qed
  let ?d1 = "d\<lparr>ht1 := new, rehashidx := 0\<rparr>"
  have sc1: "same_content ty d ?d1" if "ht_table (ht0 d) \<noteq> []"
  proof -
    have "ht_size_exp (ht0 d) \<noteq> - 1" using D(1) that by (auto simp: ht_ok_def dictReset_def)
    then show ?thesis using D(1,3) new empty by (simp add: same_content_def dict_inv_def entries_def)
  qed
  have full: "\<exists>d'. dictRehash_full (DICTHT_SIZE (ht_size_exp (ht0 d)) + 1) ty can ?d1 = Some d' \<and> resize_step ty d d'"
    if "ht_table (ht0 d) \<noteq> []" "ht_used (ht0 d) \<noteq> 0"
  proof -
    have inv1: "dict_inv ty ?d1" using sc1 [OF that(1)] by (simp add: same_content_def)
    obtain d' where d': "dictRehash_full (DICTHT_SIZE (ht_size_exp (ht0 d)) + 1) ty can ?d1 = Some d'"
        "same_content ty ?d1 d'" "if rehash_refused can ?d1 then d' = ?d1 else \<not> dictIsRehashing d'"
      using dictRehash_full_correct [OF inv1, of "DICTHT_SIZE (ht_size_exp (ht0 d)) + 1" can] length_ht_table [OF D(1)]
      by (auto simp: dictIsRehashing_def)
    have sc: "same_content ty d d'" by (rule same_content_trans [OF sc1 [OF that(1)] d'(2)])
    have "dictSize d \<noteq> 0" using that(2) by (simp add: dictSize_def)
    then have "ht_size_exp (ht0 d') \<noteq> - 1"
      using exp_of_entries [of ty d'] dictSize_same [OF inv sc] sc by (simp add: same_content_def)
    then have "resize_step ty d d'"
      using sc d'(3) by (auto simp: resize_step_def dictIsRehashing_def split: if_splits)
    then show ?thesis using d'(1) by blast
  qed
  have rs1: "resize_step ty d ?d1" if "ht_table (ht0 d) \<noteq> []" using sc1 [OF that] by (simp add: resize_step_def)
  show ?thesis
    using re inv sc0 rs1 full unfolding dictResize_def Let_def new_def [symmetric]
    by (auto simp del: dictRehash_full.simps) blast+
qed

lemma dictExpand_gen_correct:
  "dict_inv ty d \<Longrightarrow> \<exists>d' ok failed. dictExpand_gen ty can alloc d sz = Some (d', ok, failed) \<and> resize_step ty d d'"
  using dictResize_correct [of ty d can alloc sz] by (auto simp: dictExpand_gen_def)

lemma dictExpand_correct:
  "dict_inv ty d \<Longrightarrow> \<exists>d' ok. dictExpand ty can d sz = Some (d', ok) \<and> resize_step ty d d'"
  using dictExpand_gen_correct [of ty d can "\<lambda>_. True" sz] by (auto simp: dictExpand_def)

lemma dictShrink_correct:
  "dict_inv ty d \<Longrightarrow> \<exists>d' ok. dictShrink ty can d sz = Some (d', ok) \<and> resize_step ty d d'"
  using dictResize_correct [of ty d can "\<lambda>_. True" sz] by (auto simp: dictShrink_def)

lemma dictExpandIfAutoResize_correct:
  "dict_inv ty d \<Longrightarrow> \<exists>d' ok. dictExpandIfAutoResize ty can d = Some (d', ok) \<and> resize_step ty d d'"
  using dictExpand_correct [of ty d can DICT_HT_INITIAL_SIZE] dictExpand_correct [of ty d can "ht_used (ht0 d) + 1"]
  by (auto simp: dictExpandIfAutoResize_def dictExpandIfNeeded_def Let_def)

lemma dictShrinkIfAutoResize_correct:
  "dict_inv ty d \<Longrightarrow> \<exists>d'. dictShrinkIfAutoResize ty can d = Some d' \<and> resize_step ty d d'"
  using dictShrink_correct [of ty d can "ht_used (ht0 d)"]
  by (auto simp: dictShrinkIfAutoResize_def dictShrinkIfNeeded_def Let_def)

section \<open>Lookups and updates\<close>

text \<open>The comparison of the type is equality of keys.\<close>

definition type_ok :: "'k dictType \<Rightarrow> bool" where
  "type_ok ty \<longleftrightarrow> keyCompare ty = (=)"

definition dict_map :: "('k, 'v) dict \<Rightarrow> 'k \<rightharpoonup> 'v" where
  "dict_map d = map_of (entries d)"

lemma map_of_mset: "mset xs = mset ys \<Longrightarrow> distinct (map fst xs) \<Longrightarrow> map_of xs = map_of ys"
  by (metis distinct_mset_cong map_of_inject_set mset_eq_setD)

lemma same_content_map: "dict_inv ty d \<Longrightarrow> same_content ty d d' \<Longrightarrow> dict_map d' = dict_map d"
  unfolding same_content_def dict_map_def using map_of_mset dict_invD(3) by metis

lemma chain_pos_Some: "chain_pos (=) k c = Some p \<Longrightarrow> p < length c \<and> fst (c ! p) = k"
  by (induction c arbitrary: p) (auto split: if_splits)

lemma chain_pos_None: "chain_pos (=) k c = None \<longleftrightarrow> k \<notin> fst ` set c"
  by (induction c) auto

lemma key_in_table:
  assumes "ht_ok ty t" "ht_size_exp t \<noteq> - 1"
  shows "k \<in> fst ` set (ht_entries t) \<longleftrightarrow> k \<in> fst ` set (ht_table t ! hash_index ty t k)"
proof
  assume "k \<in> fst ` set (ht_entries t)"
  then obtain c e where c: "c \<in> set (ht_table t)" "e \<in> set c" "k = fst e"
    by (auto simp: ht_entries_def)
  then obtain i where "i < length (ht_table t)" "c = ht_table t ! i" by (metis in_set_conv_nth)
  with c show "k \<in> fst ` set (ht_table t ! hash_index ty t k)" using ht_ok_index [OF assms(1)] by auto
next
  assume "k \<in> fst ` set (ht_table t ! hash_index ty t k)"
  then show "k \<in> fst ` set (ht_entries t)"
    using nth_mem [OF hash_index_less [OF assms, of k]] by (auto simp: ht_entries_def)
qed

lemma get_ht_simps [simp]: "get_ht d 0 = ht0 d" "get_ht d 1 = ht1 d" "get_ht d (Suc 0) = ht1 d"
  by (simp_all add: get_ht_def)

text \<open>A link points to an entry for the key.\<close>

definition link_to :: "('k, 'v) dict \<Rightarrow> 'k \<Rightarrow> link \<Rightarrow> bool" where
  "link_to d k l \<longleftrightarrow>
     (case l of (table, i, p) \<Rightarrow>
        table \<le> 1 \<and> i < length (ht_table (get_ht d table)) \<and> p < length (ht_table (get_ht d table) ! i) \<and>
        fst (ht_table (get_ht d table) ! i ! p) = k)"

lemma search_table_correct:
  assumes "dict_inv ty d" "type_ok ty" "table \<le> 1" "ht_size_exp (get_ht d table) \<noteq> - 1"
  shows "\<exists>p. search_table ty d table k = Some (hash_index ty (get_ht d table) k, p) \<and>
    (case p of None \<Rightarrow> k \<notin> fst ` set (ht_entries (get_ht d table))
     | Some p \<Rightarrow> link_to d k (table, hash_index ty (get_ht d table) k, p))"
proof -
  let ?t = "get_ht d table"
  have ok: "ht_ok ty ?t" using dict_invD(1,2) [OF assms(1)] by (simp add: get_ht_def)
  show ?thesis
    using bucket_hash [OF ok assms(4), of k] hash_index_less [OF ok assms(4), of k] key_in_table [OF ok assms(4), of k]
      assms(2,3) chain_pos_Some [of k "ht_table ?t ! hash_index ty ?t k"] chain_pos_None [of k "ht_table ?t ! hash_index ty ?t k"]
    by (auto simp: search_table_def type_ok_def link_to_def split: option.split)
qed

lemma search_tables_correct:
  assumes inv: "dict_inv ty d" and ty: "type_ok ty" and e: "ht_size_exp (ht0 d) \<noteq> - 1"
    and idx: "0 < rehashidx d \<Longrightarrow> idx = hash_index ty (ht0 d) k"
  shows "\<exists>l b. search_tables ty d idx k = Some (l, b) \<and>
    (case l of None \<Rightarrow> k \<notin> fst ` set (entries d) \<and>
                 b = (let t = if dictIsRehashing d then 1 else 0 in (t, hash_index ty (get_ht d t) k, 0))
     | Some l \<Rightarrow> link_to d k l)"
proof -
  note D = dict_invD [OF inv]
  obtain p0 where p0: "search_table ty d 0 k = Some (hash_index ty (ht0 d) k, p0)"
      "case p0 of None \<Rightarrow> k \<notin> fst ` set (ht_entries (ht0 d)) | Some p \<Rightarrow> link_to d k (0, hash_index ty (ht0 d) k, p)"
    using search_table_correct [OF inv ty, of 0 k, unfolded get_ht_simps] e by blast
  have skip: "k \<notin> fst ` set (ht_entries (ht0 d))" if "int idx < rehashidx d"
    using that idx key_in_table [OF D(1) e, of k] D(6) [of idx] by auto
  show ?thesis
  proof (cases "dictIsRehashing d")
    case False
    then have "\<not> int idx < rehashidx d" "ht_entries (ht1 d) = []" using D(4) by (auto simp: dictIsRehashing_def)
    then show ?thesis
      using p0 False by (auto simp: search_tables_def entries_def get_ht_def split: option.splits)
  next
    case True
    obtain p1 where p1: "search_table ty d 1 k = Some (hash_index ty (ht1 d) k, p1)"
        "case p1 of None \<Rightarrow> k \<notin> fst ` set (ht_entries (ht1 d)) | Some p \<Rightarrow> link_to d k (1, hash_index ty (ht1 d) k, p)"
      using search_table_correct [OF inv ty, of 1 k, unfolded get_ht_simps] D(5) [OF True] by blast
    then show ?thesis
      using p0 p1 True skip by (auto simp: search_tables_def entries_def get_ht_def split: option.splits)
  qed
qed

text \<open>The effect on the map of adding, replacing and removing one entry.\<close>

lemma map_of_split:
  assumes "distinct (map fst E)" "(k, v) \<in> set E"
  obtains F where "mset E = add_mset (k, v) (mset F)" "k \<notin> fst ` set F" "distinct (map fst F)"
    "map_of E = (map_of F)(k \<mapsto> v)"
proof
  let ?F = "remove1 (k, v) E"
  show E: "mset E = add_mset (k, v) (mset ?F)" using assms(2) by simp
  then have "mset E = mset ((k, v) # ?F)" by simp
  then show "k \<notin> fst ` set ?F" "distinct (map fst ?F)" "map_of E = (map_of ?F)(k \<mapsto> v)"
    using distinct_mset_cong [of E "(k, v) # ?F"] map_of_mset [of E "(k, v) # ?F"] assms(1) by auto
qed

lemma map_of_add:
  assumes "distinct (map fst E)" "k \<notin> fst ` set E" "mset E' = add_mset (k, v) (mset E)"
  shows "distinct (map fst E')" "map_of E' = (map_of E)(k \<mapsto> v)"
  using distinct_mset_cong [of E' "(k, v) # E"] map_of_mset [of E' "(k, v) # E"] assms by auto

lemma map_of_replace:
  assumes "distinct (map fst E)" "(k, v) \<in> set E" "add_mset (k, v) (mset E') = add_mset (k, v') (mset E)"
  shows "distinct (map fst E')" "map_of E' = (map_of E)(k \<mapsto> v')"
proof -
  obtain F where F: "mset E = add_mset (k, v) (mset F)" "k \<notin> fst ` set F" "distinct (map fst F)"
      "map_of E = (map_of F)(k \<mapsto> v)"
    using map_of_split [OF assms(1,2)] .
  have "mset E' = add_mset (k, v') (mset F)" using assms(3) F(1) by simp
  then show "distinct (map fst E')" "map_of E' = (map_of E)(k \<mapsto> v')"
    using map_of_add [OF F(3,2)] F(4) by simp_all
qed

lemma map_of_remove:
  assumes "distinct (map fst E)" "(k, v) \<in> set E" "add_mset (k, v) (mset E') = mset E"
  shows "distinct (map fst E')" "map_of E' = (map_of E)(k := None)"
proof -
  obtain F where F: "mset E = add_mset (k, v) (mset F)" "k \<notin> fst ` set F" "distinct (map fst F)"
      "map_of E = (map_of F)(k \<mapsto> v)"
    using map_of_split [OF assms(1,2)] .
  have eq: "mset E' = mset F" using assms(3) F(1) by simp
  then show "distinct (map fst E')" using distinct_mset_cong F(3) by blast
  have "map_of F k = None" using F(2) by (simp add: map_of_eq_None_iff)
  then show "map_of E' = (map_of E)(k := None)" using map_of_mset [OF eq [symmetric] F(3)] F(4) by (auto simp: fun_eq_iff)
qed

text \<open>Replacing one chain of a dictionary.\<close>

definition put_chain :: "('k, 'v) dict \<Rightarrow> nat \<Rightarrow> nat \<Rightarrow> ('k \<times> 'v) list \<Rightarrow> nat \<Rightarrow> ('k, 'v) dict" where
  "put_chain d table i c n =
     set_ht d table ((get_ht d table)\<lparr>ht_table := (ht_table (get_ht d table))[i := c], ht_used := n\<rparr>)"

lemma put_chain_mset:
  assumes "table \<le> 1" "i < length (ht_table (get_ht d table))"
  shows "mset (entries (put_chain d table i c n)) + mset (ht_table (get_ht d table) ! i) = mset (entries d) + mset c"
proof -
  consider "table = 0" | "table = 1" using assms(1) by linarith
  then show ?thesis
    using mset_concat_update [OF assms(2), of c]
    by cases (simp_all add: put_chain_def set_ht_def entries_def ht_entries_def)
qed

lemma put_chain_inv:
  assumes inv: "dict_inv ty d" and tab: "table \<le> 1" and i: "i < length (ht_table (get_ht d table))"
    and c: "\<forall>e \<in> set c. hash_index ty (get_ht d table) (fst e) = i"
    and n: "n + length (ht_table (get_ht d table) ! i) = ht_used (get_ht d table) + length c"
    and dist: "distinct (map fst (entries (put_chain d table i c n)))"
    and front: "table = 0 \<Longrightarrow> \<not> int i < rehashidx d"
  shows "dict_inv ty (put_chain d table i c n)"
proof -
  note D = dict_invD [OF inv]
  have ok: "ht_ok ty (get_ht d table)" using D(1,2) by (simp add: get_ht_def)
  note ok' = ht_ok_set_bucket [OF ok i c n]
  consider "table = 0" | "table = 1" using tab by linarith
  then show ?thesis
  proof cases
    case 1
    then have "(ht_table (ht0 d))[i := c] ! j = []" if "int j < rehashidx d" for j
      using that D(6) [of j] front by (cases "j = i") auto
    then show ?thesis
      using 1 inv ok' dist by (auto simp: put_chain_def set_ht_def dict_inv_def)
  next
    case 2
    then have "dictIsRehashing d" using i D(4) by (cases "dictIsRehashing d") (simp_all add: dictReset_def)
    then show ?thesis using 2 inv ok' dist by (simp add: put_chain_def set_ht_def dict_inv_def dictIsRehashing_def)
  qed
qed

lemma put_chain_fields [simp]:
  "rehashidx (put_chain d table i c n) = rehashidx d" "pauserehash (put_chain d table i c n) = pauserehash d"
  "pauseAutoResize (put_chain d table i c n) = pauseAutoResize d"
  by (simp_all add: put_chain_def set_ht_def)

lemma mset_swap:
  assumes "A + C = B + C'" "add_mset x C' = add_mset y C"
  shows "add_mset x A = add_mset y (B :: 'a multiset)"
proof -
  have "add_mset x A + C = B + add_mset x C'" using assms(1) by simp
  also have "\<dots> = add_mset y B + C" using assms(2) by simp
  finally show ?thesis by (rule add_right_imp_eq)
qed

lemma mset_drop:
  assumes "A + C = B + C'" "add_mset x C' = C"
  shows "add_mset x A = (B :: 'a multiset)"
proof -
  have "add_mset x A + C = B + add_mset x C'" using assms(1) by simp
  also have "\<dots> = B + C" using assms(2) by simp
  finally show ?thesis by (rule add_right_imp_eq)
qed

text \<open>What a link to a key gives.\<close>

lemma link_toD:
  assumes "dict_inv ty d" "link_to d k (table, i, p)"
  shows "table \<le> 1" "i < length (ht_table (get_ht d table))" "p < length (ht_table (get_ht d table) ! i)"
    "ht_table (get_ht d table) ! i ! p \<in> set (entries d)" "fst (ht_table (get_ht d table) ! i ! p) = k"
    "hash_index ty (get_ht d table) k = i" "table = 0 \<Longrightarrow> \<not> int i < rehashidx d"
proof -
  show l: "table \<le> 1" "i < length (ht_table (get_ht d table))" "p < length (ht_table (get_ht d table) ! i)"
      "fst (ht_table (get_ht d table) ! i ! p) = k"
    using assms(2) by (simp_all add: link_to_def)
  have mem: "ht_table (get_ht d table) ! i ! p \<in> set (ht_table (get_ht d table) ! i)" using l(3) by simp
  then have "ht_table (get_ht d table) ! i ! p \<in> set (ht_entries (get_ht d table))"
    using nth_mem [OF l(2)] by (auto simp: ht_entries_def)
  then show "ht_table (get_ht d table) ! i ! p \<in> set (entries d)" by (simp add: entries_def get_ht_def split: if_splits)
  have "ht_ok ty (get_ht d table)" using dict_invD(1,2) [OF assms(1)] by (simp add: get_ht_def)
  then show "hash_index ty (get_ht d table) k = i" using ht_ok_index [OF _ l(2) mem] l(4) by simp
  show "table = 0 \<Longrightarrow> \<not> int i < rehashidx d" using dict_invD(6) [OF assms(1), of i] l(3) by auto
qed

lemma deref_link:
  assumes "dict_inv ty d" "link_to d k l"
  shows "\<exists>v. deref d l = Some (k, v) \<and> dict_map d k = Some v"
proof -
  obtain table i p where l: "l = (table, i, p)" by (cases l)
  note L = link_toD [OF assms(1), of k table i p]
  obtain v where v: "ht_table (get_ht d table) ! i ! p = (k, v)"
    using L(5) assms(2) l by (metis prod.collapse)
  then have "dict_map d k = Some v"
    using L(4) assms dict_invD(3) [OF assms(1)] l by (simp add: dict_map_def)
  then show ?thesis using L(2,3) assms(2) l v by (simp add: deref_def bucket_def)
qed

text \<open>An operation that changes the map in a given way and leaves the two pause counters alone.\<close>

definition becomes :: "'k dictType \<Rightarrow> ('k, 'v) dict \<Rightarrow> ('k \<rightharpoonup> 'v) \<Rightarrow> ('k, 'v) dict \<Rightarrow> bool" where
  "becomes ty d m d' \<longleftrightarrow>
     dict_inv ty d' \<and> dict_map d' = m \<and> pauserehash d' = pauserehash d \<and> pauseAutoResize d' = pauseAutoResize d"

lemma becomes_same: "dict_inv ty d \<Longrightarrow> same_content ty d d' \<Longrightarrow> becomes ty d (dict_map d) d'"
  using same_content_map [of ty d d'] by (simp add: becomes_def same_content_def)

lemma becomes_trans: "becomes ty d m d' \<Longrightarrow> becomes ty d' m' d'' \<Longrightarrow> becomes ty d m' d''"
  by (simp add: becomes_def)

lemma dictSetVal_correct:
  assumes inv: "dict_inv ty d" and l: "link_to d k l"
  shows "\<exists>d'. dictSetVal d l v = Some d' \<and> becomes ty d ((dict_map d)(k \<mapsto> v)) d'"
proof -
  obtain table i p where [simp]: "l = (table, i, p)" by (cases l)
  note L = link_toD [OF inv l [simplified]]
  let ?c = "ht_table (get_ht d table) ! i"
  obtain v0 where v0: "?c ! p = (k, v0)" using L(5) by (metis prod.collapse)
  let ?d = "put_chain d table i (?c[p := (k, v)]) (ht_used (get_ht d table))"
  have eq: "dictSetVal d l v = Some ?d"
    using L(2,3) v0 by (simp add: dictSetVal_def deref_def set_entry_def bucket_def put_chain_def set_bucket_def)
  have "add_mset (k, v0) (mset (?c[p := (k, v)])) = add_mset (k, v) (mset ?c)"
    using L(3) v0 by (simp add: mset_update) (metis insert_DiffM nth_mem_mset)
  then have "add_mset (k, v0) (mset (entries ?d)) = add_mset (k, v) (mset (entries d))"
    by (rule mset_swap [OF put_chain_mset [OF L(1,2)]])
  note swap = this
  have "(k, v0) \<in> set (entries d)" using L(4) v0 by simp
  note m = map_of_replace [OF dict_invD(3) [OF inv] this swap, folded dict_map_def]
  have ok: "ht_ok ty (get_ht d table)" using dict_invD(1,2) [OF inv] by (simp add: get_ht_def)
  have "\<forall>e \<in> set (?c[p := (k, v)]). hash_index ty (get_ht d table) (fst e) = i"
    using L(6) ht_ok_index [OF ok L(2)] set_update_subset_insert [of ?c p "(k, v)"] by auto
  then have "dict_inv ty ?d" using m(1) L(7) by (intro put_chain_inv [OF inv L(1,2)]) simp_all
  then show ?thesis using eq m(2) by (simp add: becomes_def)
qed

lemma mset_remove_at: "p < length c \<Longrightarrow> add_mset (c ! p) (mset (remove_at p c)) = mset c"
  by (subst (3) id_take_nth_drop, assumption) (simp add: remove_at_def)

lemma unlink_correct:
  assumes inv: "dict_inv ty d" and l: "link_to d k l"
  shows "\<exists>d' v. unlink d l = Some (d', (k, v)) \<and> dict_map d k = Some v \<and> becomes ty d ((dict_map d)(k := None)) d'"
proof -
  obtain table i p where [simp]: "l = (table, i, p)" by (cases l)
  note L = link_toD [OF inv l [simplified]]
  let ?c = "ht_table (get_ht d table) ! i" and ?t = "get_ht d table"
  obtain v where v: "?c ! p = (k, v)" using L(5) by (metis prod.collapse)
  let ?d = "put_chain d table i (remove_at p ?c) (ht_used ?t - 1)"
  have ok: "ht_ok ty ?t" using dict_invD(1,2) [OF inv] by (simp add: get_ht_def)
  have "length ?c \<le> ht_used ?t"
    using length_concat_update [OF L(2), of "[]"] ht_used_entries [OF ok] by (simp add: ht_entries_def)
  then have used: "0 < ht_used ?t" using L(3) by linarith
  have eq: "unlink d l = Some (?d, (k, v))"
    using L(2,3) v used by (simp add: unlink_def bucket_def put_chain_def set_bucket_def used_dec_def)
  have "add_mset (k, v) (mset (remove_at p ?c)) = mset ?c" using mset_remove_at [OF L(3)] v by simp
  then have "add_mset (k, v) (mset (entries ?d)) = mset (entries d)"
    by (rule mset_drop [OF put_chain_mset [OF L(1,2)]])
  note swap = this
  have mem: "(k, v) \<in> set (entries d)" using L(4) v by simp
  note m = map_of_remove [OF dict_invD(3) [OF inv] this swap, folded dict_map_def]
  have "\<forall>e \<in> set (remove_at p ?c). hash_index ty ?t (fst e) = i"
    using ht_ok_index [OF ok L(2)] by (auto simp: remove_at_def dest: in_set_takeD in_set_dropD)
  moreover have "length (remove_at p ?c) + 1 = length ?c" using L(3) by (simp add: remove_at_def)
  ultimately have "dict_inv ty ?d" using m(1) L(7) used by (intro put_chain_inv [OF inv L(1,2)]) simp_all
  moreover have "dict_map d k = Some v" using mem dict_invD(3) [OF inv] by (simp add: dict_map_def)
  ultimately show ?thesis using eq m(2) by (simp add: becomes_def)
qed

lemma dictInsert_correct:
  assumes inv: "dict_inv ty d" and e: "ht_size_exp (ht0 d) \<noteq> - 1" and new: "k \<notin> fst ` set (entries d)"
    and b: "b = (let t = if dictIsRehashing d then 1 else 0 in (t, hash_index ty (get_ht d t) k, 0))"
  shows "\<exists>d'. dictInsertKeyAtLink d k v b = Some d' \<and> becomes ty d ((dict_map d)(k \<mapsto> v)) d' \<and> link_to d' k b"
proof -
  define table :: nat where "table = (if dictIsRehashing d then 1 else 0)"
  let ?t = "get_ht d table"
  define i where "i = hash_index ty ?t k"
  have tab: "table \<le> 1" "b = (table, i, 0)" using b by (simp_all add: table_def i_def Let_def)
  have ok: "ht_ok ty ?t" using dict_invD(1,2) [OF inv] by (simp add: get_ht_def)
  have te: "ht_size_exp ?t \<noteq> - 1" using e dict_invD(5) [OF inv] by (simp add: table_def)
  have i: "i < length (ht_table ?t)" unfolding i_def by (rule hash_index_less [OF ok te])
  let ?c = "ht_table ?t ! i"
  let ?d = "put_chain d table i ((k, v) # ?c) (ht_used ?t + 1)"
  have eq: "dictInsertKeyAtLink d k v b = Some ?d"
    using i unfolding dictInsertKeyAtLink_def tab(2) table_def [symmetric]
    by (simp add: bucket_def put_chain_def set_bucket_def used_inc_def)
  have "mset (entries ?d) = add_mset (k, v) (mset (entries d))"
    using put_chain_mset [OF tab(1) i, of "(k, v) # ?c"] by simp
  then have m: "distinct (map fst (entries ?d))" "dict_map ?d = (dict_map d)(k \<mapsto> v)"
    using map_of_add [OF dict_invD(3) [OF inv] new] by (simp_all add: dict_map_def)
  have "\<forall>e \<in> set ((k, v) # ?c). hash_index ty ?t (fst e) = i" using ht_ok_index [OF ok i] by (auto simp: i_def)
  then have "dict_inv ty ?d"
    using m(1) dict_invD(5) [OF inv]
    by (intro put_chain_inv [OF inv tab(1) i]) (auto simp: table_def dictIsRehashing_def split: if_splits)
  moreover have "link_to ?d k b"
    using i tab by (auto simp: link_to_def put_chain_def set_ht_def get_ht_def)
  ultimately show ?thesis using eq m(2) by (simp add: becomes_def)
qed

text \<open>Lookup after a rehashing step.\<close>

lemma search_after_step:
  assumes inv: "dict_inv ty d" and ty: "type_ok ty" and e: "ht_size_exp (ht0 d) \<noteq> - 1" and st: "rehash_step ty d d'"
    and e': "ht_size_exp (ht0 d') \<noteq> - 1"
  shows "\<exists>l b. search_tables ty d' (hash_index ty (ht0 d) k) k = Some (l, b) \<and>
    (case l of None \<Rightarrow> dict_map d k = None | Some l \<Rightarrow> link_to d' k l)"
proof -
  have inv': "dict_inv ty d'" using st by (simp add: rehash_step_def same_content_def)
  have "0 < rehashidx d' \<Longrightarrow> hash_index ty (ht0 d) k = hash_index ty (ht0 d') k"
    using st by (simp add: rehash_step_def dictIsRehashing_def hash_index_def)
  then obtain l b where "search_tables ty d' (hash_index ty (ht0 d) k) k = Some (l, b)"
      "case l of None \<Rightarrow> k \<notin> fst ` set (entries d') \<and>
         b = (let t = if dictIsRehashing d' then 1 else 0 in (t, hash_index ty (get_ht d' t) k, 0))
       | Some l \<Rightarrow> link_to d' k l"
    using search_tables_correct [OF inv' ty e', of "hash_index ty (ht0 d) k" k] by blast
  moreover have "dict_map d = dict_map d'" using same_content_map [OF inv] st by (simp add: rehash_step_def)
  moreover have "k \<notin> fst ` set (entries d') \<longleftrightarrow> dict_map d' k = None" by (simp add: dict_map_def map_of_eq_None_iff)
  ultimately show ?thesis by (cases l; cases b) auto
qed

lemma empty_map: "dict_inv ty d \<Longrightarrow> dictSize d = 0 \<Longrightarrow> dict_map d = Map.empty"
  using dictSize_entries [of ty d] by (simp add: dict_map_def)

lemma dictFind_correct:
  assumes inv: "dict_inv ty d" and ty: "type_ok ty"
  shows "\<exists>d'. dictFind ty can d k = Some (d', map_option (Pair k) (dict_map d k)) \<and> becomes ty d (dict_map d) d'"
proof (cases "dictSize d = 0")
  case True
  then show ?thesis
    using inv empty_map [OF inv True] by (simp add: dictFind_def dictFindLink_def becomes_def)
next
  case False
  obtain d' where d': "dictRehashStepIfNeeded ty can d (hash_index ty (ht0 d) k) = Some d'" "rehash_step ty d d'"
    using dictRehashStepIfNeeded_correct [OF inv] by blast
  then have sc: "same_content ty d d'" "dict_inv ty d'" by (simp_all add: rehash_step_def same_content_def)
  have e: "ht_size_exp (ht0 d) \<noteq> - 1" "ht_size_exp (ht0 d') \<noteq> - 1"
    using exp_of_entries [OF inv False] exp_of_entries [OF sc(2)] dictSize_same [OF inv sc(1)] False by simp_all
  obtain l b where l: "search_tables ty d' (hash_index ty (ht0 d) k) k = Some (l, b)"
      "case l of None \<Rightarrow> dict_map d k = None | Some l \<Rightarrow> link_to d' k l"
    using search_after_step [OF inv ty e(1) d'(2) e(2)] by blast
  have b: "becomes ty d (dict_map d) d'" by (rule becomes_same [OF inv sc(1)])
  show ?thesis
  proof (cases l)
    case None
    then show ?thesis
      using False d'(1) l b by (simp add: dictFind_def dictFindLink_def dictFindLinkInternal_def)
  next
    case (Some l')
    then obtain v where "deref d' l' = Some (k, v)" "dict_map d' k = Some v" using deref_link [OF sc(2), of k l'] l(2) by auto
    then show ?thesis
      using False d'(1) l b Some same_content_map [OF inv sc(1)]
      by (simp add: dictFind_def dictFindLink_def dictFindLinkInternal_def)
  qed
qed

lemma dictFetchValue_correct:
  assumes "dict_inv ty d" "type_ok ty"
  shows "\<exists>d'. dictFetchValue ty can d k = Some (d', dict_map d k) \<and> becomes ty d (dict_map d) d'"
  using dictFind_correct [OF assms, of can k] by (auto simp: dictFetchValue_def option.map_comp comp_def option.map_ident)

lemma dictGenericDelete_correct:
  assumes inv: "dict_inv ty d" and ty: "type_ok ty"
  shows "\<exists>d'. dictGenericDelete ty can d k = Some (d', map_option (Pair k) (dict_map d k)) \<and>
    becomes ty d ((dict_map d)(k := None)) d'"
proof (cases "dictSize d = 0")
  case True
  then show ?thesis
    using inv empty_map [OF inv True] by (simp add: dictGenericDelete_def becomes_def)
next
  case False
  obtain d' where d': "dictRehashStepIfNeeded ty can d (hash_index ty (ht0 d) k) = Some d'" "rehash_step ty d d'"
    using dictRehashStepIfNeeded_correct [OF inv] by blast
  then have sc: "same_content ty d d'" "dict_inv ty d'" by (simp_all add: rehash_step_def same_content_def)
  have e: "ht_size_exp (ht0 d) \<noteq> - 1" "ht_size_exp (ht0 d') \<noteq> - 1"
    using exp_of_entries [OF inv False] exp_of_entries [OF sc(2)] dictSize_same [OF inv sc(1)] False by simp_all
  obtain l b where l: "search_tables ty d' (hash_index ty (ht0 d) k) k = Some (l, b)"
      "case l of None \<Rightarrow> dict_map d k = None | Some l \<Rightarrow> link_to d' k l"
    using search_after_step [OF inv ty e(1) d'(2) e(2)] by blast
  have map: "dict_map d' = dict_map d" by (rule same_content_map [OF inv sc(1)])
  have b: "becomes ty d (dict_map d) d'" by (rule becomes_same [OF inv sc(1)])
  show ?thesis
  proof (cases l)
    case None
    then have "(dict_map d)(k := None) = dict_map d" using l(2) by (auto simp: fun_eq_iff)
    then show ?thesis using None False d'(1) l b by (simp add: dictGenericDelete_def)
  next
    case (Some l')
    then obtain d2 v where d2: "unlink d' l' = Some (d2, (k, v))" "dict_map d' k = Some v"
        "becomes ty d' ((dict_map d')(k := None)) d2"
      using unlink_correct [OF sc(2), of k l'] l(2) by auto
    then have inv2: "dict_inv ty d2" by (simp add: becomes_def)
    obtain d3 where d3: "dictShrinkIfAutoResize ty can d2 = Some d3" "resize_step ty d2 d3"
      using dictShrinkIfAutoResize_correct [OF inv2] by blast
    have "becomes ty d2 (dict_map d2) d3" using becomes_same [OF inv2] d3(2) by (simp add: resize_step_def)
    then have "becomes ty d ((dict_map d)(k := None)) d3"
      using d2(3) b map by (simp add: becomes_def)
    then show ?thesis using Some False d'(1) l(1) d2(1,2) d3(1) map by (simp add: dictGenericDelete_def)
  qed
qed

text \<open>A key can be added unless the table is unallocated and automatic resizing is paused.\<close>

definition can_grow :: "('k, 'v) dict \<Rightarrow> bool" where
  "can_grow d \<longleftrightarrow> pauseAutoResize d \<le> 0 \<or> ht_size_exp (ht0 d) \<noteq> - 1"

lemma dictExpand_alloc:
  assumes inv: "dict_inv ty d" and "can_grow d" and ex: "dictExpandIfAutoResize ty can d = Some (d', ok)"
  shows "ht_size_exp (ht0 d') \<noteq> - 1"
proof (cases "ht_size_exp (ht0 d) = - 1")
  case True
  then have "\<not> dictIsRehashing d" using dict_invD(5) [OF inv] by blast
  moreover have "ht0 d = dictReset" using dict_invD(1) [OF inv] True by (simp add: ht_ok_def)
  ultimately have "ht_size_exp (ht0 d') = dictNextExp DICT_HT_INITIAL_SIZE"
    using assms(2) ex True
    by (auto simp: can_grow_def dictExpandIfAutoResize_def dictExpandIfNeeded_def dictExpand_def dictExpand_gen_def
        dictResize_def DICTHT_SIZE_def dictReset_def Let_def DICT_HT_INITIAL_SIZE_def dictNextExp_def
        DICT_HT_INITIAL_EXP_def split: if_splits)
  then show ?thesis using dictNextExp_bounds [of DICT_HT_INITIAL_SIZE] by simp
next
  case False
  then show ?thesis using dictExpandIfAutoResize_correct [OF inv, of can] ex by (auto simp: resize_step_def)
qed

lemma dictFindLinkForInsert_correct:
  assumes inv: "dict_inv ty d" and ty: "type_ok ty" and grow: "can_grow d"
  shows "\<exists>d' position existing. dictFindLinkForInsert ty can d k = Some (d', position, existing) \<and>
    same_content ty d d' \<and> ht_size_exp (ht0 d') \<noteq> - 1 \<and>
    (case position of
       Some b \<Rightarrow> existing = None \<and> k \<notin> fst ` set (entries d') \<and>
         b = (let t = if dictIsRehashing d' then 1 else 0 in (t, hash_index ty (get_ht d' t) k, 0))
     | None \<Rightarrow> \<exists>l. existing = Some l \<and> link_to d' k l)"
proof -
  let ?i = "hash_index ty (ht0 d) k"
  obtain d1 where d1: "dictRehashStepIfNeeded ty can d ?i = Some d1" "rehash_step ty d d1"
    using dictRehashStepIfNeeded_correct [OF inv] by blast
  then have inv1: "dict_inv ty d1" and sc1: "same_content ty d d1" by (simp_all add: rehash_step_def same_content_def)
  have grow1: "can_grow d1"
    using grow d1(2) sc1 by (auto simp: can_grow_def rehash_step_def same_content_def)
  obtain d2 ok where d2: "dictExpandIfAutoResize ty can d1 = Some (d2, ok)" "resize_step ty d1 d2"
    using dictExpandIfAutoResize_correct [OF inv1] by blast
  have inv2: "dict_inv ty d2" and sc2: "same_content ty d d2"
    using d2(2) same_content_trans [OF sc1] by (auto simp: resize_step_def same_content_def)
  have e2: "ht_size_exp (ht0 d2) \<noteq> - 1" by (rule dictExpand_alloc [OF inv1 grow1 d2(1)])
  have "?i = hash_index ty (ht0 d2) k" if "0 < rehashidx d2"
    using that d2(2) d1(2) by (auto simp: resize_step_def rehash_step_def dictIsRehashing_def hash_index_def)
  then obtain l b where l: "search_tables ty d2 ?i k = Some (l, b)"
      "case l of None \<Rightarrow> k \<notin> fst ` set (entries d2) \<and>
         b = (let t = if dictIsRehashing d2 then 1 else 0 in (t, hash_index ty (get_ht d2 t) k, 0))
       | Some l \<Rightarrow> link_to d2 k l"
    using search_tables_correct [OF inv2 ty e2, of ?i k] by blast
  show ?thesis
  proof (cases l)
    case None
    then show ?thesis using d1(1) d2(1) l sc2 e2 by (simp add: dictFindLinkForInsert_def)
  next
    case (Some l')
    then show ?thesis using d1(1) d2(1) l sc2 e2 by (simp add: dictFindLinkForInsert_def)
  qed
qed

lemma dictAddRaw_correct:
  assumes inv: "dict_inv ty d" and ty: "type_ok ty" and grow: "can_grow d"
  shows "\<exists>d' entry existing. dictAddRaw ty can junk d k = Some (d', entry, existing) \<and>
    (case dict_map d k of
       None \<Rightarrow> existing = None \<and> becomes ty d ((dict_map d)(k \<mapsto> junk)) d' \<and> (\<exists>l. entry = Some l \<and> link_to d' k l)
     | Some v \<Rightarrow> entry = None \<and> becomes ty d (dict_map d) d' \<and> (\<exists>l. existing = Some l \<and> link_to d' k l))"
proof -
  obtain d1 position existing where d1: "dictFindLinkForInsert ty can d k = Some (d1, position, existing)"
      "same_content ty d d1" "ht_size_exp (ht0 d1) \<noteq> - 1"
      "case position of
         Some b \<Rightarrow> existing = None \<and> k \<notin> fst ` set (entries d1) \<and>
           b = (let t = if dictIsRehashing d1 then 1 else 0 in (t, hash_index ty (get_ht d1 t) k, 0))
       | None \<Rightarrow> \<exists>l. existing = Some l \<and> link_to d1 k l"
    using dictFindLinkForInsert_correct [OF inv ty grow, of can k] by blast
  have inv1: "dict_inv ty d1" and map: "dict_map d1 = dict_map d" and b: "becomes ty d (dict_map d) d1"
    using d1(2) same_content_map [OF inv] becomes_same [OF inv] by (simp_all add: same_content_def)
  show ?thesis
  proof (cases position)
    case None
    then obtain l v where "existing = Some l" "link_to d1 k l" "dict_map d1 k = Some v"
      using d1(4) deref_link [OF inv1] by fastforce
    then show ?thesis using None d1(1) b map by (cases l) (simp add: dictAddRaw_def)
  next
    case (Some p)
    then have p: "existing = None" "k \<notin> fst ` set (entries d1)"
        "p = (let t = if dictIsRehashing d1 then 1 else 0 in (t, hash_index ty (get_ht d1 t) k, 0))"
      using d1(4) by simp_all
    obtain d2 where d2: "dictInsertKeyAtLink d1 k junk p = Some d2" "becomes ty d1 ((dict_map d1)(k \<mapsto> junk)) d2"
        "link_to d2 k p"
      using dictInsert_correct [OF inv1 d1(3) p(2,3)] by blast
    have "dict_map d1 k = None" using p(2) by (simp add: dict_map_def map_of_eq_None_iff)
    then have "dict_map d k = None" using map by simp
    moreover have "becomes ty d ((dict_map d)(k \<mapsto> junk)) d2" using becomes_trans [OF b d2(2)] map by simp
    ultimately show ?thesis using Some d1(1) d2(1,3) by (cases p) (simp add: dictAddRaw_def)
  qed
qed

lemma dictAdd_correct:
  assumes inv: "dict_inv ty d" and ty: "type_ok ty" and grow: "can_grow d"
  shows "\<exists>d'. dictAdd ty can junk d k v = Some (d', dict_map d k = None) \<and>
    becomes ty d (if dict_map d k = None then (dict_map d)(k \<mapsto> v) else dict_map d) d'"
proof -
  obtain d1 entry existing where d1: "dictAddRaw ty can junk d k = Some (d1, entry, existing)"
    "case dict_map d k of
       None \<Rightarrow> existing = None \<and> becomes ty d ((dict_map d)(k \<mapsto> junk)) d1 \<and> (\<exists>l. entry = Some l \<and> link_to d1 k l)
     | Some v \<Rightarrow> entry = None \<and> becomes ty d (dict_map d) d1 \<and> (\<exists>l. existing = Some l \<and> link_to d1 k l)"
    using dictAddRaw_correct [OF assms, of can junk k] by blast
  show ?thesis
  proof (cases "dict_map d k")
    case (Some v0)
    then show ?thesis using d1 by (auto simp: dictAdd_def)
  next
    case None
    then obtain l where l: "entry = Some l" "link_to d1 k l" "becomes ty d ((dict_map d)(k \<mapsto> junk)) d1"
      using d1(2) by auto
    obtain d2 where "dictSetVal d1 l v = Some d2" "becomes ty d1 ((dict_map d1)(k \<mapsto> v)) d2"
      using dictSetVal_correct [OF _ l(2)] l(3) by (auto simp: becomes_def)
    then show ?thesis using None d1(1) l by (auto simp: dictAdd_def becomes_def)
  qed
qed

lemma dictReplace_correct:
  assumes inv: "dict_inv ty d" and ty: "type_ok ty" and grow: "can_grow d"
  shows "\<exists>d'. dictReplace ty can junk d k v = Some (d', dict_map d k = None) \<and> becomes ty d ((dict_map d)(k \<mapsto> v)) d'"
proof -
  obtain d1 entry existing where d1: "dictAddRaw ty can junk d k = Some (d1, entry, existing)"
    "case dict_map d k of
       None \<Rightarrow> existing = None \<and> becomes ty d ((dict_map d)(k \<mapsto> junk)) d1 \<and> (\<exists>l. entry = Some l \<and> link_to d1 k l)
     | Some v \<Rightarrow> entry = None \<and> becomes ty d (dict_map d) d1 \<and> (\<exists>l. existing = Some l \<and> link_to d1 k l)"
    using dictAddRaw_correct [OF assms, of can junk k] by blast
  obtain l where l: "(if dict_map d k = None then entry else existing) = Some l" "link_to d1 k l"
      "dict_map d k \<noteq> None \<Longrightarrow> entry = None" "dict_inv ty d1" "pauserehash d1 = pauserehash d"
      "pauseAutoResize d1 = pauseAutoResize d" "(dict_map d1)(k \<mapsto> v) = (dict_map d)(k \<mapsto> v)"
    using d1(2) by (cases "dict_map d k") (auto simp: becomes_def)
  obtain d2 where "dictSetVal d1 l v = Some d2" "becomes ty d1 ((dict_map d1)(k \<mapsto> v)) d2"
    using dictSetVal_correct [OF l(4,2)] by blast
  then show ?thesis
    using d1(1) l by (cases "dict_map d k = None") (auto simp: dictReplace_def becomes_def)
qed

lemma dictTwoPhase_correct:
  assumes inv: "dict_inv ty d" and ty: "type_ok ty"
  shows "\<exists>d1 l d2. dictTwoPhaseUnlinkFind ty can d k = Some (d1, l) \<and> (l = None \<longleftrightarrow> dict_map d k = None) \<and>
    dict_map d1 = dict_map d \<and> dictTwoPhaseUnlinkFree ty can' d1 l = Some d2 \<and> becomes ty d ((dict_map d)(k := None)) d2"
proof (cases "dictSize d = 0")
  case True
  then show ?thesis
    using inv empty_map [OF inv True]
    by (simp add: dictTwoPhaseUnlinkFind_def dictTwoPhaseUnlinkFree_def becomes_def)
next
  case False
  obtain d' where d': "(if dictIsRehashing d then dictRehashStep ty can d else Some d) = Some d'" "rehash_step ty d d'"
  proof (cases "dictIsRehashing d")
    case True
    then show ?thesis using dictRehashStep_correct [OF inv, of can] that by auto
  next
    case False
    then show ?thesis using inv that by auto
  qed
  then have sc: "same_content ty d d'" and inv': "dict_inv ty d'" by (simp_all add: rehash_step_def same_content_def)
  have map: "dict_map d' = dict_map d" by (rule same_content_map [OF inv sc])
  have e: "ht_size_exp (ht0 d') \<noteq> - 1"
    using exp_of_entries [OF inv'] dictSize_same [OF inv sc] False by simp
  obtain l b where l: "search_tables ty d' (hash_index ty (ht0 d') k) k = Some (l, b)"
      "case l of None \<Rightarrow> dict_map d' k = None | Some l \<Rightarrow> link_to d' k l"
    using search_after_step [OF inv' ty e _ e, of k] inv' unfolding rehash_step_refl by blast
  show ?thesis
  proof (cases l)
    case None
    then have "(dict_map d)(k := None) = dict_map d" using l(2) map by (auto simp: fun_eq_iff)
    then show ?thesis
      using None False d'(1) l map becomes_same [OF inv sc]
      by (simp add: dictTwoPhaseUnlinkFind_def dictTwoPhaseUnlinkFree_def)
  next
    case (Some l')
    let ?d = "d'\<lparr>pauserehash := pauserehash d' + 1\<rparr>"
    have invd: "dict_inv ty ?d" "dict_map ?d = dict_map d'" "link_to ?d k l'"
      using inv' l(2) Some
      by (simp_all add: dict_inv_def dict_map_def entries_def link_to_def get_ht_def split: prod.splits if_splits)
    obtain v where v: "deref ?d l' = Some (k, v)" "dict_map ?d k = Some v" using deref_link [OF invd(1,3)] by blast
    obtain d2 w where d2: "unlink ?d l' = Some (d2, (k, w))" "becomes ty ?d ((dict_map ?d)(k := None)) d2"
      using unlink_correct [OF invd(1,3)] by blast
    then have inv2: "dict_inv ty d2" by (simp add: becomes_def)
    obtain d3 where d3: "dictShrinkIfAutoResize ty can' d2 = Some d3" "resize_step ty d2 d3"
      using dictShrinkIfAutoResize_correct [OF inv2] by blast
    have b3: "becomes ty d2 (dict_map d2) d3" using becomes_same [OF inv2] d3(2) by (simp add: resize_step_def)
    then have p3: "pauserehash d3 = pauserehash d + 1" using d2(2) sc by (simp add: becomes_def same_content_def)
    have "becomes ty d ((dict_map d)(k := None)) (d3\<lparr>pauserehash := pauserehash d3 - 1\<rparr>)"
      using b3 d2(2) p3 sc map invd(2) by (simp add: becomes_def same_content_def dict_inv_def dict_map_def entries_def)
    then show ?thesis
      using Some False d'(1) l(1) v d2(1) d3(1) p3 map invd(2)
      by (cases l') (simp add: dictTwoPhaseUnlinkFind_def dictTwoPhaseUnlinkFree_def)
  qed
qed

section \<open>The map interface\<close>

datatype ('k, 'v) map_cmd = Find 'k | Insert 'k 'v | Put 'k 'v | Del 'k | Maintain nat
datatype 'v map_reply = Value "'v option" | Done bool

text \<open>The abstract behaviour: a partial map.\<close>

fun spec_cmd :: "('k \<rightharpoonup> 'v) \<Rightarrow> ('k, 'v) map_cmd \<Rightarrow> ('k \<rightharpoonup> 'v) \<times> 'v map_reply" where
  "spec_cmd m (Find k) = (m, Value (m k))"
| "spec_cmd m (Insert k v) = (if m k = None then (m(k \<mapsto> v), Done True) else (m, Done False))"
| "spec_cmd m (Put k v) = (m(k \<mapsto> v), Done (m k = None))"
| "spec_cmd m (Del k) = (m(k := None), Done (m k \<noteq> None))"
| "spec_cmd m (Maintain n) = (m, Done True)"

fun spec_run :: "('k \<rightharpoonup> 'v) \<Rightarrow> ('x \<times> ('k, 'v) map_cmd) list \<Rightarrow> ('k \<rightharpoonup> 'v) \<times> 'v map_reply list" where
  "spec_run m [] = (m, [])"
| "spec_run m ((x, c) # cs) = (let (m, r) = spec_cmd m c; (m, rs) = spec_run m cs in (m, r # rs))"

fun run_map :: "('x \<Rightarrow> 's \<Rightarrow> ('k, 'v) map_cmd \<Rightarrow> ('s \<times> 'v map_reply) option) \<Rightarrow> 's \<Rightarrow> ('x \<times> ('k, 'v) map_cmd) list
    \<Rightarrow> ('s \<times> 'v map_reply list) option" where
  "run_map step s [] = Some (s, [])"
| "run_map step s ((x, c) # cs) = do { (s, r) \<leftarrow> step x s c; (s, rs) \<leftarrow> run_map step s cs; Some (s, r # rs) }"

locale map_store =
  fixes rep :: "'s \<Rightarrow> ('k \<rightharpoonup> 'v) \<Rightarrow> bool"
    and step :: "'x \<Rightarrow> 's \<Rightarrow> ('k, 'v) map_cmd \<Rightarrow> ('s \<times> 'v map_reply) option"
  assumes step_law: "rep s m \<Longrightarrow> \<exists>s'. step x s c = Some (s', snd (spec_cmd m c)) \<and> rep s' (fst (spec_cmd m c))"
begin

lemma run_refines:
  "rep s m \<Longrightarrow> \<exists>s'. run_map step s cs = Some (s', snd (spec_run m cs)) \<and> rep s' (fst (spec_run m cs))"
proof (induction cs arbitrary: s m)
  case Nil
  then show ?case by simp
next
  case (Cons xc cs)
  obtain x c where xc: "xc = (x, c)" by fastforce
  obtain s' where s': "step x s c = Some (s', snd (spec_cmd m c))" "rep s' (fst (spec_cmd m c))"
    using step_law [OF Cons.prems] by blast
  show ?case using Cons.IH [OF s'(2)] s'(1) xc by (auto simp: split_beta)
qed

end

text \<open>The dictionary as such a store.  Every command comes with the resize policy in force.\<close>

fun dict_cmd :: "'k dictType \<Rightarrow> 'v \<Rightarrow> dictResizeEnable \<Rightarrow> ('k, 'v) dict \<Rightarrow> ('k, 'v) map_cmd
    \<Rightarrow> (('k, 'v) dict \<times> 'v map_reply) option" where
  "dict_cmd ty junk can d (Find k) = map_option (map_prod id Value) (dictFetchValue ty can d k)"
| "dict_cmd ty junk can d (Insert k v) = map_option (map_prod id Done) (dictAdd ty can junk d k v)"
| "dict_cmd ty junk can d (Put k v) = map_option (map_prod id Done) (dictReplace ty can junk d k v)"
| "dict_cmd ty junk can d (Del k) = map_option (map_prod id Done) (dictDelete ty can d k)"
| "dict_cmd ty junk can d (Maintain n) = map_option (map_prod id (\<lambda>_. Done True)) (dictRehash ty can d n)"

definition dict_rep :: "'k dictType \<Rightarrow> ('k, 'v) dict \<Rightarrow> ('k \<rightharpoonup> 'v) \<Rightarrow> bool" where
  "dict_rep ty d m \<longleftrightarrow> type_ok ty \<and> dict_inv ty d \<and> dict_map d = m \<and> pauseAutoResize d = 0"

interpretation dictm: map_store "dict_rep ty" "dict_cmd ty junk" for ty :: "'k dictType" and junk :: 'v
proof
  fix d :: "('k, 'v) dict" and m c and can :: dictResizeEnable
  assume rep: "dict_rep ty d m"
  then have inv: "dict_inv ty d" and ty: "type_ok ty" and m: "dict_map d = m" and grow: "can_grow d"
    by (simp_all add: dict_rep_def can_grow_def)
  have fin: "becomes ty d m' d' \<Longrightarrow> dict_rep ty d' m'" for m' d'
    using rep by (simp add: becomes_def dict_rep_def)
  show "\<exists>d'. dict_cmd ty junk can d c = Some (d', snd (spec_cmd m c)) \<and> dict_rep ty d' (fst (spec_cmd m c))"
  proof (cases c)
    case (Find k)
    then show ?thesis using dictFetchValue_correct [OF inv ty, of can k] m fin by auto
  next
    case (Insert k v)
    then show ?thesis using dictAdd_correct [OF inv ty grow, of can junk k v] m fin by auto
  next
    case (Put k v)
    then show ?thesis using dictReplace_correct [OF inv ty grow, of can junk k v] m fin by auto
  next
    case (Del k)
    then show ?thesis
      using dictGenericDelete_correct [OF inv ty, of can k] m fin by (fastforce simp: dictDelete_def)
  next
    case (Maintain n)
    obtain d' more where d': "dictRehash ty can d n = Some (d', more)" "same_content ty d d'"
      using dictRehash_step [OF inv, of can n] by (auto simp: rehash_step_def)
    then show ?thesis using Maintain fin [OF becomes_same [OF inv d'(2)]] m by simp
  qed
qed

section \<open>Properties\<close>

text \<open>Concrete dictionaries: numbers hashed to themselves, and a table of four buckets whose entries are moving to
  one of eight.\<close>

definition nat_type :: "nat dictType" where
  "nat_type = \<lparr>hashFunction = of_nat, keyCompare = (=), resizeAllowed = (\<lambda>_ _ _. True), force_full_rehash = False\<rparr>"

definition moving_dict :: "(nat, nat) dict" where
  "moving_dict = \<lparr>ht0 = \<lparr>ht_table = [[], [(1, 10), (5, 50)], [], [(3, 30)]], ht_used = 3, ht_size_exp = 2\<rparr>,
     ht1 = \<lparr>ht_table = [[], [], [], [], [], [], [], []], ht_used = 0, ht_size_exp = 3\<rparr>,
     rehashidx = 0, pauserehash = 0, pauseAutoResize = 0\<rparr>"

lemma nat_type_ok: "type_ok nat_type"
  by (simp add: type_ok_def nat_type_def)

lemma all_less_numeral: "(\<forall>i < numeral n. P i) \<longleftrightarrow> (\<forall>i \<in> set [0..<numeral n]. P (i::nat))"
  by auto

lemma moving_dict_inv: "dict_inv nat_type moving_dict"
  by (simp add: dict_inv_def ht_ok_def moving_dict_def nat_type_def DICTHT_SIZE_def DICTHT_SIZE_MASK_def hash_index_def
      ht_entries_def entries_def less_Suc_eq all_less_numeral upt_conv_Cons)

text \<open>C1. A dictionary created empty and used by any sequence of lookups, insertions, replacements, deletions and
  rehashing steps, under any sequence of resize policies, answers every command as a finite map does; it never
  faults, it ends with the invariant, and the entries in its tables are exactly those of the map.\<close>

theorem dict_run_refines:
  assumes "type_ok ty"
  shows "\<exists>d. run_map (dict_cmd ty junk) dictCreate cs = Some (d, snd (spec_run Map.empty cs)) \<and>
    dict_inv ty d \<and> dict_map d = fst (spec_run Map.empty cs) \<and> dictSize d = card (dom (dict_map d))"
proof -
  have "dict_rep ty dictCreate Map.empty"
    using assms by (simp add: dict_rep_def dict_inv_def dictCreate_def dict_map_def entries_def ht_entries_def dictReset_def ht_ok_def)
  from dictm.run_refines [OF this, of junk cs] obtain d where
    d: "run_map (dict_cmd ty junk) dictCreate cs = Some (d, snd (spec_run Map.empty cs))"
      "dict_rep ty d (fst (spec_run Map.empty cs))" by blast
  then have inv: "dict_inv ty d" by (simp add: dict_rep_def)
  have "dictSize d = card (dom (dict_map d))"
    using dictSize_entries [OF inv] dict_invD(3) [OF inv] distinct_card [of "map fst (entries d)"]
    by (simp add: dict_map_def dom_map_of_conv_image_fst)
  then show ?thesis using d inv by (auto simp: dict_rep_def)
qed

theorem dict_run_refines_witness:
  "\<exists>d. run_map (dict_cmd nat_type 0) dictCreate
     [(DICT_RESIZE_ENABLE, Insert 1 10), (DICT_RESIZE_AVOID, Put 1 (11::nat)), (DICT_RESIZE_ENABLE, Find 1),
      (DICT_RESIZE_FORBID, Del 2)] = Some (d, [Done True, Done False, Value (Some 11), Done False])"
  using dict_run_refines [OF nat_type_ok, of 0 "[(DICT_RESIZE_ENABLE, Insert 1 10), (DICT_RESIZE_AVOID, Put 1 (11::nat)),
      (DICT_RESIZE_ENABLE, Find 1), (DICT_RESIZE_FORBID, Del 2)]"]
  by auto

text \<open>C18. One call of \<open>dictRehash\<close> keeps the invariant and the entries, hence the map and the size.  When the
  call answers that there is more to do, rehashing is still on and the index of the next bucket has grown (if at least
  one bucket was asked for); when it was not refused and answers that it is done, rehashing is over.\<close>

theorem dictRehash_invariant:
  assumes "dict_inv ty d"
  shows "\<exists>d' more. dictRehash ty can d n = Some (d', more) \<and> dict_inv ty d' \<and>
    mset (entries d') = mset (entries d) \<and> dict_map d' = dict_map d \<and> dictSize d' = dictSize d \<and>
    (if rehash_refused can d then d' = d \<and> \<not> more
     else more = dictIsRehashing d' \<and> (more \<and> 0 < n \<longrightarrow> rehashidx d < rehashidx d'))"
proof -
  obtain d' more where d': "dictRehash ty can d n = Some (d', more)" "same_content ty d d'"
      "rehash_refused can d \<longrightarrow> d' = d \<and> \<not> more"
      "more \<longrightarrow> dictIsRehashing d' \<and> (0 < n \<longrightarrow> rehashidx d < rehashidx d')"
      "\<not> more \<and> \<not> rehash_refused can d \<longrightarrow> \<not> dictIsRehashing d'"
    using dictRehash_correct [OF assms, of can n] by blast
  then show ?thesis
    using same_content_map [OF assms d'(2)] dictSize_same [OF assms d'(2)] by (auto simp: same_content_def)
qed

theorem dictRehash_invariant_witness:
  "\<exists>d' more. dictRehash nat_type DICT_RESIZE_ENABLE moving_dict 1 = Some (d', more) \<and> dict_inv nat_type d' \<and>
    mset (entries d') = mset (entries moving_dict)"
  using dictRehash_invariant [OF moving_dict_inv, of DICT_RESIZE_ENABLE 1] by blast

text \<open>C33. The loop that completes a rehashing at once (types with \<open>force_full_rehash\<close>) ends: with one round per
  bucket of the old table and one more it returns, with the same entries; and unless the resize policy refuses, the
  rehashing is then complete.\<close>

theorem dictRehash_full_terminates:
  assumes "dict_inv ty d" and "dictIsRehashing d"
  shows "\<exists>d'. dictRehash_full (length (ht_table (ht0 d)) + 1) ty can d = Some d' \<and> dict_inv ty d' \<and>
    dict_map d' = dict_map d \<and> (if rehash_refused can d then d' = d else \<not> dictIsRehashing d')"
proof -
  have "int (length (ht_table (ht0 d))) - rehashidx d < int (length (ht_table (ht0 d)) + 1)"
    using dict_invD(5) [OF assms] by simp
  from dictRehash_full_correct [OF assms this, of can] obtain d' where
    d': "dictRehash_full (length (ht_table (ht0 d)) + 1) ty can d = Some d'" "same_content ty d d'"
      "if rehash_refused can d then d' = d else \<not> dictIsRehashing d'" by blast
  then show ?thesis using same_content_map [OF assms(1) d'(2)] unfolding same_content_def by blast
qed

theorem dictRehash_full_terminates_witness:
  "\<exists>d'. dictRehash_full 5 nat_type DICT_RESIZE_ENABLE moving_dict = Some d' \<and> dict_map d' = dict_map moving_dict \<and>
    \<not> dictIsRehashing d'"
proof -
  have "\<not> rehash_refused DICT_RESIZE_ENABLE moving_dict" "dictIsRehashing moving_dict"
    "length (ht_table (ht0 moving_dict)) + 1 = 5"
    by (simp_all add: rehash_refused_def moving_dict_def dictIsRehashing_def)
  then show ?thesis using dictRehash_full_terminates [OF moving_dict_inv, of DICT_RESIZE_ENABLE] by auto
qed

text \<open>The exponent chosen for a requested size is between 2 and 63; for every size below \<open>2 ^ 63\<close> the table is
  large enough, and it is less than twice what was asked for when more than the initial size was.\<close>

theorem dictNextExp_tight:
  "2 \<le> dictNextExp sz \<and> dictNextExp sz \<le> 63 \<and>
   (if sz < 2 ^ 63 then sz \<le> DICTHT_SIZE (dictNextExp sz) \<and> (sz \<le> 4 \<or> DICTHT_SIZE (dictNextExp sz) < 2 * sz)
    else DICTHT_SIZE (dictNextExp sz) = 2 ^ 63)"
  using dictNextExp_bounds [of sz] dictNextExp_enough [of sz] dictNextExp_least [of sz]
  by (cases "sz < 2 ^ 63"; cases "sz \<le> 4") (auto simp: dictNextExp_def DICT_HT_INITIAL_SIZE_def DICTHT_SIZE_def)

text \<open>C35. Deletion in two phases: the find phase answers whether the key is there and leaves the map alone, and the
  free phase with its link, under any later resize policy, removes exactly that key and restores the pause counter.\<close>

theorem dictTwoPhaseUnlink_deletes:
  assumes "dict_inv ty d" and "type_ok ty"
  shows "\<exists>d1 l d2. dictTwoPhaseUnlinkFind ty can d k = Some (d1, l) \<and> (l = None \<longleftrightarrow> dict_map d k = None) \<and>
    dict_map d1 = dict_map d \<and> dictTwoPhaseUnlinkFree ty can' d1 l = Some d2 \<and> dict_inv ty d2 \<and>
    dict_map d2 = (dict_map d)(k := None) \<and> pauserehash d2 = pauserehash d"
  using dictTwoPhase_correct [OF assms, of can k can'] unfolding becomes_def
  by (elim exE conjE) (intro exI conjI, assumption+)

theorem dictTwoPhaseUnlink_deletes_witness:
  "\<exists>d1 l d2. dictTwoPhaseUnlinkFind nat_type DICT_RESIZE_ENABLE moving_dict 5 = Some (d1, l) \<and>
    dictTwoPhaseUnlinkFree nat_type DICT_RESIZE_AVOID d1 l = Some d2 \<and> dict_map d2 = (dict_map moving_dict)(5 := None)"
  using dictTwoPhaseUnlink_deletes [OF moving_dict_inv nat_type_ok, of DICT_RESIZE_ENABLE 5 DICT_RESIZE_AVOID] by blast

text \<open>C36. With automatic resizing paused, an insertion into a dictionary that was never filled reads the missing
  bucket array: there is no table to insert into, and the code does not check.\<close>

theorem dictAdd_paused_empty_faults:
  "dictAdd ty can junk (dictCreate\<lparr>pauseAutoResize := 1\<rparr>) k v = None"
  by (simp add: dictAdd_def dictAddRaw_def dictFindLinkForInsert_def dictRehashStepIfNeeded_def dictExpandIfAutoResize_def
      search_tables_def search_table_def bucket_def get_ht_def dictCreate_def dictReset_def dictIsRehashing_def)

end
