(* ===== verification/Bit_Rounds.thy ===== *)
theory Bit_Rounds
  imports Redis_Prelude
begin

unbundle bit_operations_syntax

text \<open>
  Bit reversal of a 64-bit word in six rounds that exchange neighbouring groups of bits: the method of the cursor scan
  (\<open>rev\<close> of \<open>dict.c\<close>) and of the checksum (\<open>crc_reflect\<close> of \<open>crc64.c\<close>).
\<close>

text \<open>The masks of the six rounds, and what a round does to a bit position.\<close>

definition round_mask :: "nat \<Rightarrow> u64" where
  "round_mask s = (if s = 32 then 0x00000000FFFFFFFF else if s = 16 then 0x0000FFFF0000FFFF
     else if s = 8 then 0x00FF00FF00FF00FF else if s = 4 then 0x0F0F0F0F0F0F0F0F
     else if s = 2 then 0x3333333333333333 else 0x5555555555555555)"

definition rev_round :: "nat \<Rightarrow> u64 \<Rightarrow> u64" where
  "rev_round s v = (drop_bit s v AND round_mask s) OR (push_bit s v AND NOT (round_mask s))"

definition rev_swap :: "nat \<Rightarrow> nat \<Rightarrow> nat" where
  "rev_swap s i = (if even (i div s) then i + s else i - s)"

lemma round_mask_bits:
  assumes "s \<in> {1, 2, 4, 8, 16, 32}" "i < 64"
  shows "bit (round_mask s) i \<longleftrightarrow> even (i div s)"
proof -
  have "list_all (\<lambda>s. list_all (\<lambda>i. bit (round_mask s) i = even (i div s)) [0..<64]) [1, 2, 4, 8, 16, 32]"
    by code_simp
  then show ?thesis using assms by (auto simp: list_all_iff)
qed

lemma rev_round_bit:
  assumes "s \<in> {1, 2, 4, 8, 16, 32}" "i < 64"
  shows "bit (rev_round s v) i \<longleftrightarrow> bit v (rev_swap s i)"
proof (cases "even (i div s)")
  case True
  then show ?thesis
    using round_mask_bits [OF assms] assms(2) by (simp add: rev_round_def rev_swap_def bit_simps add.commute)
next
  case False
  then have "s \<le> i" by (metis div_less even_zero not_le)
  then show ?thesis
    using False round_mask_bits [OF assms] assms(2) by (simp add: rev_round_def rev_swap_def bit_simps)
qed

lemma upto_64:
  "[0..<64] = [0, 1, 2, 3, 4, 5, 6, 7, 8, 9, 10, 11, 12, 13, 14, 15, 16, 17, 18, 19, 20, 21, 22, 23, 24, 25, 26, 27, 28,
     29, 30, 31, 32, 33, 34, 35, 36, 37, 38, 39, 40, 41, 42, 43, 44, 45, 46, 47, 48, 49, 50, 51, 52, 53, 54, 55, 56, 57,
     58, 59, 60, 61, 62, 63::nat]"
  by code_simp

lemma rev_swaps:
  assumes "i < 64"
  shows "rev_swap 32 (rev_swap 16 (rev_swap 8 (rev_swap 4 (rev_swap 2 (rev_swap 1 i))))) = 63 - i"
proof -
  have "list_all (\<lambda>i. rev_swap 32 (rev_swap 16 (rev_swap 8 (rev_swap 4 (rev_swap 2 (rev_swap 1 i))))) = 63 - i) [0..<64]"
    unfolding upto_64 by (simp only: list.pred_inject) (simp add: rev_swap_def)
  then show ?thesis using assms by (simp add: list_all_iff)
qed

lemma rev_swap_less:
  assumes "s \<in> {1, 2, 4, 8, 16, 32}" "i < 64"
  shows "rev_swap s i < 64"
proof -
  have "list_all (\<lambda>i. rev_swap 32 i < 64 \<and> rev_swap 16 i < 64 \<and> rev_swap 8 i < 64 \<and> rev_swap 4 i < 64 \<and>
      rev_swap 2 i < 64 \<and> rev_swap 1 i < 64) [0..<64]"
    unfolding upto_64 by (simp only: list.pred_inject) (simp add: rev_swap_def)
  then show ?thesis using assms by (auto simp: list_all_iff)
qed

lemma rev_swaps_up:
  assumes "i < 64"
  shows "rev_swap 1 (rev_swap 2 (rev_swap 4 (rev_swap 8 (rev_swap 16 (rev_swap 32 i))))) = 63 - i"
proof -
  have "list_all (\<lambda>i. rev_swap 1 (rev_swap 2 (rev_swap 4 (rev_swap 8 (rev_swap 16 (rev_swap 32 i))))) = 63 - i) [0..<64]"
    unfolding upto_64 by (simp only: list.pred_inject) (simp add: rev_swap_def)
  then show ?thesis using assms by (simp add: list_all_iff)
qed

end
