(* ===== verification/Dict_Scan.thy ===== *)
theory Dict_Scan
  imports Dict Bit_Rounds
begin

unbundle bit_operations_syntax

text \<open>
  The cursor scan of \<open>dict.c\<close> (\<open>dictScan\<close>): a stateless iteration whose cursor is counted up from the high
  bit, so that a cursor stays meaningful when the table is resized between two calls.  The callback only
  collects the entries it is given, so a call is a function of the dictionary and the cursor; the pause of
  rehashing around the callbacks leaves the dictionary as it was.
\<close>

section \<open>Model\<close>

text \<open>Bit reversal: the loop that halves the distance \<open>s\<close>.\<close>

fun rev_loop :: "nat \<Rightarrow> u64 \<Rightarrow> u64 \<Rightarrow> u64" where
  "rev_loop s msk v =
     (let s = s div 2 in
      if s = 0 then v
      else
        let msk = msk XOR push_bit s msk;
            v = (drop_bit s v AND msk) OR (push_bit s v AND NOT msk)
        in rev_loop s msk v)"

declare rev_loop.simps [simp del]

definition rev_bits :: "u64 \<Rightarrow> u64" where
  "rev_bits v = rev_loop 64 (NOT 0) v"

text \<open>The increment of the reversed cursor under the mask of a table.\<close>

definition next_cursor :: "u64 \<Rightarrow> u64 \<Rightarrow> u64" where
  "next_cursor m v = rev_bits (rev_bits (v OR NOT m) + 1)"

definition scan_bucket :: "('k, 'v) ht \<Rightarrow> u64 \<Rightarrow> ('k \<times> 'v) list option" where
  "scan_bucket t v = bucket t (unat (v AND DICTHT_SIZE_MASK (ht_size_exp t)))"

text \<open>The loop over the buckets of the larger table that extend one bucket of the smaller table.\<close>

fun scan_larger :: "nat \<Rightarrow> ('k, 'v) ht \<Rightarrow> u64 \<Rightarrow> u64 \<Rightarrow> (('k \<times> 'v) list \<times> u64) option" where
  "scan_larger 0 t m0 v = None"
| "scan_larger (Suc fuel) t m0 v = do {
     let m1 = DICTHT_SIZE_MASK (ht_size_exp t);
     c \<leftarrow> scan_bucket t v;
     let v = next_cursor m1 v;
     if v AND (m0 XOR m1) \<noteq> 0
     then do { (es, v) \<leftarrow> scan_larger fuel t m0 v; Some (c @ es, v) }
     else Some (c, v)
   }"

definition dictScan :: "('k, 'v) dict \<Rightarrow> u64 \<Rightarrow> (('k \<times> 'v) list \<times> u64) option" where
  "dictScan d v =
     (if dictSize d = 0 then Some ([], 0)
      else if \<not> dictIsRehashing d
      then do {
        c \<leftarrow> scan_bucket (ht0 d) v;
        Some (c, next_cursor (DICTHT_SIZE_MASK (ht_size_exp (ht0 d))) v)
      }
      else
        let (t0, t1) = (if DICTHT_SIZE (ht_size_exp (ht0 d)) > DICTHT_SIZE (ht_size_exp (ht1 d))
                        then (ht1 d, ht0 d) else (ht0 d, ht1 d))
        in do {
          c \<leftarrow> scan_bucket t0 v;
          (es, v) \<leftarrow> scan_larger (DICTHT_SIZE (ht_size_exp t1)) t1 (DICTHT_SIZE_MASK (ht_size_exp t0)) v;
          Some (c @ es, v)
        })"

text \<open>A scan: one call per dictionary of the list, which is the same dictionary at the times of the calls.\<close>

fun scan_all :: "('k, 'v) dict list \<Rightarrow> u64 \<Rightarrow> (('k \<times> 'v) list \<times> u64) option" where
  "scan_all [] v = Some ([], v)"
| "scan_all (d # ds) v = do {
     (es, v) \<leftarrow> dictScan d v;
     (es', v) \<leftarrow> scan_all ds v;
     Some (es @ es', v)
   }"

section \<open>Bit reversal\<close>

lemma rev_bits_rounds: "rev_bits v = rev_round 1 (rev_round 2 (rev_round 4 (rev_round 8 (rev_round 16 (rev_round 32 v)))))"
proof -
  have step: "rev_loop s m v = rev_loop (s div 2) (round_mask (s div 2)) (rev_round (s div 2) v)"
    if "s div 2 \<noteq> 0" "m XOR push_bit (s div 2) m = round_mask (s div 2)" for s m v
    using that by (subst rev_loop.simps) (simp add: rev_round_def Let_def)
  have "rev_bits v = rev_loop 32 (round_mask 32) (rev_round 32 v)"
    unfolding rev_bits_def by (subst step) (simp_all add: round_mask_def push_bit_eq_mult)
  also have "\<dots> = rev_loop 16 (round_mask 16) (rev_round 16 (rev_round 32 v))"
    by (subst step) (simp_all add: round_mask_def push_bit_eq_mult)
  also have "\<dots> = rev_loop 8 (round_mask 8) (rev_round 8 (rev_round 16 (rev_round 32 v)))"
    by (subst step) (simp_all add: round_mask_def push_bit_eq_mult)
  also have "\<dots> = rev_loop 4 (round_mask 4) (rev_round 4 (rev_round 8 (rev_round 16 (rev_round 32 v))))"
    by (subst step) (simp_all add: round_mask_def push_bit_eq_mult)
  also have "\<dots> = rev_loop 2 (round_mask 2) (rev_round 2 (rev_round 4 (rev_round 8 (rev_round 16 (rev_round 32 v)))))"
    by (subst step) (simp_all add: round_mask_def push_bit_eq_mult)
  also have "\<dots> = rev_loop 1 (round_mask 1) (rev_round 1 (rev_round 2 (rev_round 4 (rev_round 8 (rev_round 16 (rev_round 32 v))))))"
    by (subst step) (simp_all add: round_mask_def push_bit_eq_mult)
  finally show ?thesis by (simp add: rev_loop.simps)
qed

lemma bit_rev_bits: "i < 64 \<Longrightarrow> bit (rev_bits v) i \<longleftrightarrow> bit v (63 - i)"
  by (simp add: rev_bits_rounds rev_round_bit rev_swap_less rev_swaps del: One_nat_def)

lemma rev_rev_bits [simp]: "rev_bits (rev_bits v) = v"
  by (rule bit_word_eqI) (simp add: bit_rev_bits)

lemma rev_bits_inject [simp]: "rev_bits v = rev_bits w \<longleftrightarrow> v = w"
  by (metis rev_rev_bits)

lemma rev_bits_OR: "rev_bits (v OR w) = rev_bits v OR rev_bits w"
  by (rule bit_word_eqI) (simp add: bit_rev_bits bit_simps)

lemma rev_bits_AND: "rev_bits (v AND w) = rev_bits v AND rev_bits w"
  by (rule bit_word_eqI) (simp add: bit_rev_bits bit_simps)

lemma rev_bits_0 [simp]: "rev_bits 0 = 0"
  by (rule bit_word_eqI) (simp add: bit_rev_bits)

lemma rev_bits_NOT_mask: "n \<le> 64 \<Longrightarrow> rev_bits (NOT (mask n)) = mask (64 - n)"
  by (rule bit_word_eqI) (auto simp: bit_rev_bits bit_simps)

section \<open>The reversed cursor\<close>

definition rpos :: "u64 \<Rightarrow> nat" where
  "rpos v = unat (rev_bits v)"

lemma rpos_less: "rpos v < 2 ^ 64"
  unfolding rpos_def using unsigned_less [of "rev_bits v"] by simp

lemma rpos_0 [simp]: "rpos 0 = 0"
  by (simp add: rpos_def)

text \<open>Two words agree on their low \<open>n\<close> bits iff their reversals agree on the high \<open>n\<close> bits.\<close>

lemma mask_iff_block:
  assumes "n \<le> 64"
  shows "v AND mask n = w AND mask n \<longleftrightarrow> rpos v div 2 ^ (64 - n) = rpos w div 2 ^ (64 - n)"
proof -
  have "v AND mask n = w AND mask n \<longleftrightarrow> drop_bit (64 - n) (rev_bits v) = drop_bit (64 - n) (rev_bits w)"
  proof
    assume eq: "v AND mask n = w AND mask n"
    show "drop_bit (64 - n) (rev_bits v) = drop_bit (64 - n) (rev_bits w)"
    proof (rule bit_word_eqI)
      fix i :: nat
      assume "i < LENGTH(64)"
      have "bit (v AND mask n) (63 - (64 - n + i)) = bit (w AND mask n) (63 - (64 - n + i))" using eq by simp
      then show "bit (drop_bit (64 - n) (rev_bits v)) i = bit (drop_bit (64 - n) (rev_bits w)) i"
        using assms by (cases "64 - n + i < 64") (auto simp: bit_rev_bits bit_simps dest: bit_imp_le_length)
    qed
  next
    assume eq: "drop_bit (64 - n) (rev_bits v) = drop_bit (64 - n) (rev_bits w)"
    show "v AND mask n = w AND mask n"
    proof (rule bit_word_eqI)
      fix i :: nat
      assume "i < LENGTH(64)"
      have "i < n \<Longrightarrow> bit (drop_bit (64 - n) (rev_bits v)) (n - Suc i) = bit (drop_bit (64 - n) (rev_bits w)) (n - Suc i)"
        using eq by simp
      then show "bit (v AND mask n) i = bit (w AND mask n) i"
        using assms by (cases "i < n") (auto simp: bit_rev_bits bit_simps)
    qed
  qed
  also have "\<dots> \<longleftrightarrow> rpos v div 2 ^ (64 - n) = rpos w div 2 ^ (64 - n)"
    unfolding rpos_def word_unat_eq_iff unat_drop_bit_eq by (simp add: drop_bit_eq_div)
  finally show ?thesis .
qed

text \<open>The next cursor is the start of the next block of size \<open>2 ^ (64 - n)\<close>.\<close>

lemma drop_bit_of_nat: "drop_bit k w = (of_nat (unat w div 2 ^ k) :: u64)"
proof -
  have "of_nat (unat (drop_bit k w)) = (of_nat (unat w div 2 ^ k) :: u64)"
    unfolding unat_drop_bit_eq by (simp add: drop_bit_eq_div)
  then show ?thesis by simp
qed

lemma or_mask_succ: "(w OR mask k) + 1 = (of_nat ((unat w div 2 ^ k + 1) * 2 ^ k) :: u64)"
proof -
  have "w OR mask k = push_bit k (drop_bit k w) OR mask k"
    by (rule bit_word_eqI) (auto simp: bit_simps)
  also have "\<dots> = push_bit k (drop_bit k w) + mask k"
    by (rule disjunctive_add [symmetric]) (auto simp: bit_simps)
  finally have "(w OR mask k) + 1 = push_bit k (drop_bit k w) + 2 ^ k"
    by (simp add: mask_eq_exp_minus_1)
  then show ?thesis by (simp add: drop_bit_of_nat push_bit_eq_mult algebra_simps)
qed

lemma rpos_next:
  assumes "n \<le> 64"
  shows "rpos (next_cursor (mask n) v) = (rpos v div 2 ^ (64 - n) + 1) * 2 ^ (64 - n) mod 2 ^ 64"
  using assms by (simp add: rpos_def next_cursor_def rev_bits_OR rev_bits_NOT_mask or_mask_succ unat_of_nat
      del: of_nat_mult of_nat_add of_nat_power)

lemma ht_size_mask: "0 \<le> e \<Longrightarrow> e \<le> 63 \<Longrightarrow> DICTHT_SIZE_MASK e = mask (nat e)"
  by (simp add: DICTHT_SIZE_MASK_def DICTHT_SIZE_def mask_eq_exp_minus_1)

section \<open>Coverage of one call\<close>

text \<open>The entries a call emits while the cursor goes from \<open>v\<close> to \<open>v'\<close>: an entry not before the cursor is emitted,
  or is not before the new cursor, which has then advanced.\<close>

definition step_covers :: "'k dictType \<Rightarrow> u64 \<Rightarrow> ('k \<times> 'v) list \<Rightarrow> u64 \<Rightarrow> ('k \<times> 'v) list \<Rightarrow> bool" where
  "step_covers ty v es v' all_es \<longleftrightarrow>
     (\<forall>e \<in> set all_es. rpos v \<le> rpos (hashFunction ty (fst e)) \<longrightarrow>
        e \<in> set es \<or> rpos v < rpos v' \<and> rpos v' \<le> rpos (hashFunction ty (fst e)))"

lemma step_covers_trans:
  assumes "step_covers ty v es v1 al" "step_covers ty v1 es' v' al"
  shows "step_covers ty v (es @ es') v' al"
  unfolding step_covers_def
proof (intro ballI impI)
  fix e
  assume e: "e \<in> set al" "rpos v \<le> rpos (hashFunction ty (fst e))"
  then have "e \<in> set es \<or> rpos v < rpos v1 \<and> rpos v1 \<le> rpos (hashFunction ty (fst e))"
    using assms(1) unfolding step_covers_def by blast
  then show "e \<in> set (es @ es') \<or> rpos v < rpos v' \<and> rpos v' \<le> rpos (hashFunction ty (fst e))"
    using e(1) assms(2) unfolding step_covers_def by fastforce
qed

lemma step_covers_append:
  "step_covers ty v es v' al \<Longrightarrow> step_covers ty v es' v' al' \<Longrightarrow> step_covers ty v (es @ es') v' (al @ al')"
  by (auto simp: step_covers_def)

lemma next_block:
  assumes "n \<le> 64" "r \<le> h" "h < 2 ^ 64" "h div 2 ^ (64 - n) \<noteq> r div 2 ^ (64 - n)"
  shows "r < (r div 2 ^ (64 - n) + 1) * 2 ^ (64 - n) mod 2 ^ 64"
    "(r div 2 ^ (64 - n) + 1) * 2 ^ (64 - n) mod 2 ^ 64 \<le> (h :: nat)"
proof -
  let ?B = "2 ^ (64 - n) :: nat"
  have "r div ?B < h div ?B" using assms(2,4) div_le_mono [OF assms(2), of ?B] by simp
  then have "(r div ?B + 1) * ?B \<le> h div ?B * ?B" by (intro mult_le_mono1) simp
  also have "\<dots> \<le> h" by simp
  finally have le: "(r div ?B + 1) * ?B \<le> h" .
  have "(r div ?B + 1) * ?B mod 2 ^ 64 = (r div ?B + 1) * ?B" using le assms(3) by (intro mod_less) linarith
  moreover have "r < (r div ?B + 1) * ?B"
    using dividend_less_div_times [of ?B r] by (simp add: add_mult_distrib)
  ultimately show "r < (r div ?B + 1) * ?B mod 2 ^ 64" "(r div ?B + 1) * ?B mod 2 ^ 64 \<le> h" using le by simp_all
qed

lemma ht_exp:
  assumes "ht_ok ty t" "ht_size_exp t \<noteq> - 1"
  shows "nat (ht_size_exp t) \<le> 63" "DICTHT_SIZE_MASK (ht_size_exp t) = mask (nat (ht_size_exp t))"
    "length (ht_table t) = 2 ^ nat (ht_size_exp t)" "DICTHT_SIZE (ht_size_exp t) = 2 ^ nat (ht_size_exp t)"
  using assms ht_size_mask [of "ht_size_exp t"] by (auto simp: ht_ok_def DICTHT_SIZE_def)

text \<open>The bucket under a cursor holds exactly the entries of the table whose reversed hash is in the cursor's block.\<close>

lemma scan_bucket_block:
  fixes t :: "('k, 'v) ht"
  assumes ok: "ht_ok ty t" and e: "ht_size_exp t \<noteq> - 1"
  shows "\<exists>c. scan_bucket t v = Some c \<and> c = ht_table t ! unat (v AND mask (nat (ht_size_exp t))) \<and>
    set c = {x \<in> set (ht_entries t). rpos (hashFunction ty (fst x)) div 2 ^ (64 - nat (ht_size_exp t)) =
                                     rpos v div 2 ^ (64 - nat (ht_size_exp t))}"
proof -
  let ?n = "nat (ht_size_exp t)"
  note E = ht_exp [OF ok e]
  let ?i = "unat (v AND mask ?n)"
  have "?i = take_bit ?n (unat v)" by (simp only: take_bit_eq_mask [symmetric] unsigned_take_bit_eq)
  then have i: "?i < length (ht_table t)" using E(3) by simp
  have at: "hash_index ty t (fst x) = j" if "j < length (ht_table t)" "x \<in> set (ht_table t ! j)" for x j
    using ok e that by (simp add: ht_ok_def)
  have hi: "hash_index ty t k = ?i \<longleftrightarrow> rpos (hashFunction ty k) div 2 ^ (64 - ?n) = rpos v div 2 ^ (64 - ?n)" for k
    using mask_iff_block [of ?n "hashFunction ty k" v] E(1) unfolding hash_index_def E(2) by (simp add: word_unat_eq_iff)
  have "set (ht_table t ! ?i) = {x \<in> set (ht_entries t). hash_index ty t (fst x) = ?i}"
  proof (intro equalityI subsetI)
    fix x
    assume "x \<in> set (ht_table t ! ?i)"
    then show "x \<in> {x \<in> set (ht_entries t). hash_index ty t (fst x) = ?i}"
      using i at [OF i] by (auto simp: ht_entries_def intro: nth_mem)
  next
    fix x
    assume "x \<in> {x \<in> set (ht_entries t). hash_index ty t (fst x) = ?i}"
    then obtain b where "b \<in> set (ht_table t)" "x \<in> set b" and x: "hash_index ty t (fst x) = ?i"
      by (auto simp: ht_entries_def)
    then obtain j where "j < length (ht_table t)" "x \<in> set (ht_table t ! j)" by (metis in_set_conv_nth)
    then show "x \<in> set (ht_table t ! ?i)" using at x by metis
  qed
  then show ?thesis using i E(2) hi by (simp add: scan_bucket_def bucket_def)
qed

lemma scan_bucket_covers:
  assumes ok: "ht_ok ty t" and e: "ht_size_exp t \<noteq> - 1" and c: "scan_bucket t v = Some c"
    and v': "rpos v' = (rpos v div 2 ^ (64 - nat (ht_size_exp t)) + 1) * 2 ^ (64 - nat (ht_size_exp t)) mod 2 ^ 64"
  shows "step_covers ty v c v' (ht_entries t)" "set c \<subseteq> set (ht_entries t)"
proof -
  let ?n = "nat (ht_size_exp t)"
  have s: "set c = {x \<in> set (ht_entries t). rpos (hashFunction ty (fst x)) div 2 ^ (64 - ?n) = rpos v div 2 ^ (64 - ?n)}"
    using scan_bucket_block [OF ok e, of v] c by auto
  then show "set c \<subseteq> set (ht_entries t)" by blast
  have "x \<in> set c \<or> rpos v < rpos v' \<and> rpos v' \<le> rpos (hashFunction ty (fst x))"
    if "x \<in> set (ht_entries t)" "rpos v \<le> rpos (hashFunction ty (fst x))" for x
    using that s next_block [of ?n "rpos v" "rpos (hashFunction ty (fst x))"] rpos_less ht_exp(1) [OF ok e] v' by auto
  then show "step_covers ty v c v' (ht_entries t)" by (simp add: step_covers_def)
qed

text \<open>The test at the end of the loop: the bits between the two masks are zero iff the reversed cursor is at the start
  of a block of the smaller table.\<close>

lemma rpos_and_mask: "n \<le> 64 \<Longrightarrow> rpos (v AND mask n) = rpos v div 2 ^ (64 - n) * 2 ^ (64 - n)"
proof -
  assume n: "n \<le> 64"
  have "rev_bits (v AND mask n) = push_bit (64 - n) (drop_bit (64 - n) (rev_bits v))"
    using n by (intro bit_word_eqI) (auto simp: bit_rev_bits bit_simps)
  also have "\<dots> = of_nat (rpos v div 2 ^ (64 - n) * 2 ^ (64 - n))"
    by (simp add: drop_bit_of_nat push_bit_eq_mult rpos_def mult.commute)
  finally have "rpos (v AND mask n) = rpos v div 2 ^ (64 - n) * 2 ^ (64 - n) mod 2 ^ 64"
    by (simp add: rpos_def unat_of_nat del: of_nat_mult of_nat_power)
  moreover have "rpos v div 2 ^ (64 - n) * 2 ^ (64 - n) < 2 ^ 64"
    using rpos_less [of v] div_times_less_eq_dividend [of "rpos v" "2 ^ (64 - n)"] by linarith
  ultimately show ?thesis by simp
qed

lemma div_mult_iff: "n div m * m = n \<longleftrightarrow> m dvd n" for m n :: nat
  by (metis dvd_div_mult_self dvd_triv_right)

lemma xor_zero_iff: "x XOR y = 0 \<longleftrightarrow> x = y" for x y :: u64
proof
  assume "x XOR y = 0"
  then have "\<not> bit (x XOR y) n" for n by simp
  then show "x = y" by (intro bit_word_eqI) (simp add: bit_xor_iff)
qed simp

lemma mask_diff_zero:
  assumes "a \<le> b" "b \<le> 64" and al: "2 ^ (64 - b) dvd rpos v"
  shows "v AND (mask a XOR mask b) = 0 \<longleftrightarrow> 2 ^ (64 - a) dvd rpos v"
proof -
  have "v AND (mask a XOR mask b) = 0 \<longleftrightarrow> (v AND mask a) AND mask b = v AND mask b"
  proof -
    have "(mask a :: u64) AND mask b = mask a" using assms(1) by (intro bit_word_eqI) (auto simp: bit_simps)
    then have "(v AND mask a) AND mask b = v AND mask a" by (simp only: and.assoc)
    moreover have "v AND (mask a XOR mask b) = (v AND mask a) XOR (v AND mask b)" by (rule bit.conj_xor_distrib)
    ultimately show ?thesis by (simp only: xor_zero_iff)
  qed
  also have "\<dots> \<longleftrightarrow> rpos (v AND mask a) div 2 ^ (64 - b) = rpos v div 2 ^ (64 - b)"
    by (rule mask_iff_block [OF assms(2)])
  also have "\<dots> \<longleftrightarrow> rpos (v AND mask a) = rpos v"
  proof -
    have "(2 :: nat) ^ (64 - b) dvd 2 ^ (64 - a)" using assms(1) by (intro le_imp_power_dvd) simp
    then have "2 ^ (64 - b) dvd rpos (v AND mask a)" using assms(1,2) by (simp add: rpos_and_mask)
    then show ?thesis using al by (auto elim!: dvdE)
  qed
  also have "\<dots> \<longleftrightarrow> 2 ^ (64 - a) dvd rpos v"
    using rpos_and_mask [OF order.trans [OF assms(1,2)], of v] div_mult_iff [of "rpos v" "2 ^ (64 - a)"] by (simp only:)
  finally show ?thesis .
qed

text \<open>Counting in blocks of the larger table, \<open>K\<close> of them in a block of the smaller one.\<close>

lemma block_arith:
  assumes ab: "a \<le> b" "b \<le> 64" and r: "r < 2 ^ 64"
  defines "B \<equiv> 2 ^ (64 - b)" and "A \<equiv> 2 ^ (64 - a)" and "K \<equiv> 2 ^ (b - a)"
  defines "r1 \<equiv> (r div B + 1) * B mod 2 ^ 64"
  shows "A dvd r1 \<Longrightarrow> r1 = (r div A + 1) * A mod (2 ^ 64 :: nat)"
    "\<not> A dvd r1 \<Longrightarrow> r1 div A = r div A \<and> r1 div B mod K = r div B mod K + 1"
proof -
  have A: "A = B * K" using ab by (simp add: A_def B_def K_def flip: power_add)
  have pos: "0 < B" "0 < K" by (simp_all add: B_def K_def)
  have top: "2 ^ 64 = 2 ^ a * A" using ab by (simp add: A_def flip: power_add)
  have rA: "r div A = r div B div K" by (simp add: A div_mult2_eq)
  have "A dvd 2 ^ 64" unfolding top by simp
  then have "A dvd r1 \<longleftrightarrow> A dvd (r div B + 1) * B" unfolding r1_def by (rule dvd_mod_iff)
  also have "\<dots> \<longleftrightarrow> K * B dvd (r div B + 1) * B" by (simp only: A mult.commute)
  also have "\<dots> \<longleftrightarrow> K dvd r div B + 1" using pos by (intro dvd_times_right_cancel_iff) simp
  finally have dv: "A dvd r1 \<longleftrightarrow> K dvd r div B + 1" .
  show "r1 = (r div A + 1) * A mod 2 ^ 64" if "A dvd r1"
  proof -
    have "K dvd r div B + 1" using that dv by simp
    then have "r div B + 1 = (r div B + 1) div K * K" by simp
    moreover have "(r div B + 1) div K = r div B div K + 1" using \<open>K dvd r div B + 1\<close> pos by (simp add: div_Suc)
    ultimately have "(r div B + 1) * B = (r div B div K + 1) * K * B" by metis
    then have "(r div B + 1) * B = (r div A + 1) * (K * B)" by (simp only: rA mult.assoc)
    then have "(r div B + 1) * B = (r div A + 1) * A" by (simp only: A mult.commute [of B K])
    then show ?thesis by (simp add: r1_def)
  qed
  show "r1 div A = r div A \<and> r1 div B mod K = r div B mod K + 1" if "\<not> A dvd r1"
  proof -
    have nd: "\<not> K dvd r div B + 1" using that dv by simp
    have "r div B < 2 ^ b" using r ab pos by (simp add: B_def less_mult_imp_div_less flip: power_add)
    moreover have "r div B + 1 \<noteq> 2 ^ b" using nd ab by (auto simp: K_def le_imp_power_dvd)
    ultimately have "(r div B + 1) * B < 2 ^ b * B" using pos by (intro mult_less_mono1) auto
    also have "2 ^ b * B = 2 ^ 64" using ab by (simp add: B_def flip: power_add)
    finally have "r1 = (r div B + 1) * B" by (simp add: r1_def)
    then have "r1 div B = r div B + 1" using pos by simp
    moreover have "(r div B + 1) div K = r div B div K" "(r div B + 1) mod K = r div B mod K + 1"
      using nd by (auto simp: div_Suc mod_Suc dvd_eq_mod_eq_0 split: if_splits)
    moreover have "r1 div A = r1 div B div K" by (simp add: A div_mult2_eq)
    ultimately show ?thesis using rA by simp
  qed
qed

lemma scan_larger_covers:
  assumes ok: "ht_ok ty t" and e: "ht_size_exp t \<noteq> - 1" and ab: "a \<le> nat (ht_size_exp t)"
    and fuel: "2 ^ (nat (ht_size_exp t) - a) \<le> fuel + rpos v div 2 ^ (64 - nat (ht_size_exp t)) mod 2 ^ (nat (ht_size_exp t) - a)"
  shows "\<exists>es v'. scan_larger fuel t (mask a) v = Some (es, v') \<and>
    rpos v' = (rpos v div 2 ^ (64 - a) + 1) * 2 ^ (64 - a) mod 2 ^ 64 \<and>
    step_covers ty v es v' (ht_entries t) \<and> set es \<subseteq> set (ht_entries t)"
  using fuel
proof (induction fuel arbitrary: v)
  case 0
  then show ?case using mod_less_divisor [of "2 ^ (nat (ht_size_exp t) - a)" "rpos v div 2 ^ (64 - nat (ht_size_exp t))"]
    by (simp add: not_le [symmetric] del: mod_less_divisor)
next
  case (Suc fuel)
  let ?b = "nat (ht_size_exp t)"
  note E = ht_exp [OF ok e]
  have b: "?b \<le> 64" using E(1) by simp
  obtain c where c: "scan_bucket t v = Some c" using scan_bucket_block [OF ok e, of v] by blast
  define v1 where "v1 = next_cursor (mask ?b) v"
  have v1: "rpos v1 = (rpos v div 2 ^ (64 - ?b) + 1) * 2 ^ (64 - ?b) mod 2 ^ 64"
    unfolding v1_def by (rule rpos_next [OF b])
  note cov = scan_bucket_covers [OF ok e c v1]
  note ar = block_arith [OF ab b rpos_less [of v], folded v1]
  have "(2 :: nat) ^ (64 - ?b) dvd 2 ^ 64" by (rule le_imp_power_dvd) simp
  then have "2 ^ (64 - ?b) dvd rpos v1" unfolding v1 by (simp add: dvd_mod_iff)
  then have stop: "v1 AND (mask a XOR mask ?b) = 0 \<longleftrightarrow> 2 ^ (64 - a) dvd rpos v1"
    by (rule mask_diff_zero [OF ab b])
  show ?case
  proof (cases "2 ^ (64 - a) dvd rpos v1")
    case True
    then show ?thesis using c cov ar(1) stop E(2) by (simp add: v1_def)
  next
    case False
    then have "2 ^ (?b - a) \<le> fuel + rpos v1 div 2 ^ (64 - ?b) mod 2 ^ (?b - a)" using Suc.prems ar(2) by simp
    from Suc.IH [OF this] obtain es v' where es: "scan_larger fuel t (mask a) v1 = Some (es, v')"
        "rpos v' = (rpos v1 div 2 ^ (64 - a) + 1) * 2 ^ (64 - a) mod 2 ^ 64"
        "step_covers ty v1 es v' (ht_entries t)" "set es \<subseteq> set (ht_entries t)" by blast
    have "scan_larger (Suc fuel) t (mask a) v = Some (c @ es, v')"
      using c es(1) stop False E(2) by (simp add: v1_def)
    moreover have "rpos v' = (rpos v div 2 ^ (64 - a) + 1) * 2 ^ (64 - a) mod 2 ^ 64"
      using es(2) ar(2) [OF False] by simp
    moreover have "step_covers ty v (c @ es) v' (ht_entries t)" by (rule step_covers_trans [OF cov(1) es(3)])
    ultimately show ?thesis using cov(2) es(4) by auto
  qed
qed

lemma scan_two_tables:
  assumes t0: "ht_ok ty t0" "ht_size_exp t0 \<noteq> - 1" and t1: "ht_ok ty t1" "ht_size_exp t1 \<noteq> - 1"
    and le: "DICTHT_SIZE (ht_size_exp t0) \<le> DICTHT_SIZE (ht_size_exp t1)"
  shows "\<exists>c es v'. scan_bucket t0 v = Some c \<and>
    scan_larger (DICTHT_SIZE (ht_size_exp t1)) t1 (DICTHT_SIZE_MASK (ht_size_exp t0)) v = Some (es, v') \<and>
    step_covers ty v (c @ es) v' (ht_entries t0 @ ht_entries t1) \<and> set (c @ es) \<subseteq> set (ht_entries t0 @ ht_entries t1)"
proof -
  let ?a = "nat (ht_size_exp t0)" and ?b = "nat (ht_size_exp t1)"
  have ab: "?a \<le> ?b" using le by (simp add: ht_exp(4) [OF t0] ht_exp(4) [OF t1])
  obtain c where c: "scan_bucket t0 v = Some c" using scan_bucket_block [OF t0, of v] by blast
  have "(2 :: nat) ^ (?b - ?a) \<le> 2 ^ ?b" by (rule power_increasing) auto
  then have "2 ^ (?b - ?a) \<le> 2 ^ ?b + rpos v div 2 ^ (64 - ?b) mod 2 ^ (?b - ?a)" by linarith
  from scan_larger_covers [OF t1 ab this] obtain es v' where
    es: "scan_larger (2 ^ ?b) t1 (mask ?a) v = Some (es, v')"
      "rpos v' = (rpos v div 2 ^ (64 - ?a) + 1) * 2 ^ (64 - ?a) mod 2 ^ 64"
      "step_covers ty v es v' (ht_entries t1)" "set es \<subseteq> set (ht_entries t1)" by blast
  note cov = scan_bucket_covers [OF t0 c es(2)]
  have "set (c @ es) \<subseteq> set (ht_entries t0 @ ht_entries t1)" using cov(2) es(4) by auto
  then show ?thesis
    using c es(1) step_covers_append [OF cov(1) es(3)] by (auto simp: ht_exp(2) [OF t0] ht_exp(4) [OF t1])
qed

lemma dictScan_covers:
  assumes inv: "dict_inv ty d"
  shows "\<exists>es v'. dictScan d v = Some (es, v') \<and> set es \<subseteq> set (entries d) \<and> step_covers ty v es v' (entries d)"
proof (cases "dictSize d = 0")
  case True
  then show ?thesis using dictSize_entries [OF inv] by (simp add: dictScan_def step_covers_def)
next
  case False
  note D = dict_invD [OF inv]
  show ?thesis
  proof (cases "dictIsRehashing d")
    case no: False
    have e: "ht_size_exp (ht0 d) \<noteq> - 1" using exp_of_entries [OF inv False] .
    have n: "nat (ht_size_exp (ht0 d)) \<le> 64" using ht_exp(1) [OF D(1) e] by simp
    obtain c where c: "scan_bucket (ht0 d) v = Some c" using scan_bucket_block [OF D(1) e, of v] by blast
    have "entries d = ht_entries (ht0 d)" using D(4) [OF no] by (simp add: entries_def ht_entries_def dictReset_def)
    then show ?thesis
      using c False no scan_bucket_covers [OF D(1) e c rpos_next [OF n]] by (simp add: dictScan_def ht_exp(2) [OF D(1) e])
  next
    case True
    then have e: "ht_size_exp (ht0 d) \<noteq> - 1" "ht_size_exp (ht1 d) \<noteq> - 1" using D(5) by simp_all
    show ?thesis
    proof (cases "DICTHT_SIZE (ht_size_exp (ht0 d)) > DICTHT_SIZE (ht_size_exp (ht1 d))")
      case gt: True
      then obtain c es v' where "scan_bucket (ht1 d) v = Some c"
          "scan_larger (DICTHT_SIZE (ht_size_exp (ht0 d))) (ht0 d) (DICTHT_SIZE_MASK (ht_size_exp (ht1 d))) v = Some (es, v')"
          "step_covers ty v (c @ es) v' (ht_entries (ht1 d) @ ht_entries (ht0 d))"
          "set (c @ es) \<subseteq> set (ht_entries (ht1 d) @ ht_entries (ht0 d))"
        using scan_two_tables [OF D(2) e(2) D(1) e(1), of v] by auto
      then show ?thesis using gt False True by (auto simp: dictScan_def step_covers_def entries_def)
    next
      case le: False
      then obtain c es v' where "scan_bucket (ht0 d) v = Some c"
          "scan_larger (DICTHT_SIZE (ht_size_exp (ht1 d))) (ht1 d) (DICTHT_SIZE_MASK (ht_size_exp (ht0 d))) v = Some (es, v')"
          "step_covers ty v (c @ es) v' (ht_entries (ht0 d) @ ht_entries (ht1 d))"
          "set (c @ es) \<subseteq> set (ht_entries (ht0 d) @ ht_entries (ht1 d))"
        using scan_two_tables [OF D(1) e(1) D(2) e(2), of v] by auto
      then show ?thesis using le False True by (auto simp: dictScan_def step_covers_def entries_def)
    qed
  qed
qed

section \<open>Scans\<close>

lemma scan_all_returns:
  "\<forall>d \<in> set ds. dict_inv ty d \<Longrightarrow> \<exists>es v'. scan_all ds v = Some (es, v') \<and> set es \<subseteq> (\<Union>d \<in> set ds. set (entries d))"
proof (induction ds arbitrary: v)
  case (Cons d ds)
  then have "dict_inv ty d" by simp
  from dictScan_covers [OF this, of v] obtain es v1 where
    es: "dictScan d v = Some (es, v1)" "set es \<subseteq> set (entries d)" by blast
  obtain es' v' where "scan_all ds v1 = Some (es', v')" "set es' \<subseteq> (\<Union>d \<in> set ds. set (entries d))"
    using Cons.IH [of v1] Cons.prems by auto
  then show ?case using es by auto
qed simp

text \<open>A key that is in every dictionary of the scan and not before the cursor is emitted, or is still not before the
  last cursor, which has then advanced.\<close>

lemma scan_all_covers:
  assumes "\<forall>d \<in> set ds. dict_inv ty d \<and> k \<in> dom (dict_map d)" "scan_all ds v = Some (es, v')"
    "rpos v \<le> rpos (hashFunction ty k)"
  shows "k \<in> fst ` set es \<or> ds = [] \<or> rpos v < rpos v' \<and> rpos v' \<le> rpos (hashFunction ty k)"
  using assms
proof (induction ds arbitrary: v es)
  case (Cons d ds)
  then have inv: "dict_inv ty d" and k: "k \<in> fst ` set (entries d)"
    by (auto simp: dict_map_def dom_map_of_conv_image_fst)
  from dictScan_covers [OF inv, of v] obtain es1 v1 where
    es1: "dictScan d v = Some (es1, v1)" "step_covers ty v es1 v1 (entries d)" by blast
  obtain es2 where es2: "scan_all ds v1 = Some (es2, v')" "es = es1 @ es2"
    using Cons.prems(2) es1(1) by (auto split: bind_splits)
  from k obtain e where e: "e \<in> set (entries d)" "fst e = k" by blast
  then consider "e \<in> set es1" | "rpos v < rpos v1" "rpos v1 \<le> rpos (hashFunction ty k)"
    using es1(2) Cons.prems(3) unfolding step_covers_def by blast
  then show ?case
  proof cases
    case 1
    then show ?thesis using e(2) es2(2) by (auto intro: rev_image_eqI)
  next
    case 2
    have "k \<in> fst ` set es2 \<or> ds = [] \<or> rpos v1 < rpos v' \<and> rpos v' \<le> rpos (hashFunction ty k)"
      using Cons.IH [OF _ es2(1) 2(2)] Cons.prems(1) by simp
    then show ?thesis using 2 es2 by auto
  qed
qed simp

text \<open>The unchanged table: the \<open>i\<close>-th call visits the bucket whose number is \<open>i\<close> reversed.\<close>

definition visit :: "nat \<Rightarrow> nat \<Rightarrow> nat" where
  "visit n i = unat (rev_bits (of_nat (i * 2 ^ (64 - n))) AND mask n)"

lemma visit_block:
  assumes "n \<le> 64" "i < 2 ^ n"
  shows "rpos (rev_bits (of_nat (i * 2 ^ (64 - n)))) = i * 2 ^ (64 - n)"
proof -
  have "i * 2 ^ (64 - n) < 2 ^ n * 2 ^ (64 - n)" using assms(2) by simp
  also have "\<dots> = 2 ^ 64" using assms(1) by (simp flip: power_add)
  finally show ?thesis by (simp add: rpos_def unat_of_nat del: of_nat_mult of_nat_power)
qed

lemma visit_permutes:
  assumes "n \<le> 64"
  shows "mset (map (visit n) [0..<2 ^ n]) = mset [0..<2 ^ n]"
proof (rule set_eq_iff_mset_eq_distinct [THEN iffD1])
  have inj: "inj_on (visit n) {..<2 ^ n}"
  proof (rule inj_onI)
    fix i j
    assume ij: "i \<in> {..<2 ^ n}" "j \<in> {..<2 ^ n}" "visit n i = visit n j"
    then have "i * 2 ^ (64 - n) div 2 ^ (64 - n) = j * 2 ^ (64 - n) div 2 ^ (64 - n)"
      using mask_iff_block [OF assms, of "rev_bits (of_nat (i * 2 ^ (64 - n)))" "rev_bits (of_nat (j * 2 ^ (64 - n)))"]
        visit_block [OF assms, of i] visit_block [OF assms, of j]
      by (simp add: visit_def word_unat_eq_iff)
    then show "i = j" by simp
  qed
  then show "distinct (map (visit n) [0..<2 ^ n])" by (simp add: distinct_map atLeast0LessThan)
  have "visit n i < 2 ^ n" for i
    unfolding visit_def by (simp only: take_bit_eq_mask [symmetric] unsigned_take_bit_eq take_bit_nat_less_exp)
  then have "visit n ` {..<2 ^ n} \<subseteq> {..<2 ^ n}" by auto
  then have "visit n ` {..<2 ^ n} = {..<2 ^ n}" using inj by (intro endo_inj_surj) auto
  then show "set (map (visit n) [0..<2 ^ n]) = set [0..<2 ^ n]" by (simp add: atLeast0LessThan)
qed simp

lemma mset_concat_cong: "mset xss = mset yss \<Longrightarrow> mset (concat xss) = mset (concat yss)"
  by (metis mset_concat mset_map sum_mset_sum_list)

lemma scan_unchanged:
  assumes inv: "dict_inv ty d" and re: "\<not> dictIsRehashing d" and sz: "dictSize d \<noteq> 0"
    and n: "n = nat (ht_size_exp (ht0 d))" and "i + j \<le> 2 ^ n" "rpos v = i * 2 ^ (64 - n) mod 2 ^ 64"
  shows "\<exists>v'. scan_all (replicate j d) v = Some (concat (map (\<lambda>i. ht_table (ht0 d) ! visit n i) [i..<i + j]), v') \<and>
    rpos v' = (i + j) * 2 ^ (64 - n) mod 2 ^ 64"
  using assms(5-)
proof (induction j arbitrary: i v)
  case (Suc j)
  note D = dict_invD [OF inv]
  have e: "ht_size_exp (ht0 d) \<noteq> - 1" using exp_of_entries [OF inv sz] .
  have n64: "n \<le> 64" using ht_exp(1) [OF D(1) e] n by simp
  have i: "i < 2 ^ n" using Suc.prems(1) by simp
  have v: "v = rev_bits (of_nat (i * 2 ^ (64 - n)))"
    using Suc.prems(2) visit_block [OF n64 i]
    by (metis mod_less rev_bits_inject rpos_def rpos_less word_unat_eq_iff)
  let ?v1 = "next_cursor (mask n) v"
  have "rpos v = i * 2 ^ (64 - n)" using v visit_block [OF n64 i] by simp
  then have v1: "rpos ?v1 = Suc i * 2 ^ (64 - n) mod 2 ^ 64" using rpos_next [OF n64, of v] by simp
  have "dictScan d v = Some (ht_table (ht0 d) ! visit n i, ?v1)"
    using scan_bucket_block [OF D(1) e, of v] re sz v by (simp add: dictScan_def n ht_exp(2) [OF D(1) e] visit_def)
  moreover have le: "Suc i + j \<le> 2 ^ n" using Suc.prems(1) by simp
  moreover obtain v' where "scan_all (replicate j d) ?v1 =
      Some (concat (map (\<lambda>i. ht_table (ht0 d) ! visit n i) [Suc i..<Suc i + j]), v')"
      "rpos v' = (Suc i + j) * 2 ^ (64 - n) mod 2 ^ 64"
    using Suc.IH [OF le v1] by blast
  moreover have "[i..<i + Suc j] = i # [Suc i..<Suc i + j]" by (simp add: upt_conv_Cons)
  ultimately show ?case by simp
qed simp

lemma scan_round:
  assumes "dict_inv ty d" "\<not> dictIsRehashing d"
  shows "\<exists>es. scan_all (replicate (DICTHT_SIZE (ht_size_exp (ht0 d))) d) 0 = Some (es, 0) \<and> mset es = mset (entries d)"
proof (cases "dictSize d = 0")
  case True
  have "scan_all (replicate m d) 0 = Some ([], 0)" for m
    using True by (induction m) (simp_all add: dictScan_def)
  then show ?thesis using dictSize_entries [OF assms(1)] True by simp
next
  case False
  define n where "n = nat (ht_size_exp (ht0 d))"
  note D = dict_invD [OF assms(1)] and e = exp_of_entries [OF assms(1) False]
  note E = ht_exp [OF D(1) e, folded n_def]
  obtain v where v: "scan_all (replicate (2 ^ n) d) 0 =
      Some (concat (map (\<lambda>i. ht_table (ht0 d) ! visit n i) [0..<2 ^ n]), v)" "rpos v = 2 ^ n * 2 ^ (64 - n) mod 2 ^ 64"
    using scan_unchanged [OF assms False n_def, of 0 "2 ^ n" 0] by auto
  have "2 ^ n * 2 ^ (64 - n) = (2 ^ 64 :: nat)" using E(1) by (simp flip: power_add)
  then have "rev_bits v = rev_bits 0" using v(2) by (simp add: rpos_def unat_eq_0)
  then have "v = 0" by (simp only: rev_bits_inject)
  moreover have perm: "mset (map (\<lambda>i. ht_table (ht0 d) ! visit n i) [0..<2 ^ n]) = mset (ht_table (ht0 d))"
  proof -
    have "mset (map (\<lambda>i. ht_table (ht0 d) ! visit n i) [0..<2 ^ n]) =
        image_mset ((!) (ht_table (ht0 d))) (mset (map (visit n) [0..<2 ^ n]))"
      by (simp add: image_mset.compositionality comp_def)
    also have "\<dots> = mset (map ((!) (ht_table (ht0 d))) [0..<2 ^ n])"
      using visit_permutes [of n] E(1) by simp
    also have "map ((!) (ht_table (ht0 d))) [0..<2 ^ n] = ht_table (ht0 d)"
      using map_nth [of "ht_table (ht0 d)"] E(3) by simp
    finally show ?thesis .
  qed
  moreover have "entries d = concat (ht_table (ht0 d))"
    using D(4) assms(2) by (simp add: entries_def ht_entries_def dictReset_def)
  ultimately show ?thesis using v(1) E(4) mset_concat_cong [OF perm] by simp
qed

section \<open>Properties\<close>

definition four_dict :: "(nat, nat) dict" where
  "four_dict = moving_dict\<lparr>ht1 := dictReset, rehashidx := - 1\<rparr>"

lemma four_dict_inv: "dict_inv nat_type four_dict"
  using moving_dict_inv
  by (simp add: four_dict_def dict_inv_def moving_dict_def entries_def ht_entries_def dictReset_def ht_ok_def)

text \<open>C17. A scan that starts with cursor 0 and ends when a call returns cursor 0 emits every key that was in the
  dictionary at each call, whatever happened in between: insertions, deletions, growth, shrinking and any progress of
  rehashing.  No call faults, and nothing is emitted that was not in the dictionary.\<close>

theorem dictScan_complete:
  assumes "\<forall>d \<in> set ds. dict_inv ty d \<and> k \<in> dom (dict_map d)" "ds \<noteq> []"
  shows "\<exists>es v. scan_all ds 0 = Some (es, v) \<and> set es \<subseteq> (\<Union>d \<in> set ds. set (entries d)) \<and>
    (v = 0 \<longrightarrow> k \<in> fst ` set es)"
proof -
  obtain es v where es: "scan_all ds 0 = Some (es, v)" "set es \<subseteq> (\<Union>d \<in> set ds. set (entries d))"
    using scan_all_returns [of ds ty 0] assms(1) by blast
  then show ?thesis using scan_all_covers [OF assms(1) es(1)] assms(2) by auto
qed

theorem dictScan_complete_witness:
  "\<exists>es. scan_all [four_dict, four_dict, four_dict, four_dict] 0 = Some (es, 0) \<and> 5 \<in> fst ` set es"
proof -
  have "replicate (DICTHT_SIZE (ht_size_exp (ht0 four_dict))) four_dict = [four_dict, four_dict, four_dict, four_dict]"
    by (simp add: four_dict_def moving_dict_def DICTHT_SIZE_def numeral_eq_Suc)
  then have "\<exists>es. scan_all [four_dict, four_dict, four_dict, four_dict] 0 = Some (es, 0)"
    using scan_round [OF four_dict_inv] by (auto simp: four_dict_def dictIsRehashing_def)
  moreover have "5 \<in> dom (dict_map four_dict)"
    by (simp add: dict_map_def four_dict_def moving_dict_def entries_def ht_entries_def)
  ultimately show ?thesis
    using dictScan_complete [of "[four_dict, four_dict, four_dict, four_dict]" nat_type 5] four_dict_inv by auto
qed

text \<open>C34. Scanning a dictionary that does not change and is not rehashing takes one call per bucket, returns to cursor 0
  then, and emits every entry exactly once.\<close>

theorem dictScan_unchanged_exact:
  assumes "dict_inv ty d" "\<not> dictIsRehashing d"
  shows "\<exists>es. scan_all (replicate (DICTHT_SIZE (ht_size_exp (ht0 d))) d) 0 = Some (es, 0) \<and> mset es = mset (entries d)"
  by (rule scan_round [OF assms])

theorem dictScan_unchanged_exact_witness:
  "\<exists>es. scan_all (replicate (DICTHT_SIZE (ht_size_exp (ht0 four_dict))) four_dict) 0 = Some (es, 0) \<and>
     mset es = mset (entries four_dict)"
  by (rule dictScan_unchanged_exact [OF four_dict_inv]) (simp add: four_dict_def dictIsRehashing_def)

end
