(* ===== verification/Adlist.thy ===== *)
theory Adlist
  imports Redis_Prelude
begin

text \<open>
  The doubly linked list of \<open>adlist.c\<close>, with its pointers.  The heap maps addresses to nodes, \<open>NULL\<close> is
  \<open>None\<close>, and reading or writing through \<open>NULL\<close> or through an address that is not allocated makes the
  result \<open>None\<close>.  The allocator is a parameter; \<open>zmalloc\<close> aborts instead of returning \<open>NULL\<close>, so the
  branches for a failed allocation are not taken.  The \<open>free\<close> callback has no effect on the list and is not
  represented.
\<close>

section \<open>Model\<close>

type_synonym addr = nat

record 'a listNode =
  node_prev :: "addr option"
  node_next :: "addr option"
  node_value :: 'a

type_synonym 'a nodes = "addr \<rightharpoonup> 'a listNode"

record 'a list_hdr =
  list_head :: "addr option"
  list_tail :: "addr option"
  list_dup :: "('a \<Rightarrow> 'a option) option"
  list_match :: "('a \<Rightarrow> 'a \<Rightarrow> bool) option"
  list_len :: nat

datatype direction = AL_START_HEAD | AL_START_TAIL

record listIter =
  iter_next :: "addr option"
  iter_direction :: direction

definition rd :: "'a nodes \<Rightarrow> addr option \<Rightarrow> 'a listNode option" where
  "rd h p = (case p of None \<Rightarrow> None | Some a \<Rightarrow> h a)"

definition upd_node :: "'a nodes \<Rightarrow> addr option \<Rightarrow> ('a listNode \<Rightarrow> 'a listNode) \<Rightarrow> 'a nodes option" where
  "upd_node h p f = (case p of None \<Rightarrow> None | Some a \<Rightarrow> do { n \<leftarrow> h a; Some (h(a \<mapsto> f n)) })"

definition set_prev :: "'a nodes \<Rightarrow> addr option \<Rightarrow> addr option \<Rightarrow> 'a nodes option" where
  "set_prev h p q = upd_node h p (\<lambda>n. n\<lparr>node_prev := q\<rparr>)"

definition set_next :: "'a nodes \<Rightarrow> addr option \<Rightarrow> addr option \<Rightarrow> 'a nodes option" where
  "set_next h p q = upd_node h p (\<lambda>n. n\<lparr>node_next := q\<rparr>)"

definition listCreate :: "'a list_hdr" where
  "listCreate = \<lparr>list_head = None, list_tail = None, list_dup = None, list_match = None, list_len = 0\<rparr>"

fun listEmpty_loop :: "nat \<Rightarrow> 'a nodes \<Rightarrow> addr option \<Rightarrow> 'a nodes option" where
  "listEmpty_loop 0 h current = Some h"
| "listEmpty_loop (Suc len) h current = do {
     n \<leftarrow> rd h current;
     listEmpty_loop len (h(the current := None)) (node_next n)
   }"

definition listEmpty :: "'a nodes \<Rightarrow> 'a list_hdr \<Rightarrow> ('a nodes \<times> 'a list_hdr) option" where
  "listEmpty h l = do {
     h \<leftarrow> listEmpty_loop (list_len l) h (list_head l);
     Some (h, l\<lparr>list_head := None, list_tail := None, list_len := 0\<rparr>)
   }"

definition listLinkNodeHead :: "'a nodes \<Rightarrow> 'a list_hdr \<Rightarrow> addr \<Rightarrow> ('a nodes \<times> 'a list_hdr) option" where
  "listLinkNodeHead h l node =
     (if list_len l = 0
      then do {
        h \<leftarrow> set_prev h (Some node) None;
        h \<leftarrow> set_next h (Some node) None;
        Some (h, l\<lparr>list_head := Some node, list_tail := Some node, list_len := list_len l + 1\<rparr>)
      }
      else do {
        h \<leftarrow> set_prev h (Some node) None;
        h \<leftarrow> set_next h (Some node) (list_head l);
        h \<leftarrow> set_prev h (list_head l) (Some node);
        Some (h, l\<lparr>list_head := Some node, list_len := list_len l + 1\<rparr>)
      })"

definition listLinkNodeTail :: "'a nodes \<Rightarrow> 'a list_hdr \<Rightarrow> addr \<Rightarrow> ('a nodes \<times> 'a list_hdr) option" where
  "listLinkNodeTail h l node =
     (if list_len l = 0
      then do {
        h \<leftarrow> set_prev h (Some node) None;
        h \<leftarrow> set_next h (Some node) None;
        Some (h, l\<lparr>list_head := Some node, list_tail := Some node, list_len := list_len l + 1\<rparr>)
      }
      else do {
        h \<leftarrow> set_prev h (Some node) (list_tail l);
        h \<leftarrow> set_next h (Some node) None;
        h \<leftarrow> set_next h (list_tail l) (Some node);
        Some (h, l\<lparr>list_tail := Some node, list_len := list_len l + 1\<rparr>)
      })"

definition listInitNode :: "'a \<Rightarrow> 'a listNode" where
  "listInitNode v = \<lparr>node_prev = None, node_next = None, node_value = v\<rparr>"

text \<open>The allocator \<open>alloc\<close> picks the address of a new node.  Its fields are unset; the list operations set
  \<open>prev\<close> and \<open>next\<close> before they read them, so any node with the right value can stand for it.\<close>

definition listAddNodeHead :: "('a nodes \<Rightarrow> addr) \<Rightarrow> 'a nodes \<Rightarrow> 'a list_hdr \<Rightarrow> 'a \<Rightarrow> ('a nodes \<times> 'a list_hdr) option" where
  "listAddNodeHead alloc h l v = (let node = alloc h in listLinkNodeHead (h(node \<mapsto> listInitNode v)) l node)"

definition listAddNodeTail :: "('a nodes \<Rightarrow> addr) \<Rightarrow> 'a nodes \<Rightarrow> 'a list_hdr \<Rightarrow> 'a \<Rightarrow> ('a nodes \<times> 'a list_hdr) option" where
  "listAddNodeTail alloc h l v = (let node = alloc h in listLinkNodeTail (h(node \<mapsto> listInitNode v)) l node)"

definition listInsertNode ::
  "('a nodes \<Rightarrow> addr) \<Rightarrow> 'a nodes \<Rightarrow> 'a list_hdr \<Rightarrow> addr \<Rightarrow> 'a \<Rightarrow> bool \<Rightarrow> ('a nodes \<times> 'a list_hdr) option" where
  "listInsertNode alloc h l old_node v after = do {
     let node = alloc h;
     let h = h(node \<mapsto> listInitNode v);
     (h, l) \<leftarrow>
       (if after
        then do {
          h \<leftarrow> set_prev h (Some node) (Some old_node);
          old \<leftarrow> rd h (Some old_node);
          h \<leftarrow> set_next h (Some node) (node_next old);
          Some (h, if list_tail l = Some old_node then l\<lparr>list_tail := Some node\<rparr> else l)
        }
        else do {
          h \<leftarrow> set_next h (Some node) (Some old_node);
          old \<leftarrow> rd h (Some old_node);
          h \<leftarrow> set_prev h (Some node) (node_prev old);
          Some (h, if list_head l = Some old_node then l\<lparr>list_head := Some node\<rparr> else l)
        });
     n \<leftarrow> rd h (Some node);
     h \<leftarrow> (if node_prev n \<noteq> None then set_next h (node_prev n) (Some node) else Some h);
     h \<leftarrow> (if node_next n \<noteq> None then set_prev h (node_next n) (Some node) else Some h);
     Some (h, l\<lparr>list_len := list_len l + 1\<rparr>)
   }"

definition listUnlinkNode :: "'a nodes \<Rightarrow> 'a list_hdr \<Rightarrow> addr \<Rightarrow> ('a nodes \<times> 'a list_hdr) option" where
  "listUnlinkNode h l node = do {
     n \<leftarrow> rd h (Some node);
     (h, l) \<leftarrow> (if node_prev n \<noteq> None
               then do { h \<leftarrow> set_next h (node_prev n) (node_next n); Some (h, l) }
               else Some (h, l\<lparr>list_head := node_next n\<rparr>));
     n \<leftarrow> rd h (Some node);
     (h, l) \<leftarrow> (if node_next n \<noteq> None
               then do { h \<leftarrow> set_prev h (node_next n) (node_prev n); Some (h, l) }
               else Some (h, l\<lparr>list_tail := node_prev n\<rparr>));
     h \<leftarrow> set_next h (Some node) None;
     h \<leftarrow> set_prev h (Some node) None;
     if list_len l = 0 then None else Some (h, l\<lparr>list_len := list_len l - 1\<rparr>)
   }"

definition listDelNode :: "'a nodes \<Rightarrow> 'a list_hdr \<Rightarrow> addr \<Rightarrow> ('a nodes \<times> 'a list_hdr) option" where
  "listDelNode h l node = do { (h, l) \<leftarrow> listUnlinkNode h l node; Some (h(node := None), l) }"

definition listInitIterator :: "'a list_hdr \<Rightarrow> direction \<Rightarrow> listIter" where
  "listInitIterator l dir =
     \<lparr>iter_next = (if dir = AL_START_HEAD then list_head l else list_tail l), iter_direction = dir\<rparr>"

definition listRewind :: "'a list_hdr \<Rightarrow> listIter" where
  "listRewind l = \<lparr>iter_next = list_head l, iter_direction = AL_START_HEAD\<rparr>"

definition listRewindTail :: "'a list_hdr \<Rightarrow> listIter" where
  "listRewindTail l = \<lparr>iter_next = list_tail l, iter_direction = AL_START_TAIL\<rparr>"

text \<open>The result holds the node and the advanced iterator.\<close>

definition listNext :: "'a nodes \<Rightarrow> listIter \<Rightarrow> (addr option \<times> listIter) option" where
  "listNext h it =
     (case iter_next it of
        None \<Rightarrow> Some (None, it)
      | Some a \<Rightarrow> do {
          n \<leftarrow> h a;
          Some (Some a, it\<lparr>iter_next := (if iter_direction it = AL_START_HEAD then node_next n else node_prev n)\<rparr>)
        })"

definition dup_value :: "'a list_hdr \<Rightarrow> 'a \<Rightarrow> 'a option" where
  "dup_value l v = (case list_dup l of None \<Rightarrow> Some v | Some f \<Rightarrow> f v)"

text \<open>The loop of \<open>listDup\<close>.  The outer option is the fault, as everywhere; the inner one of the header is the
  \<open>NULL\<close> that is returned when duplicating a value fails.\<close>

partial_function (option) listDup_loop ::
  "('a nodes \<Rightarrow> addr) \<Rightarrow> 'a nodes \<Rightarrow> 'a list_hdr \<Rightarrow> listIter \<Rightarrow> ('a nodes \<times> 'a list_hdr option) option" where
  "listDup_loop alloc h copy it = do {
     (node, it) \<leftarrow> listNext h it;
     case node of
       None \<Rightarrow> Some (h, Some copy)
     | Some a \<Rightarrow> do {
         n \<leftarrow> h a;
         case dup_value copy (node_value n) of
           None \<Rightarrow> do { (h, _) \<leftarrow> listEmpty h copy; Some (h, None) }
         | Some v \<Rightarrow> do { (h, copy) \<leftarrow> listAddNodeTail alloc h copy v; listDup_loop alloc h copy it }
       }
   }"

definition listDup :: "('a nodes \<Rightarrow> addr) \<Rightarrow> 'a nodes \<Rightarrow> 'a list_hdr \<Rightarrow> ('a nodes \<times> 'a list_hdr option) option" where
  "listDup alloc h orig =
     listDup_loop alloc h (listCreate\<lparr>list_dup := list_dup orig, list_match := list_match orig\<rparr>) (listRewind orig)"

partial_function (option) listSearchKey_loop ::
  "('a \<Rightarrow> 'a \<Rightarrow> bool) \<Rightarrow> 'a nodes \<Rightarrow> 'a \<Rightarrow> listIter \<Rightarrow> addr option option" where
  "listSearchKey_loop mat h key it = do {
     (node, it) \<leftarrow> listNext h it;
     case node of
       None \<Rightarrow> Some None
     | Some a \<Rightarrow> do { n \<leftarrow> h a; if mat (node_value n) key then Some (Some a) else listSearchKey_loop mat h key it }
   }"

definition listSearchKey :: "'a nodes \<Rightarrow> 'a list_hdr \<Rightarrow> 'a \<Rightarrow> addr option option" where
  "listSearchKey h l key =
     listSearchKey_loop (case list_match l of Some f \<Rightarrow> f | None \<Rightarrow> (=)) h key (listRewind l)"

fun listIndex_loop :: "nat \<Rightarrow> ('a listNode \<Rightarrow> addr option) \<Rightarrow> 'a nodes \<Rightarrow> addr option \<Rightarrow> addr option option" where
  "listIndex_loop 0 link h n = Some n"
| "listIndex_loop (Suc i) link h n =
     (if n = None then Some n else do { x \<leftarrow> rd h n; listIndex_loop i link h (link x) })"

definition listIndex :: "'a nodes \<Rightarrow> 'a list_hdr \<Rightarrow> int \<Rightarrow> addr option option" where
  "listIndex h l i =
     (if i < 0 then listIndex_loop (nat (- i - 1)) node_prev h (list_tail l)
      else listIndex_loop (nat i) node_next h (list_head l))"

definition listRotateTailToHead :: "'a nodes \<Rightarrow> 'a list_hdr \<Rightarrow> ('a nodes \<times> 'a list_hdr) option" where
  "listRotateTailToHead h l =
     (if list_len l \<le> 1 then Some (h, l)
      else do {
        let tl_node = list_tail l;
        t \<leftarrow> rd h tl_node;
        let l = l\<lparr>list_tail := node_prev t\<rparr>;
        h \<leftarrow> set_next h (list_tail l) None;
        h \<leftarrow> set_prev h (list_head l) tl_node;
        h \<leftarrow> set_prev h tl_node None;
        h \<leftarrow> set_next h tl_node (list_head l);
        Some (h, l\<lparr>list_head := tl_node\<rparr>)
      })"

definition listRotateHeadToTail :: "'a nodes \<Rightarrow> 'a list_hdr \<Rightarrow> ('a nodes \<times> 'a list_hdr) option" where
  "listRotateHeadToTail h l =
     (if list_len l \<le> 1 then Some (h, l)
      else do {
        let hd_node = list_head l;
        n \<leftarrow> rd h hd_node;
        let l = l\<lparr>list_head := node_next n\<rparr>;
        h \<leftarrow> set_prev h (list_head l) None;
        h \<leftarrow> set_next h (list_tail l) hd_node;
        h \<leftarrow> set_next h hd_node None;
        h \<leftarrow> set_prev h hd_node (list_tail l);
        Some (h, l\<lparr>list_tail := hd_node\<rparr>)
      })"

definition listJoin :: "'a nodes \<Rightarrow> 'a list_hdr \<Rightarrow> 'a list_hdr \<Rightarrow> ('a nodes \<times> 'a list_hdr \<times> 'a list_hdr) option" where
  "listJoin h l ol =
     (if list_len ol = 0 then Some (h, l, ol)
      else do {
        h \<leftarrow> set_prev h (list_head ol) (list_tail l);
        (h, l) \<leftarrow> (if list_tail l \<noteq> None
                  then do { h \<leftarrow> set_next h (list_tail l) (list_head ol); Some (h, l) }
                  else Some (h, l\<lparr>list_head := list_head ol\<rparr>));
        Some (h, l\<lparr>list_tail := list_tail ol, list_len := list_len l + list_len ol\<rparr>,
              ol\<lparr>list_head := None, list_tail := None, list_len := 0\<rparr>)
      })"

section \<open>Representation\<close>

text \<open>A segment of linked nodes, given by addresses and values: the predecessor of the first node is \<open>p\<close> and the
  successor of the last one is \<open>q\<close>.\<close>

definition first_of :: "(addr \<times> 'a) list \<Rightarrow> addr option \<Rightarrow> addr option" where
  "first_of xs q = (case xs of [] \<Rightarrow> q | (a, _) # _ \<Rightarrow> Some a)"

definition last_of :: "addr option \<Rightarrow> (addr \<times> 'a) list \<Rightarrow> addr option" where
  "last_of p xs = (if xs = [] then p else Some (fst (last xs)))"

fun seg :: "'a nodes \<Rightarrow> addr option \<Rightarrow> (addr \<times> 'a) list \<Rightarrow> addr option \<Rightarrow> bool" where
  "seg h p [] q = True"
| "seg h p ((a, v) # xs) q \<longleftrightarrow>
     h a = Some \<lparr>node_prev = p, node_next = first_of xs q, node_value = v\<rparr> \<and> seg h (Some a) xs q"

definition list_rep :: "'a nodes \<Rightarrow> 'a list_hdr \<Rightarrow> (addr \<times> 'a) list \<Rightarrow> bool" where
  "list_rep h l xs \<longleftrightarrow> seg h None xs None \<and> distinct (map fst xs) \<and>
     list_head l = first_of xs None \<and> list_tail l = last_of None xs \<and> list_len l = length xs"

lemma first_of_simps [simp]:
  "first_of [] q = q" "first_of ((a, v) # xs) q = Some a"
  "first_of (xs @ ys) q = first_of xs (first_of ys q)"
  by (simp_all add: first_of_def split: list.splits)

lemma last_of_simps [simp]:
  "last_of p [] = p" "last_of p (xs @ [(a, v)]) = Some a"
  "last_of p ((a, v) # xs) = last_of (Some a) xs" "last_of p (xs @ ys) = last_of (last_of p xs) ys"
  by (auto simp: last_of_def)

lemma ends_neq [simp]:
  "b \<noteq> c \<Longrightarrow> b \<notin> fst ` set xs \<Longrightarrow> last_of (Some c) xs \<noteq> Some b"
  "b \<noteq> c \<Longrightarrow> b \<notin> fst ` set xs \<Longrightarrow> first_of xs (Some c) \<noteq> Some b"
  by (auto simp: last_of_def first_of_def split: list.splits)

lemma seg_append [simp]: "seg h p (xs @ ys) q \<longleftrightarrow> seg h p xs (first_of ys q) \<and> seg h (last_of p xs) ys q"
  by (induction h p xs q rule: seg.induct) auto

lemma seg_upd [simp]: "a \<notin> fst ` set xs \<Longrightarrow> seg (h(a := n)) p xs q \<longleftrightarrow> seg h p xs q"
  by (induction h p xs q rule: seg.induct) auto

lemma rd_simps [simp]: "rd h None = None" "rd h (Some a) = h a"
  by (simp_all add: rd_def)

lemma set_simps [simp]:
  "h a = Some n \<Longrightarrow> set_prev h (Some a) q = Some (h(a \<mapsto> n\<lparr>node_prev := q\<rparr>))"
  "h a = Some n \<Longrightarrow> set_next h (Some a) q = Some (h(a \<mapsto> n\<lparr>node_next := q\<rparr>))"
  by (simp_all add: set_prev_def set_next_def upd_node_def)

text \<open>The ends of a list, when it is not empty.\<close>

lemma last_split: "xs \<noteq> [] \<Longrightarrow> \<exists>ys a v. xs = ys @ [(a, v)]"
  by (metis append_butlast_last_id surj_pair)

text \<open>An operation that turns the list \<open>xs\<close> into \<open>ys\<close>, leaves the callbacks alone and touches only nodes in \<open>A\<close>.\<close>

definition list_step ::
  "addr set \<Rightarrow> 'a nodes \<Rightarrow> 'a list_hdr \<Rightarrow> (addr \<times> 'a) list \<Rightarrow> ('a nodes \<times> 'a list_hdr) option \<Rightarrow> bool" where
  "list_step A h l ys r \<longleftrightarrow> (\<exists>h' l'. r = Some (h', l') \<and> list_rep h' l' ys \<and> (\<forall>b. b \<notin> A \<longrightarrow> h' b = h b) \<and>
     list_dup l' = list_dup l \<and> list_match l' = list_match l)"

lemma seg_alloc: "seg h p xs q \<Longrightarrow> a \<in> fst ` set xs \<Longrightarrow> h a \<noteq> None"
  by (induction h p xs q rule: seg.induct) auto

lemma list_rep_fresh: "list_rep h l xs \<Longrightarrow> h a = None \<Longrightarrow> a \<notin> fst ` set xs"
  using seg_alloc [of h None xs None a] by (auto simp: list_rep_def)

lemma list_rep_frame: "list_rep h l xs \<Longrightarrow> (\<And>a. a \<in> fst ` set xs \<Longrightarrow> h' a = h a) \<Longrightarrow> list_rep h' l xs"
proof -
  have "seg h p xs q \<Longrightarrow> (\<And>a. a \<in> fst ` set xs \<Longrightarrow> h' a = h a) \<Longrightarrow> seg h' p xs q" for p q
    by (induction h p xs q rule: seg.induct) auto
  then show "list_rep h l xs \<Longrightarrow> (\<And>a. a \<in> fst ` set xs \<Longrightarrow> h' a = h a) \<Longrightarrow> list_rep h' l xs"
    by (simp add: list_rep_def)
qed

lemma list_rep_upd [simp]: "a \<notin> fst ` set xs \<Longrightarrow> list_rep (h(a := n)) l xs \<longleftrightarrow> list_rep h l xs"
  by (simp add: list_rep_def)

lemma listLinkNodeHead_step:
  assumes rep: "list_rep h l xs" and a: "h a = Some n" "a \<notin> fst ` set xs"
  shows "list_step (insert a (fst ` set xs)) h l ((a, node_value n) # xs) (listLinkNodeHead h l a)"
proof (cases xs)
  case Nil
  then show ?thesis using rep a by (simp add: list_step_def listLinkNodeHead_def list_rep_def)
next
  case (Cons x ys)
  obtain b w where "x = (b, w)" by fastforce
  then show ?thesis
    using Cons rep a by (auto simp: list_step_def listLinkNodeHead_def list_rep_def)
qed

lemma listLinkNodeTail_step:
  assumes rep: "list_rep h l xs" and a: "h a = Some n" "a \<notin> fst ` set xs"
  shows "list_step (insert a (fst ` set xs)) h l (xs @ [(a, node_value n)]) (listLinkNodeTail h l a)"
proof (cases "xs = []")
  case True
  then show ?thesis using rep a by (simp add: list_step_def listLinkNodeTail_def list_rep_def)
next
  case False
  obtain ys b w where "xs = ys @ [(b, w)]" using last_split [OF False] by blast
  then show ?thesis
    using rep a by (auto simp: list_step_def listLinkNodeTail_def list_rep_def)
qed

lemma listInsertNode_after:
  assumes rep: "list_rep h l (ys @ (b, w) # zs)" and alloc: "alloc h = a" and a: "h a = None"
  shows "list_step (insert a (fst ` set (ys @ (b, w) # zs))) h l (ys @ (b, w) # (a, v) # zs)
    (listInsertNode alloc h l b v True)"
proof -
  have a': "a \<notin> fst ` set (ys @ (b, w) # zs)" by (rule list_rep_fresh [OF rep a])
  show ?thesis
  proof (cases zs)
    case Nil
    then show ?thesis
      using rep a' by (auto simp: list_step_def listInsertNode_def list_rep_def listInitNode_def alloc Let_def image_Un)
  next
    case (Cons y zs')
    obtain c x where "y = (c, x)" by fastforce
    then show ?thesis
      using Cons rep a' by (auto simp: list_step_def listInsertNode_def list_rep_def listInitNode_def alloc Let_def image_Un)
  qed
qed

lemma listInsertNode_before:
  assumes rep: "list_rep h l (ys @ (b, w) # zs)" and alloc: "alloc h = a" and a: "h a = None"
  shows "list_step (insert a (fst ` set (ys @ (b, w) # zs))) h l (ys @ (a, v) # (b, w) # zs)
    (listInsertNode alloc h l b v False)"
proof -
  have a': "a \<notin> fst ` set (ys @ (b, w) # zs)" by (rule list_rep_fresh [OF rep a])
  show ?thesis
  proof (cases "ys = []")
    case True
    then show ?thesis
      using rep a' by (auto simp: list_step_def listInsertNode_def list_rep_def listInitNode_def alloc Let_def image_Un)
  next
    case False
    obtain ys' c x where "ys = ys' @ [(c, x)]" using last_split [OF False] by blast
    then show ?thesis
      using rep a' by (auto simp: list_step_def listInsertNode_def list_rep_def listInitNode_def alloc Let_def image_Un)
  qed
qed

lemma listUnlinkNode_step:
  assumes rep: "list_rep h l (ys @ (b, w) # zs)"
  shows "list_step (fst ` set (ys @ (b, w) # zs)) h l (ys @ zs) (listUnlinkNode h l b)"
proof -
  have ys: "ys = [] \<or> (\<exists>ys' c x. ys = ys' @ [(c, x)])" using last_split by blast
  have zs: "zs = [] \<or> (\<exists>c x zs'. zs = (c, x) # zs')" by (cases zs) auto
  show ?thesis
    using ys zs rep
    by (elim disjE exE) (auto simp: list_step_def listUnlinkNode_def list_rep_def)
qed

lemma listRotateTailToHead_step:
  assumes rep: "list_rep h l xs"
  shows "list_step (fst ` set xs) h l (if length xs \<le> 1 then xs else last xs # butlast xs) (listRotateTailToHead h l)"
proof (cases "length xs \<le> 1")
  case True
  then show ?thesis using rep by (simp add: list_step_def listRotateTailToHead_def list_rep_def Let_def)
next
  case False
  then obtain b w ys where "xs = (b, w) # ys" "ys \<noteq> []" by (cases xs) auto
  moreover from this obtain zs c x where "ys = zs @ [(c, x)]" using last_split by blast
  moreover have "zs = [] \<or> (\<exists>zs' d y. zs = zs' @ [(d, y)])" using last_split by blast
  ultimately show ?thesis
    using rep by (elim disjE exE) (auto simp: list_step_def listRotateTailToHead_def list_rep_def Let_def butlast_append)
qed

lemma listRotateHeadToTail_step:
  assumes rep: "list_rep h l xs"
  shows "list_step (fst ` set xs) h l (if length xs \<le> 1 then xs else tl xs @ [hd xs]) (listRotateHeadToTail h l)"
proof (cases "length xs \<le> 1")
  case True
  then show ?thesis using rep by (simp add: list_step_def listRotateHeadToTail_def list_rep_def Let_def)
next
  case False
  then obtain b w ys where "xs = (b, w) # ys" "ys \<noteq> []" by (cases xs) auto
  moreover from this obtain zs c x where "ys = zs @ [(c, x)]" using last_split by blast
  moreover have "zs = [] \<or> (\<exists>d y zs'. zs = (d, y) # zs')" by (cases zs) auto
  ultimately show ?thesis
    using rep by (elim disjE exE) (auto simp: list_step_def listRotateHeadToTail_def list_rep_def Let_def)
qed

lemma listDelNode_step:
  assumes "list_rep h l (ys @ (b, w) # zs)"
  shows "list_step (fst ` set (ys @ (b, w) # zs)) h l (ys @ zs) (listDelNode h l b)"
proof -
  have b: "b \<notin> fst ` set (ys @ zs)" using assms by (auto simp: list_rep_def)
  obtain h' l' where "listUnlinkNode h l b = Some (h', l')" "list_rep h' l' (ys @ zs)"
      "\<forall>c. c \<notin> fst ` set (ys @ (b, w) # zs) \<longrightarrow> h' c = h c" "list_dup l' = list_dup l" "list_match l' = list_match l"
    using listUnlinkNode_step [OF assms] unfolding list_step_def by blast
  moreover have "list_rep (h'(b := None)) l' (ys @ zs)" using calculation(2) b by simp
  ultimately show ?thesis by (auto simp: listDelNode_def list_step_def)
qed

lemma listEmpty_loop_frees:
  "seg h p xs None \<Longrightarrow> distinct (map fst xs) \<Longrightarrow>
    \<exists>h'. listEmpty_loop (length xs) h (first_of xs None) = Some h' \<and> (\<forall>a. h' a = (if a \<in> fst ` set xs then None else h a))"
proof (induction xs arbitrary: h p)
  case (Cons x xs)
  obtain a v where x: "x = (a, v)" by fastforce
  have "seg (h(a := None)) (Some a) xs None" using Cons.prems x by simp
  moreover have "distinct (map fst xs)" using Cons.prems(2) by simp
  ultimately obtain h' where "listEmpty_loop (length xs) (h(a := None)) (first_of xs None) = Some h'"
      "\<forall>b. h' b = (if b \<in> fst ` set xs then None else (h(a := None)) b)"
    using Cons.IH by blast
  then show ?case using Cons.prems(1) x by auto
qed simp

lemma listEmpty_step:
  assumes "list_rep h l xs"
  shows "\<exists>h' l'. listEmpty h l = Some (h', l') \<and> list_rep h' l' [] \<and> (\<forall>a. h' a = (if a \<in> fst ` set xs then None else h a)) \<and>
    list_dup l' = list_dup l \<and> list_match l' = list_match l"
  using assms listEmpty_loop_frees [of h None xs] by (auto simp: list_rep_def listEmpty_def)

text \<open>Walking: the iterator visits the nodes in order, from either end.\<close>

lemma listNext_head:
  "seg h p ((a, v) # xs) q \<Longrightarrow>
   listNext h \<lparr>iter_next = Some a, iter_direction = AL_START_HEAD\<rparr> =
     Some (Some a, \<lparr>iter_next = first_of xs q, iter_direction = AL_START_HEAD\<rparr>)"
  by (simp add: listNext_def)

lemma listNext_tail:
  "seg h p (xs @ [(a, v)]) q \<Longrightarrow>
   listNext h \<lparr>iter_next = Some a, iter_direction = AL_START_TAIL\<rparr> =
     Some (Some a, \<lparr>iter_next = last_of p xs, iter_direction = AL_START_TAIL\<rparr>)"
  by (simp add: listNext_def)

lemma listNext_end: "listNext h \<lparr>iter_next = None, iter_direction = dir\<rparr> = Some (None, \<lparr>iter_next = None, iter_direction = dir\<rparr>)"
  by (simp add: listNext_def)

text \<open>The first node whose value matches.\<close>

fun find_node :: "('a \<Rightarrow> bool) \<Rightarrow> (addr \<times> 'a) list \<Rightarrow> addr option" where
  "find_node f [] = None"
| "find_node f ((a, v) # xs) = (if f v then Some a else find_node f xs)"

lemma listSearchKey_loop_finds:
  "seg h p xs None \<Longrightarrow>
   listSearchKey_loop mat h key \<lparr>iter_next = first_of xs None, iter_direction = AL_START_HEAD\<rparr> =
     Some (find_node (\<lambda>v. mat v key) xs)"
proof (induction xs arbitrary: p)
  case Nil
  then show ?case by (subst listSearchKey_loop.simps) (simp add: listNext_end)
next
  case (Cons x xs)
  obtain a v where x: "x = (a, v)" by fastforce
  have "seg h (Some a) xs None" using Cons.prems x by simp
  from Cons.IH [OF this] show ?case
    using Cons.prems x by (subst listSearchKey_loop.simps) (simp add: listNext_def)
qed

lemma listSearchKey_correct:
  "list_rep h l xs \<Longrightarrow>
   listSearchKey h l key = Some (find_node (\<lambda>v. (case list_match l of Some f \<Rightarrow> f | None \<Rightarrow> (=)) v key) xs)"
  unfolding listSearchKey_def listRewind_def
  using listSearchKey_loop_finds [of h None xs] by (simp add: list_rep_def)

definition node_at :: "(addr \<times> 'a) list \<Rightarrow> int \<Rightarrow> addr option" where
  "node_at xs i = (let j = (if i < 0 then i + int (length xs) else i) in
     if 0 \<le> j \<and> j < int (length xs) then Some (fst (xs ! nat j)) else None)"

lemma listIndex_loop_forward:
  "seg h p xs None \<Longrightarrow>
   listIndex_loop i node_next h (first_of xs None) = Some (if i < length xs then Some (fst (xs ! i)) else None)"
proof (induction i arbitrary: xs p)
  case 0
  then show ?case by (cases xs) auto
next
  case (Suc i)
  show ?case
  proof (cases xs)
    case (Cons x ys)
    obtain a v where "x = (a, v)" by fastforce
    then show ?thesis using Suc.IH [of "Some a" ys] Suc.prems Cons by simp
  qed simp
qed

lemma listIndex_loop_backward:
  "seg h None xs q \<Longrightarrow>
   listIndex_loop i node_prev h (last_of None xs) = Some (if i < length xs then Some (fst (xs ! (length xs - Suc i))) else None)"
proof (induction i arbitrary: xs q)
  case 0
  then show ?case using last_split [of xs] by (cases "xs = []") auto
next
  case (Suc i)
  show ?case
  proof (cases "xs = []")
    case False
    obtain ys a v where "xs = ys @ [(a, v)]" using last_split [OF False] by blast
    then show ?thesis using Suc.IH [of ys "Some a"] Suc.prems by (auto simp: nth_append)
  qed simp
qed

lemma listIndex_correct:
  assumes "list_rep h l xs"
  shows "listIndex h l i = Some (node_at xs i)"
proof -
  have s: "seg h None xs None" "list_head l = first_of xs None" "list_tail l = last_of None xs"
    using assms by (simp_all add: list_rep_def)
  have "length xs - Suc (nat (- i - 1)) = nat (i + int (length xs))" if "i < 0" "- i \<le> int (length xs)"
    using that by linarith
  then show ?thesis
    using s listIndex_loop_forward [OF s(1), of "nat i"] listIndex_loop_backward [OF s(1), of "nat (- i - 1)"]
    by (auto simp: listIndex_def node_at_def Let_def nat_less_iff)
qed

section \<open>Two lists\<close>

lemma listJoin_correct:
  assumes "list_rep h l xs" "list_rep h ol ys" "fst ` set xs \<inter> fst ` set ys = {}"
  shows "\<exists>h' l' ol'. listJoin h l ol = Some (h', l', ol') \<and> list_rep h' l' (xs @ ys) \<and> list_rep h' ol' []"
proof (cases ys)
  case Nil
  then show ?thesis using assms by (auto simp: listJoin_def list_rep_def)
next
  case (Cons y ys')
  obtain b w where y: "y = (b, w)" by fastforce
  show ?thesis
  proof (cases "xs = []")
    case True
    then show ?thesis using Cons y assms by (auto simp: listJoin_def list_rep_def)
  next
    case False
    obtain xs' a v where "xs = xs' @ [(a, v)]" using last_split [OF False] by blast
    then show ?thesis using Cons y assms by (auto simp: listJoin_def list_rep_def)
  qed
qed

text \<open>The allocator never returns a node in use.\<close>

definition alloc_ok :: "('a nodes \<Rightarrow> addr) \<Rightarrow> bool" where
  "alloc_ok alloc \<longleftrightarrow> (\<forall>h. finite (dom h) \<longrightarrow> h (alloc h) = None)"

lemma alloc_fresh: "alloc_ok alloc \<Longrightarrow> finite (dom h) \<Longrightarrow> h (alloc h) = None"
  by (simp add: alloc_ok_def)

lemma listAddNodeTail_step:
  assumes "list_rep h l xs" "h (alloc h) = None"
  shows "list_step (insert (alloc h) (fst ` set xs)) h l (xs @ [(alloc h, v)]) (listAddNodeTail alloc h l v)"
proof -
  let ?h = "h(alloc h \<mapsto> listInitNode v)"
  have a: "alloc h \<notin> fst ` set xs" by (rule list_rep_fresh [OF assms])
  then have "list_rep ?h l xs" using assms(1) by simp
  from listLinkNodeTail_step [OF this _ a, of "listInitNode v"] show ?thesis
    by (auto simp: list_step_def listAddNodeTail_def listInitNode_def Let_def)
qed

lemma listAddNodeHead_step:
  assumes "list_rep h l xs" "h (alloc h) = None"
  shows "list_step (insert (alloc h) (fst ` set xs)) h l ((alloc h, v) # xs) (listAddNodeHead alloc h l v)"
proof -
  let ?h = "h(alloc h \<mapsto> listInitNode v)"
  have a: "alloc h \<notin> fst ` set xs" by (rule list_rep_fresh [OF assms])
  then have "list_rep ?h l xs" using assms(1) by simp
  from listLinkNodeHead_step [OF this _ a, of "listInitNode v"] show ?thesis
    by (auto simp: list_step_def listAddNodeHead_def listInitNode_def Let_def)
qed

lemma list_step_finite:
  assumes "list_step A h l ys (Some (h', l'))" "finite A" "finite (dom h)"
  shows "finite (dom h')"
proof (rule finite_subset)
  show "dom h' \<subseteq> dom h \<union> A" using assms(1) by (auto simp: list_step_def)
qed (use assms in simp)

text \<open>Copying a list.  The values are duplicated by the callback, if there is one; when it fails for one of them, the
  part copied so far is released again.\<close>

definition dup_done ::
  "'a nodes \<Rightarrow> (addr \<times> 'a) list \<Rightarrow> 'a list option \<Rightarrow> 'a nodes \<Rightarrow> 'a list_hdr option \<Rightarrow> bool" where
  "dup_done h zs ows h' r \<longleftrightarrow>
     (case ows of
        None \<Rightarrow> r = None \<and> h' = h
      | Some ws \<Rightarrow> \<exists>c ys. r = Some c \<and> list_rep h' c (zs @ ys) \<and> map snd ys = ws \<and>
          (\<forall>b. b \<notin> fst ` set (zs @ ys) \<longrightarrow> h' b = h b) \<and> (\<forall>b \<in> fst ` set (zs @ ys). h b = None))"

lemma dup_done_snoc: "dup_done h (zs @ [(a, w)]) ows h' r \<Longrightarrow> dup_done h zs (map_option (Cons w) ows) h' r"
proof (cases ows)
  case (Some ws)
  assume "dup_done h (zs @ [(a, w)]) ows h' r"
  then obtain c ys where "r = Some c" "list_rep h' c (zs @ (a, w) # ys)" "map snd ys = ws"
      "\<forall>b. b \<notin> fst ` set (zs @ (a, w) # ys) \<longrightarrow> h' b = h b" "\<forall>b \<in> fst ` set (zs @ (a, w) # ys). h b = None"
    using Some by (auto simp: dup_done_def)
  then show ?thesis using Some unfolding dup_done_def by (auto intro!: exI [of _ "(a, w) # ys"])
qed (simp add: dup_done_def)

lemma listDup_loop_correct:
  assumes "alloc_ok alloc" "list_rep hc c zs" "finite (dom hc)" "seg h p xs None"
    "\<forall>b. b \<notin> fst ` set zs \<longrightarrow> hc b = h b" "\<forall>b \<in> fst ` set zs. h b = None"
  shows "\<exists>h' r. listDup_loop alloc hc c \<lparr>iter_next = first_of xs None, iter_direction = AL_START_HEAD\<rparr> = Some (h', r) \<and>
    dup_done h zs (those (map (dup_value c \<circ> snd) xs)) h' r"
  using assms
proof (induction xs arbitrary: hc c zs p)
  case Nil
  then show ?case by (subst listDup_loop.simps) (auto simp: listNext_end dup_done_def)
next
  case (Cons x xs)
  obtain a v where x: "x = (a, v)" by fastforce
  have ha: "h a = Some \<lparr>node_prev = p, node_next = first_of xs None, node_value = v\<rparr>" and s: "seg h (Some a) xs None"
    using Cons.prems(4) x by auto
  have "a \<notin> fst ` set zs" using Cons.prems(6) ha by (metis option.distinct(1))
  then have n: "hc a = Some \<lparr>node_prev = p, node_next = first_of xs None, node_value = v\<rparr>" using Cons.prems(5) ha by simp
  then have it: "listNext hc \<lparr>iter_next = first_of (x # xs) None, iter_direction = AL_START_HEAD\<rparr> =
      Some (Some a, \<lparr>iter_next = first_of xs None, iter_direction = AL_START_HEAD\<rparr>)"
    using x by (simp add: listNext_def)
  show ?case
  proof (cases "dup_value c v")
    case None
    obtain h' l' where e: "listEmpty hc c = Some (h', l')" "\<forall>b. h' b = (if b \<in> fst ` set zs then None else hc b)"
      using listEmpty_step [OF Cons.prems(2)] by blast
    have "h' = h" using e(2) Cons.prems(5,6) by (intro ext) auto
    then show ?thesis
      using None it n x e(1) by (subst listDup_loop.simps) (auto simp: dup_done_def)
  next
    case (Some w)
    let ?a = "alloc hc"
    have fr: "hc ?a = None" using alloc_fresh [OF Cons.prems(1,3)] .
    have st: "list_step (insert ?a (fst ` set zs)) hc c (zs @ [(?a, w)]) (listAddNodeTail alloc hc c w)"
      using Cons.prems(2) fr by (rule listAddNodeTail_step)
    then obtain h1 c1 where h1: "listAddNodeTail alloc hc c w = Some (h1, c1)" "list_rep h1 c1 (zs @ [(?a, w)])"
        "\<forall>b. b \<notin> insert ?a (fst ` set zs) \<longrightarrow> h1 b = hc b" "list_dup c1 = list_dup c"
      unfolding list_step_def by blast
    have fin: "finite (dom h1)" using list_step_finite [OF st [unfolded h1(1)]] Cons.prems(3) by simp
    have dv: "dup_value c1 = dup_value c" using h1(4) by (simp add: dup_value_def fun_eq_iff)
    have "h ?a = None" using fr Cons.prems(5) list_rep_fresh [OF Cons.prems(2) fr] by metis
    then have "\<forall>b \<in> fst ` set (zs @ [(?a, w)]). h b = None" using Cons.prems(6) by simp
    moreover have "\<forall>b. b \<notin> fst ` set (zs @ [(?a, w)]) \<longrightarrow> h1 b = h b" using h1(3) Cons.prems(5) by simp
    ultimately obtain h' r where
      hr: "listDup_loop alloc h1 c1 \<lparr>iter_next = first_of xs None, iter_direction = AL_START_HEAD\<rparr> = Some (h', r)"
        "dup_done h (zs @ [(?a, w)]) (those (map (dup_value c1 \<circ> snd) xs)) h' r"
      using Cons.IH [OF Cons.prems(1) h1(2) fin s] by blast
    have "listDup_loop alloc hc c \<lparr>iter_next = first_of (x # xs) None, iter_direction = AL_START_HEAD\<rparr> = Some (h', r)"
      using Some it n h1(1) hr(1) by (subst listDup_loop.simps) simp
    then show ?thesis using dup_done_snoc [OF hr(2)] Some x dv by (simp add: comp_def)
  qed
qed

lemma listDup_correct:
  assumes "alloc_ok alloc" "list_rep h l xs" "finite (dom h)"
  shows "\<exists>h' r. listDup alloc h l = Some (h', r) \<and> dup_done h [] (those (map (dup_value l \<circ> snd) xs)) h' r"
proof -
  let ?c = "listCreate\<lparr>list_dup := list_dup l, list_match := list_match l\<rparr>"
  have "list_rep h ?c []" by (simp add: list_rep_def listCreate_def)
  moreover have "seg h None xs None" "list_head l = first_of xs None" using assms(2) by (simp_all add: list_rep_def)
  moreover have "dup_value ?c = dup_value l" by (simp add: dup_value_def fun_eq_iff)
  ultimately show ?thesis
    using listDup_loop_correct [OF assms(1) _ assms(3), of ?c "[]" h None xs] by (simp add: listDup_def listRewind_def)
qed

section \<open>The list as a sequence\<close>

datatype 'a list_cmd = Push_Head 'a | Push_Tail 'a | Insert_At int 'a bool | Del_At int | Rotate_Tail | Rotate_Head
  | Search 'a | Clear
datatype 'a list_reply = Ok | Missing | Hit "'a option"

fun list_exec :: "('a nodes \<Rightarrow> addr) \<Rightarrow> 'a nodes \<times> 'a list_hdr \<Rightarrow> 'a list_cmd \<Rightarrow> (('a nodes \<times> 'a list_hdr) \<times> 'a list_reply) option" where
  "list_exec alloc (h, l) (Push_Head v) = map_option (\<lambda>s. (s, Ok)) (listAddNodeHead alloc h l v)"
| "list_exec alloc (h, l) (Push_Tail v) = map_option (\<lambda>s. (s, Ok)) (listAddNodeTail alloc h l v)"
| "list_exec alloc (h, l) (Insert_At i v after) = do {
     n \<leftarrow> listIndex h l i;
     case n of None \<Rightarrow> Some ((h, l), Missing)
     | Some a \<Rightarrow> map_option (\<lambda>s. (s, Ok)) (listInsertNode alloc h l a v after) }"
| "list_exec alloc (h, l) (Del_At i) = do {
     n \<leftarrow> listIndex h l i;
     case n of None \<Rightarrow> Some ((h, l), Missing) | Some a \<Rightarrow> map_option (\<lambda>s. (s, Ok)) (listDelNode h l a) }"
| "list_exec alloc (h, l) Rotate_Tail = map_option (\<lambda>s. (s, Ok)) (listRotateTailToHead h l)"
| "list_exec alloc (h, l) Rotate_Head = map_option (\<lambda>s. (s, Ok)) (listRotateHeadToTail h l)"
| "list_exec alloc (h, l) (Search k) = do {
     n \<leftarrow> listSearchKey h l k;
     case n of None \<Rightarrow> Some ((h, l), Hit None) | Some a \<Rightarrow> do { x \<leftarrow> h a; Some ((h, l), Hit (Some (node_value x))) } }"
| "list_exec alloc (h, l) Clear = map_option (\<lambda>s. (s, Ok)) (listEmpty h l)"

text \<open>The specification on plain lists.  A negative index counts from the end.\<close>

definition at_index :: "'a list \<Rightarrow> int \<Rightarrow> nat option" where
  "at_index vs i = (let j = (if i < 0 then i + int (length vs) else i) in
     if 0 \<le> j \<and> j < int (length vs) then Some (nat j) else None)"

fun list_spec :: "('a \<Rightarrow> 'a \<Rightarrow> bool) \<Rightarrow> 'a list \<Rightarrow> 'a list_cmd \<Rightarrow> 'a list \<times> 'a list_reply" where
  "list_spec mat vs (Push_Head v) = (v # vs, Ok)"
| "list_spec mat vs (Push_Tail v) = (vs @ [v], Ok)"
| "list_spec mat vs (Insert_At i v after) =
     (case at_index vs i of None \<Rightarrow> (vs, Missing)
      | Some j \<Rightarrow> let j = (if after then Suc j else j) in (take j vs @ v # drop j vs, Ok))"
| "list_spec mat vs (Del_At i) =
     (case at_index vs i of None \<Rightarrow> (vs, Missing) | Some j \<Rightarrow> (take j vs @ drop (Suc j) vs, Ok))"
| "list_spec mat vs Rotate_Tail = (if vs = [] then vs else last vs # butlast vs, Ok)"
| "list_spec mat vs Rotate_Head = (if vs = [] then vs else tl vs @ [hd vs], Ok)"
| "list_spec mat vs (Search k) = (vs, Hit (find (\<lambda>v. mat v k) vs))"
| "list_spec mat vs Clear = ([], Ok)"

definition seq_rep :: "('a nodes \<Rightarrow> addr) \<Rightarrow> ('a \<Rightarrow> 'a \<Rightarrow> bool) \<Rightarrow> 'a nodes \<times> 'a list_hdr \<Rightarrow> 'a list \<Rightarrow> bool" where
  "seq_rep alloc mat s vs \<longleftrightarrow> alloc_ok alloc \<and> finite (dom (fst s)) \<and> (\<exists>xs. list_rep (fst s) (snd s) xs \<and> map snd xs = vs) \<and>
     (case list_match (snd s) of Some f \<Rightarrow> f | None \<Rightarrow> (=)) = mat"

lemma seq_rep_step:
  assumes "list_step A h l ys r" "finite A" "seq_rep alloc mat (h, l) vs"
  shows "\<exists>s'. map_option (\<lambda>s. (s, Ok)) r = Some (s', Ok) \<and> seq_rep alloc mat s' (map snd ys)"
proof -
  obtain h' l' where r: "r = Some (h', l')" "list_rep h' l' ys" "list_match l' = list_match l"
    using assms(1) unfolding list_step_def by blast
  have "finite (dom h')" using list_step_finite [OF assms(1) [unfolded r(1)] assms(2)] assms(3) by (simp add: seq_rep_def)
  then show ?thesis using r assms(3) by (auto simp: seq_rep_def)
qed

text \<open>The node at a valid index splits the list there.\<close>

lemma at_index_split:
  assumes "at_index (map snd xs) i = Some j"
  shows "j < length xs" "node_at xs i = Some (fst (xs ! j))" "xs = take j xs @ (fst (xs ! j), snd (xs ! j)) # drop (Suc j) xs"
  using assms id_take_nth_drop [of j xs] by (auto simp: at_index_def node_at_def Let_def split: if_splits)

lemma at_index_none: "at_index (map snd xs) i = None \<Longrightarrow> node_at xs i = None"
  by (auto simp: at_index_def node_at_def Let_def split: if_splits)

lemma find_node_value:
  "seg h p xs q \<Longrightarrow> (case find_node f xs of None \<Rightarrow> find f (map snd xs) = None
     | Some a \<Rightarrow> \<exists>x. h a = Some x \<and> find f (map snd xs) = Some (node_value x))"
  by (induction h p xs q rule: seg.induct) (auto split: option.splits)

lemma seq_insert:
  assumes rep: "seq_rep alloc mat (h, l) vs"
  shows "\<exists>s'. list_exec alloc (h, l) (Insert_At i v after) = Some (s', snd (list_spec mat vs (Insert_At i v after))) \<and>
    seq_rep alloc mat s' (fst (list_spec mat vs (Insert_At i v after)))"
proof -
  obtain xs where xs: "list_rep h l xs" "map snd xs = vs" and fr: "h (alloc h) = None"
    using rep alloc_fresh by (auto simp: seq_rep_def)
  show ?thesis
  proof (cases "at_index vs i")
    case None
    then show ?thesis using rep listIndex_correct [OF xs(1)] at_index_none [of xs i] xs(2) by simp
  next
    case (Some j)
    note at = at_index_split [OF Some [folded xs(2)]]
    let ?a = "fst (xs ! j)" and ?w = "snd (xs ! j)"
    have l: "list_rep h l (take j xs @ (?a, ?w) # drop (Suc j) xs)" using xs(1) at(3) by simp
    have "vs = map snd (take j xs) @ ?w # map snd (drop (Suc j) xs)"
      using arg_cong [OF at(3), of "map snd"] xs(2) by simp
    then have "take j vs = map snd (take j xs)" "drop j vs = ?w # map snd (drop (Suc j) xs)"
      "take (Suc j) vs = map snd (take j xs) @ [?w]" "drop (Suc j) vs = map snd (drop (Suc j) xs)"
      using at(1) by (simp_all add: min_absorb2)
    then show ?thesis
      using Some listIndex_correct [OF xs(1)] at(2) rep
        seq_rep_step [OF listInsertNode_after [where alloc = alloc and a = "alloc h", OF l refl fr, of v]]
        seq_rep_step [OF listInsertNode_before [where alloc = alloc and a = "alloc h", OF l refl fr, of v]]
      by (cases after) auto
  qed
qed

lemma seq_delete:
  assumes rep: "seq_rep alloc mat (h, l) vs"
  shows "\<exists>s'. list_exec alloc (h, l) (Del_At i) = Some (s', snd (list_spec mat vs (Del_At i))) \<and>
    seq_rep alloc mat s' (fst (list_spec mat vs (Del_At i)))"
proof -
  obtain xs where xs: "list_rep h l xs" "map snd xs = vs" using rep by (auto simp: seq_rep_def)
  show ?thesis
  proof (cases "at_index vs i")
    case None
    then show ?thesis using rep listIndex_correct [OF xs(1)] at_index_none [of xs i] xs(2) by simp
  next
    case (Some j)
    note at = at_index_split [OF Some [folded xs(2)]]
    have l: "list_rep h l (take j xs @ (fst (xs ! j), snd (xs ! j)) # drop (Suc j) xs)" using xs(1) at(3) by simp
    show ?thesis
      using Some listIndex_correct [OF xs(1)] at(2) seq_rep_step [OF listDelNode_step [OF l] _ rep] xs(2)
      by (auto simp: take_map drop_map)
  qed
qed

interpretation dll: simulation "seq_rep alloc mat" "list_exec alloc" "list_spec mat"
  for alloc :: "'a nodes \<Rightarrow> addr" and mat
proof
  fix s :: "'a nodes \<times> 'a list_hdr" and vs c
  assume rep: "seq_rep alloc mat s vs"
  obtain h l where s: "s = (h, l)" by fastforce
  obtain xs where xs: "list_rep h l xs" "map snd xs = vs" and fin: "finite (dom h)" and ok: "alloc_ok alloc"
    using rep s by (auto simp: seq_rep_def)
  have fr: "h (alloc h) = None" by (rule alloc_fresh [OF ok fin])
  note st = seq_rep_step [OF _ _ rep [unfolded s]]
  show "\<exists>s'. list_exec alloc s c = Some (s', snd (list_spec mat vs c)) \<and> seq_rep alloc mat s' (fst (list_spec mat vs c))"
  proof (cases c)
    case (Push_Head v)
    then show ?thesis using st [OF listAddNodeHead_step [where alloc = alloc, OF xs(1) fr, of v]] s xs(2) by auto
  next
    case (Push_Tail v)
    then show ?thesis using st [OF listAddNodeTail_step [where alloc = alloc, OF xs(1) fr, of v]] s xs(2) by auto
  next
    case (Insert_At i v after)
    then show ?thesis unfolding s using seq_insert [OF rep [unfolded s], of i v after] by (simp only:)
  next
    case (Del_At i)
    then show ?thesis unfolding s using seq_delete [OF rep [unfolded s], of i] by (simp only:)
  next
    case Rotate_Tail
    have "map snd (if length xs \<le> 1 then xs else last xs # butlast xs) = (if vs = [] then vs else last vs # butlast vs)"
      using xs(2) by (cases xs; cases "tl xs") (auto simp: map_butlast last_map)
    then show ?thesis using Rotate_Tail s st [OF listRotateTailToHead_step [OF xs(1)]] by simp
  next
    case Rotate_Head
    have "map snd (if length xs \<le> 1 then xs else tl xs @ [hd xs]) = (if vs = [] then vs else tl vs @ [hd vs])"
      using xs(2) by (cases xs; cases "tl xs") auto
    then show ?thesis using Rotate_Head s st [OF listRotateHeadToTail_step [OF xs(1)]] by simp
  next
    case (Search k)
    have "seg h None xs None" using xs(1) by (simp add: list_rep_def)
    note fnd = find_node_value [OF this, of "\<lambda>v. mat v k", unfolded xs(2)]
    have m: "listSearchKey h l k = Some (find_node (\<lambda>v. mat v k) xs)"
      using listSearchKey_correct [OF xs(1), of k] rep s by (simp add: seq_rep_def)
    have "list_exec alloc s (Search k) = Some (s, Hit (find (\<lambda>v. mat v k) vs))"
      using s m fnd by (cases "find_node (\<lambda>v. mat v k) xs") auto
    then show ?thesis using Search rep by simp
  next
    case Clear
    obtain h' l' where e: "listEmpty h l = Some (h', l')" "list_rep h' l' []"
        "\<forall>a. h' a = (if a \<in> fst ` set xs then None else h a)" "list_match l' = list_match l"
      using listEmpty_step [OF xs(1)] by blast
    have "dom h' \<subseteq> dom h" using e(3) by (metis (no_types, lifting) domIff subsetI)
    then have "finite (dom h')" using fin by (rule finite_subset)
    then show ?thesis using Clear s e rep by (simp add: seq_rep_def)
  qed
qed

section \<open>Properties\<close>

text \<open>C2. Any sequence of pushes, insertions, deletions, rotations, searches and clearings on a list that was created
  empty, with any allocator that returns unused addresses, behaves as on a plain sequence: no pointer is followed that
  is null or dangling, and every reply and the final contents are those of the sequence.\<close>

theorem adlist_run_refines:
  assumes "alloc_ok alloc"
  shows "\<exists>h l xs. run_cmds (list_exec alloc) (Map.empty, listCreate) cs = Some ((h, l), snd (run_spec (list_spec (=)) [] cs)) \<and>
    list_rep h l xs \<and> map snd xs = fst (run_spec (list_spec (=)) [] cs)"
proof -
  have "seq_rep alloc (=) (Map.empty, listCreate) []"
    using assms by (simp add: seq_rep_def list_rep_def listCreate_def)
  from dll.run_simulates [OF this, of cs] show ?thesis by (auto simp: seq_rep_def)
qed

definition next_free :: "'a nodes \<Rightarrow> addr" where
  "next_free h = Suc (Max (insert 0 (dom h)))"

lemma next_free_ok: "alloc_ok next_free"
proof -
  have "h (next_free h) = None" if "finite (dom h)" for h :: "'a nodes"
  proof (rule ccontr)
    assume "h (next_free h) \<noteq> None"
    then have "next_free h \<in> dom h" by auto
    then have "next_free h \<le> Max (insert 0 (dom h))" using that by (intro Max_ge) auto
    then show False by (simp add: next_free_def)
  qed
  then show ?thesis by (simp add: alloc_ok_def)
qed

theorem adlist_run_refines_witness:
  "\<exists>h l. run_cmds (list_exec next_free) (Map.empty, listCreate)
     [Push_Tail (1::nat), Push_Head 2, Insert_At (- 1) 3 False, Search 3, Rotate_Tail, Del_At 0, Del_At 7] =
     Some ((h, l), [Ok, Ok, Ok, Hit (Some 3), Ok, Ok, Missing])"
  using adlist_run_refines [OF next_free_ok,
      of "[Push_Tail (1::nat), Push_Head 2, Insert_At (- 1) 3 False, Search 3, Rotate_Tail, Del_At 0, Del_At 7]"]
  by (auto simp: at_index_def)

text \<open>C3. Duplicating a list either gives a second list with the duplicated values, in nodes that were not in use
  before, with every other node unchanged; or, when the callback fails for some value, returns no list and leaves the
  heap exactly as it was: nothing leaks.\<close>

theorem listDup_copies_or_restores:
  assumes "alloc_ok alloc" "list_rep h l xs" "finite (dom h)"
  shows "\<exists>h' r. listDup alloc h l = Some (h', r) \<and>
    (case those (map (dup_value l) (map snd xs)) of
       None \<Rightarrow> r = None \<and> h' = h
     | Some ws \<Rightarrow> \<exists>c ys. r = Some c \<and> list_rep h' c ys \<and> map snd ys = ws \<and>
         (\<forall>b. h' b = (if b \<in> fst ` set ys then h' b else h b)) \<and> fst ` set ys \<inter> dom h = {})"
proof -
  obtain h' r where hr: "listDup alloc h l = Some (h', r)" "dup_done h [] (those (map (dup_value l) (map snd xs))) h' r"
    using listDup_correct [OF assms] by auto
  show ?thesis
  proof (cases "those (map (dup_value l) (map snd xs))")
    case None
    then show ?thesis using hr by (simp add: dup_done_def)
  next
    case (Some ws)
    then obtain c ys where "r = Some c" "list_rep h' c ys" "map snd ys = ws"
        "\<forall>b. b \<notin> fst ` set ys \<longrightarrow> h' b = h b" "\<forall>b \<in> fst ` set ys. h b = None"
      using hr(2) by (auto simp: dup_done_def)
    moreover have "fst ` set ys \<inter> dom h = {}" using calculation(5) by (auto simp: dom_def)
    ultimately show ?thesis using hr(1) Some by auto
  qed
qed

definition two_nodes :: "nat nodes" where
  "two_nodes = [1 \<mapsto> \<lparr>node_prev = None, node_next = Some 2, node_value = 7\<rparr>,
                2 \<mapsto> \<lparr>node_prev = Some 1, node_next = None, node_value = 9\<rparr>]"

definition two_list :: "nat list_hdr" where
  "two_list = \<lparr>list_head = Some 1, list_tail = Some 2, list_dup = Some (\<lambda>v. if v = 9 then None else Some v),
     list_match = None, list_len = 2\<rparr>"

theorem listDup_copies_or_restores_witness:
  "\<exists>h' r. listDup next_free two_nodes two_list = Some (h', r) \<and> r = None \<and> h' = two_nodes"
proof -
  have "list_rep two_nodes two_list [(1, 7), (2, 9)]"
    by (simp add: list_rep_def two_nodes_def two_list_def last_of_def)
  moreover have "finite (dom two_nodes)" by (simp add: two_nodes_def)
  ultimately show ?thesis
    using listDup_copies_or_restores [OF next_free_ok, of two_nodes two_list "[(1, 7), (2, 9)]"]
    by (auto simp: dup_value_def two_list_def)
qed

end
