(* ===== verification/Byte_Text.thy ===== *)
theory Byte_Text
  imports Util_Numbers
begin

unbundle bit_operations_syntax

text \<open>
  Texts as the number conversions see them (characters) and as the serialised formats hold them (bytes), and
  the masks of single bytes.
\<close>

section \<open>Bytes\<close>

lemma unat_byte [simp]: "unat b < 256" for b :: byte
  using unsigned_less [of b, where ?'a = nat] by simp

lemma unat_byte_of_nat: "unat (of_nat n :: byte) = n mod 256"
  by (simp add: unat_of_nat)

lemma byte_masks:
  "(0x80 :: byte) = NOT (mask 7)" "(0xC0 :: byte) = NOT (mask 6)" "(0xE0 :: byte) = NOT (mask 5)"
  "(0xF0 :: byte) = NOT (mask 4)" "(0x7F :: byte) = mask 7" "(0x3F :: byte) = mask 6" "(0x1F :: byte) = mask 5"
  "(0xF :: byte) = mask 4"
  by (simp_all add: mask_eq_exp_minus_1)

lemma unat_byte_and:
  "unat (b AND 0x80) = unat b div 128 * 128" "unat (b AND 0xC0) = unat b div 64 * 64"
  "unat (b AND 0xE0) = unat b div 32 * 32" "unat (b AND 0xF0) = unat b div 16 * 16"
  "unat (b AND 0x7F) = unat b mod 128" "unat (b AND 0x3F) = unat b mod 64"
  "unat (b AND 0x1F) = unat b mod 32" "unat (b AND 0xF) = unat b mod 16" for b :: byte
  unfolding byte_masks unat_and_mask unat_and_not_mask by simp_all

lemma unat_byte_or:
  assumes "unat a < 2 ^ k" "2 ^ k dvd unat b"
  shows "unat (a OR b :: byte) = unat a + unat b"
  using nat_or_disjoint [OF assms] by (simp add: unsigned_or_eq)

section \<open>Texts\<close>

definition chars :: "byte list \<Rightarrow> string" where
  "chars bs = map (\<lambda>b. char_of (unat b)) bs"

definition bytes_of :: "string \<Rightarrow> byte list" where
  "bytes_of s = map (\<lambda>c. of_nat (of_char c)) s"

definition int_bytes :: "int \<Rightarrow> byte list" where
  "int_bytes v = map (\<lambda>c. of_nat (of_char c)) (sdec v)"

lemma chars_inject [simp]: "chars a = chars b \<longleftrightarrow> a = b"
proof -
  have "inj (\<lambda>b :: byte. char_of (unat b) :: char)"
  proof (rule injI)
    fix x y :: byte
    assume "(char_of (unat x) :: char) = char_of (unat y)"
    then have "(of_char (char_of (unat x) :: char) :: nat) = of_char (char_of (unat y) :: char)" by simp
    then show "x = y" by (simp add: word_unat_eq_iff)
  qed
  then show ?thesis by (simp add: chars_def inj_map_eq_map)
qed

lemma length_chars [simp]: "length (chars bs) = length bs"
  by (simp add: chars_def)

lemma length_bytes_of [simp]: "length (bytes_of s) = length s"
  by (simp add: bytes_of_def)

lemma chars_bytes_of [simp]: "chars (bytes_of s) = s"
  by (simp add: chars_def bytes_of_def unat_of_nat comp_def map_idI)

lemma bytes_of_chars [simp]: "bytes_of (chars bs) = bs"
  by (metis chars_inject chars_bytes_of)

lemma int_bytes_bytes_of: "int_bytes v = bytes_of (sdec v)"
  by (simp add: int_bytes_def bytes_of_def)

lemma chars_int_bytes: "- (2 ^ 63) \<le> v \<Longrightarrow> v < 2 ^ 63 \<Longrightarrow> chars (int_bytes v) = sdec v"
  by (simp add: int_bytes_bytes_of)

section \<open>String objects\<close>

text \<open>A string object holds an integer of 64 bits or bytes.\<close>

datatype string_obj = OBJ_ENCODING_INT int | OBJ_ENCODING_RAW "byte list"

definition obj_text :: "string_obj \<Rightarrow> byte list" where
  "obj_text obj = (case obj of OBJ_ENCODING_INT v \<Rightarrow> int_bytes v | OBJ_ENCODING_RAW s \<Rightarrow> s)"

definition obj_ok :: "string_obj \<Rightarrow> bool" where
  "obj_ok obj = (case obj of OBJ_ENCODING_INT v \<Rightarrow> - (2 ^ 63) \<le> v \<and> v < 2 ^ 63 | OBJ_ENCODING_RAW s \<Rightarrow> length s < 2 ^ 63)"

end
