(* ===== verification/Listpack_Codec.thy ===== *)
theory Listpack_Codec
  imports Byte_Text
begin

unbundle bit_operations_syntax

text \<open>
  The element encodings of \<open>listpack.c\<close>: integers of six widths, strings with three kinds of length, and the
  length field after an element that is read backwards.  A listpack is a list of bytes and a pointer into it
  is an offset; a read outside the block is \<open>None\<close>.
\<close>

section \<open>Model\<close>

definition peek :: "byte list \<Rightarrow> nat \<Rightarrow> byte option" where
  "peek lp p = (if p < length lp then Some (lp ! p) else None)"

text \<open>\<open>p[-i]\<close>\<close>

definition peek_back :: "byte list \<Rightarrow> nat \<Rightarrow> nat \<Rightarrow> byte option" where
  "peek_back lp p i = (if i \<le> p then peek lp (p - i) else None)"

definition LP_EOF :: byte where "LP_EOF = 0xFF"
definition LP_ENCODING_6BIT_STR :: byte where "LP_ENCODING_6BIT_STR = 0x80"
definition LP_ENCODING_13BIT_INT :: byte where "LP_ENCODING_13BIT_INT = 0xC0"
definition LP_ENCODING_12BIT_STR :: byte where "LP_ENCODING_12BIT_STR = 0xE0"
definition LP_ENCODING_16BIT_INT :: byte where "LP_ENCODING_16BIT_INT = 0xF1"
definition LP_ENCODING_24BIT_INT :: byte where "LP_ENCODING_24BIT_INT = 0xF2"
definition LP_ENCODING_32BIT_INT :: byte where "LP_ENCODING_32BIT_INT = 0xF3"
definition LP_ENCODING_64BIT_INT :: byte where "LP_ENCODING_64BIT_INT = 0xF4"
definition LP_ENCODING_32BIT_STR :: byte where "LP_ENCODING_32BIT_STR = 0xF0"

definition LP_ENCODING_IS_7BIT_UINT :: "byte \<Rightarrow> bool" where
  "LP_ENCODING_IS_7BIT_UINT b \<longleftrightarrow> b AND 0x80 = 0"
definition LP_ENCODING_IS_6BIT_STR :: "byte \<Rightarrow> bool" where
  "LP_ENCODING_IS_6BIT_STR b \<longleftrightarrow> b AND 0xC0 = LP_ENCODING_6BIT_STR"
definition LP_ENCODING_IS_13BIT_INT :: "byte \<Rightarrow> bool" where
  "LP_ENCODING_IS_13BIT_INT b \<longleftrightarrow> b AND 0xE0 = LP_ENCODING_13BIT_INT"
definition LP_ENCODING_IS_12BIT_STR :: "byte \<Rightarrow> bool" where
  "LP_ENCODING_IS_12BIT_STR b \<longleftrightarrow> b AND 0xF0 = LP_ENCODING_12BIT_STR"

definition lpStringToInt64 :: "byte list \<Rightarrow> int option" where
  "lpStringToInt64 bs =
     (let s = chars bs in
      if s = [] \<or> length s \<ge> LONG_STR_SIZE then None
      else if s = ''0'' then Some 0
      else let negative = (hd s = CHR ''-''); p = (if negative then tl s else s) in
        if p = [] then None
        else if is_digit (hd p) \<and> hd p \<noteq> CHR ''0''
        then (case string2ll_loop (of_nat (digit_val (hd p))) (tl p) of
                None \<Rightarrow> None
              | Some (v, rest) \<Rightarrow>
                  if rest \<noteq> [] then None
                  else if negative
                  then if v > word_of_int (- (- (2 ^ 63) + 1)) + 1 then None
                       else Some (sint (- v))
                  else if v > word_of_int (2 ^ 63 - 1) then None
                  else Some (sint v))
        else None)"

definition lpEncodeIntegerGetType :: "int \<Rightarrow> byte list" where
  "lpEncodeIntegerGetType v =
     (if 0 \<le> v \<and> v \<le> 127 then [word_of_int v]
      else if - 4096 \<le> v \<and> v \<le> 4095
      then let v = (if v < 0 then 2 ^ 13 + v else v) in
        [word_of_int (v div 256) OR LP_ENCODING_13BIT_INT, word_of_int v]
      else if - 32768 \<le> v \<and> v \<le> 32767
      then let v = (if v < 0 then 2 ^ 16 + v else v) in LP_ENCODING_16BIT_INT # le_bytes 2 v
      else if - 8388608 \<le> v \<and> v \<le> 8388607
      then let v = (if v < 0 then 2 ^ 24 + v else v) in LP_ENCODING_24BIT_INT # le_bytes 3 v
      else if - 2147483648 \<le> v \<and> v \<le> 2147483647
      then let v = (if v < 0 then 2 ^ 32 + v else v) in LP_ENCODING_32BIT_INT # le_bytes 4 v
      else let uv = v mod 2 ^ 64 in LP_ENCODING_64BIT_INT # le_bytes 8 uv)"

text \<open>The type of an element with its encoded length; for an integer the bytes too.\<close>

datatype lp_enctype = ENC_INT "byte list" | ENC_STRING

definition lpEncodeGetType :: "byte list \<Rightarrow> lp_enctype \<times> nat" where
  "lpEncodeGetType ele =
     (case lpStringToInt64 ele of
        Some v \<Rightarrow> let intenc = lpEncodeIntegerGetType v in (ENC_INT intenc, length intenc)
      | None \<Rightarrow>
          let sz = length ele in
          (ENC_STRING, if sz < 64 then 1 + sz else if sz < 4096 then 2 + sz else 5 + sz))"

definition lpEncodeBacklen :: "nat \<Rightarrow> byte list" where
  "lpEncodeBacklen l =
     (if l \<le> 127 then [of_nat l]
      else if l < 16383 then [of_nat (l div 2 ^ 7), (of_nat l AND 127) OR 128]
      else if l < 2097151
      then [of_nat (l div 2 ^ 14), (of_nat (l div 2 ^ 7) AND 127) OR 128, (of_nat l AND 127) OR 128]
      else if l < 268435455
      then [of_nat (l div 2 ^ 21), (of_nat (l div 2 ^ 14) AND 127) OR 128, (of_nat (l div 2 ^ 7) AND 127) OR 128,
            (of_nat l AND 127) OR 128]
      else [of_nat (l div 2 ^ 28), (of_nat (l div 2 ^ 21) AND 127) OR 128, (of_nat (l div 2 ^ 14) AND 127) OR 128,
            (of_nat (l div 2 ^ 7) AND 127) OR 128, (of_nat l AND 127) OR 128])"

definition lpEncodeBacklenBytes :: "nat \<Rightarrow> nat" where
  "lpEncodeBacklenBytes l =
     (if l \<le> 127 then 1 else if l < 16383 then 2 else if l < 2097151 then 3 else if l < 268435455 then 4 else 5)"

definition low7 :: "byte \<Rightarrow> nat" where
  "low7 b = unat (b AND 127)"

definition more :: "byte \<Rightarrow> bool" where
  "more b \<longleftrightarrow> b AND 128 \<noteq> 0"

text \<open>The five groups do not overlap, so \<open>|\<close> on them is addition.\<close>

definition lpDecodeBacklen :: "byte list \<Rightarrow> nat \<Rightarrow> nat option" where
  "lpDecodeBacklen lp p = do {
     b0 \<leftarrow> peek lp p;
     if \<not> more b0 then Some (low7 b0)
     else do {
       b1 \<leftarrow> peek_back lp p 1;
       let val = low7 b0;
       if \<not> more b1 then Some (val + low7 b1 * 2 ^ 7)
       else do {
         b2 \<leftarrow> peek_back lp p 2;
         let val = val + low7 b1 * 2 ^ 7;
         if \<not> more b2 then Some (val + low7 b2 * 2 ^ 14)
         else do {
           b3 \<leftarrow> peek_back lp p 3;
           let val = val + low7 b2 * 2 ^ 14;
           if \<not> more b3 then Some (val + low7 b3 * 2 ^ 21)
           else do {
             b4 \<leftarrow> peek_back lp p 4;
             let val = val + low7 b3 * 2 ^ 21;
             if \<not> more b4 then Some (val + low7 b4 * 2 ^ 28)
             else Some (2 ^ 64 - 1)
           }
         }
       }
     }
   }"

definition lpEncodeString :: "byte list \<Rightarrow> byte list" where
  "lpEncodeString s =
     (let len = length s in
      if len < 64 then (of_nat len OR LP_ENCODING_6BIT_STR) # s
      else if len < 4096 then (of_nat (len div 256) OR LP_ENCODING_12BIT_STR) # of_nat len # s
      else LP_ENCODING_32BIT_STR # le_bytes 4 (int len) @ s)"

definition LP_ENCODING_6BIT_STR_LEN :: "byte \<Rightarrow> nat" where
  "LP_ENCODING_6BIT_STR_LEN b = unat (b AND 0x3F)"

definition LP_ENCODING_12BIT_STR_LEN :: "byte list \<Rightarrow> nat \<Rightarrow> nat option" where
  "LP_ENCODING_12BIT_STR_LEN lp p = do {
     b0 \<leftarrow> peek lp p;
     b1 \<leftarrow> peek lp (p + 1);
     Some (unat (b0 AND 0xF) * 256 + unat b1)
   }"

definition LP_ENCODING_32BIT_STR_LEN :: "byte list \<Rightarrow> nat \<Rightarrow> nat option" where
  "LP_ENCODING_32BIT_STR_LEN lp p = map_option (\<lambda>bs. nat (le_unsigned bs)) (get_bytes lp (p + 1) 4)"

text \<open>The result is a \<open>uint32_t\<close>, so the length of a long string may wrap.\<close>

definition lpCurrentEncodedSizeUnsafe :: "byte list \<Rightarrow> nat \<Rightarrow> nat option" where
  "lpCurrentEncodedSizeUnsafe lp p = do {
     b \<leftarrow> peek lp p;
     if LP_ENCODING_IS_7BIT_UINT b then Some 1
     else if LP_ENCODING_IS_6BIT_STR b then Some (1 + LP_ENCODING_6BIT_STR_LEN b)
     else if LP_ENCODING_IS_13BIT_INT b then Some 2
     else if b = LP_ENCODING_16BIT_INT then Some 3
     else if b = LP_ENCODING_24BIT_INT then Some 4
     else if b = LP_ENCODING_32BIT_INT then Some 5
     else if b = LP_ENCODING_64BIT_INT then Some 9
     else if LP_ENCODING_IS_12BIT_STR b then map_option (\<lambda>n. 2 + n) (LP_ENCODING_12BIT_STR_LEN lp p)
     else if b = LP_ENCODING_32BIT_STR then map_option (\<lambda>n. (5 + n) mod 2 ^ 32) (LP_ENCODING_32BIT_STR_LEN lp p)
     else if b = LP_EOF then Some 1
     else Some 0
   }"

definition lpCurrentEncodedSizeBytes :: "byte \<Rightarrow> nat" where
  "lpCurrentEncodedSizeBytes b =
     (if LP_ENCODING_IS_7BIT_UINT b then 1
      else if LP_ENCODING_IS_6BIT_STR b then 1
      else if LP_ENCODING_IS_13BIT_INT b then 1
      else if b = LP_ENCODING_16BIT_INT then 1
      else if b = LP_ENCODING_24BIT_INT then 1
      else if b = LP_ENCODING_32BIT_INT then 1
      else if b = LP_ENCODING_64BIT_INT then 1
      else if LP_ENCODING_IS_12BIT_STR b then 2
      else if b = LP_ENCODING_32BIT_STR then 5
      else if b = LP_EOF then 1
      else 0)"

text \<open>The result of reading an element: an integer, or the offset and length of a string.\<close>

datatype lp_value = LP_INT int | LP_STR nat nat

text \<open>Two's complement for the integer encodings, as the three steps of the source.\<close>

definition from_unsigned :: "int \<Rightarrow> int \<Rightarrow> int \<Rightarrow> int" where
  "from_unsigned uval negstart negmax = (if uval \<ge> negstart then - (negmax - uval) - 1 else uval)"

definition load :: "byte list \<Rightarrow> nat \<Rightarrow> nat \<Rightarrow> int option" where
  "load lp p n = map_option le_unsigned (get_bytes lp (p + 1) n)"

definition lpGetWithSize :: "byte list \<Rightarrow> nat \<Rightarrow> (lp_value \<times> nat option) option" where
  "lpGetWithSize lp p = do {
     b \<leftarrow> peek lp p;
     if LP_ENCODING_IS_7BIT_UINT b
     then Some (LP_INT (from_unsigned (uint (b AND 0x7f)) (2 ^ 64 - 1) 0), Some 2)
     else if LP_ENCODING_IS_6BIT_STR b
     then let n = LP_ENCODING_6BIT_STR_LEN b in Some (LP_STR (p + 1) n, Some (1 + n + lpEncodeBacklenBytes (n + 1)))
     else if LP_ENCODING_IS_13BIT_INT b
     then do { b1 \<leftarrow> peek lp (p + 1);
               Some (LP_INT (from_unsigned (uint (b AND 0x1f) * 256 + uint b1) (2 ^ 12) 8191), Some 3) }
     else if b = LP_ENCODING_16BIT_INT
     then do { u \<leftarrow> load lp p 2; Some (LP_INT (from_unsigned u (2 ^ 15) (2 ^ 16 - 1)), Some 4) }
     else if b = LP_ENCODING_24BIT_INT
     then do { u \<leftarrow> load lp p 3; Some (LP_INT (from_unsigned u (2 ^ 23) (2 ^ 24 - 1)), Some 5) }
     else if b = LP_ENCODING_32BIT_INT
     then do { u \<leftarrow> load lp p 4; Some (LP_INT (from_unsigned u (2 ^ 31) (2 ^ 32 - 1)), Some 6) }
     else if b = LP_ENCODING_64BIT_INT
     then do { u \<leftarrow> load lp p 8; Some (LP_INT (from_unsigned u (2 ^ 63) (2 ^ 64 - 1)), Some 10) }
     else if LP_ENCODING_IS_12BIT_STR b
     then do { n \<leftarrow> LP_ENCODING_12BIT_STR_LEN lp p; Some (LP_STR (p + 2) n, Some (2 + n + lpEncodeBacklenBytes (n + 2))) }
     else if b = LP_ENCODING_32BIT_STR
     then do { n \<leftarrow> LP_ENCODING_32BIT_STR_LEN lp p; Some (LP_STR (p + 5) n, Some (5 + n + lpEncodeBacklenBytes (n + 5))) }
     else Some (LP_INT (from_unsigned (12345678900000000 + uint b) (2 ^ 64 - 1) 0), None)
   }"

definition lpGetWithBuf :: "byte list \<Rightarrow> nat \<Rightarrow> lp_value option" where
  "lpGetWithBuf lp p = do {
     b \<leftarrow> peek lp p;
     if LP_ENCODING_IS_6BIT_STR b then Some (LP_STR (p + 1) (LP_ENCODING_6BIT_STR_LEN b))
     else if LP_ENCODING_IS_12BIT_STR b then map_option (LP_STR (p + 2)) (LP_ENCODING_12BIT_STR_LEN lp p)
     else if b = LP_ENCODING_32BIT_STR then map_option (LP_STR (p + 5)) (LP_ENCODING_32BIT_STR_LEN lp p)
     else if LP_ENCODING_IS_7BIT_UINT b then Some (LP_INT (from_unsigned (uint (b AND 0x7f)) (2 ^ 64 - 1) 0))
     else if LP_ENCODING_IS_13BIT_INT b
     then do { b1 \<leftarrow> peek lp (p + 1); Some (LP_INT (from_unsigned (uint (b AND 0x1f) * 256 + uint b1) (2 ^ 12) 8191)) }
     else if b = LP_ENCODING_16BIT_INT
     then do { u \<leftarrow> load lp p 2; Some (LP_INT (from_unsigned u (2 ^ 15) (2 ^ 16 - 1))) }
     else if b = LP_ENCODING_24BIT_INT
     then do { u \<leftarrow> load lp p 3; Some (LP_INT (from_unsigned u (2 ^ 23) (2 ^ 24 - 1))) }
     else if b = LP_ENCODING_32BIT_INT
     then do { u \<leftarrow> load lp p 4; Some (LP_INT (from_unsigned u (2 ^ 31) (2 ^ 32 - 1))) }
     else if b = LP_ENCODING_64BIT_INT
     then do { u \<leftarrow> load lp p 8; Some (LP_INT (from_unsigned u (2 ^ 63) (2 ^ 64 - 1))) }
     else Some (LP_INT (from_unsigned (12345678900000000 + uint b) (2 ^ 64 - 1) 0))
   }"

text \<open>\<open>lpGet\<close> with a buffer for integers: the element always comes as text.  The buffer has 21 bytes.\<close>

definition LP_INTBUF_SIZE :: nat where "LP_INTBUF_SIZE = 21"

definition lpGet_text :: "string \<Rightarrow> byte list \<Rightarrow> nat \<Rightarrow> string option" where
  "lpGet_text intbuf lp p = do {
     v \<leftarrow> lpGetWithBuf lp p;
     case v of
       LP_STR off n \<Rightarrow> map_option chars (get_bytes lp off n)
     | LP_INT i \<Rightarrow> do { (buf, n) \<leftarrow> ll2string intbuf i; get_bytes buf 0 n }
   }"

section \<open>Bytes\<close>

text \<open>The tests on the first byte as ranges.\<close>

lemma encoding_ranges:
  "LP_ENCODING_IS_7BIT_UINT b \<longleftrightarrow> unat b < 128"
  "LP_ENCODING_IS_6BIT_STR b \<longleftrightarrow> 128 \<le> unat b \<and> unat b < 192"
  "LP_ENCODING_IS_13BIT_INT b \<longleftrightarrow> 192 \<le> unat b \<and> unat b < 224"
  "LP_ENCODING_IS_12BIT_STR b \<longleftrightarrow> 224 \<le> unat b \<and> unat b < 240"
  "b = LP_ENCODING_32BIT_STR \<longleftrightarrow> unat b = 240" "b = LP_ENCODING_16BIT_INT \<longleftrightarrow> unat b = 241"
  "b = LP_ENCODING_24BIT_INT \<longleftrightarrow> unat b = 242" "b = LP_ENCODING_32BIT_INT \<longleftrightarrow> unat b = 243"
  "b = LP_ENCODING_64BIT_INT \<longleftrightarrow> unat b = 244" "b = LP_EOF \<longleftrightarrow> unat b = 255"
proof -
  note defs = LP_ENCODING_IS_7BIT_UINT_def LP_ENCODING_IS_6BIT_STR_def LP_ENCODING_IS_13BIT_INT_def
    LP_ENCODING_IS_12BIT_STR_def LP_ENCODING_6BIT_STR_def LP_ENCODING_13BIT_INT_def LP_ENCODING_12BIT_STR_def
    LP_ENCODING_32BIT_STR_def LP_ENCODING_16BIT_INT_def LP_ENCODING_24BIT_INT_def LP_ENCODING_32BIT_INT_def
    LP_ENCODING_64BIT_INT_def LP_EOF_def
  show "LP_ENCODING_IS_7BIT_UINT b \<longleftrightarrow> unat b < 128"
    by (auto simp: defs word_unat_eq_iff unat_byte_and)
  show "LP_ENCODING_IS_6BIT_STR b \<longleftrightarrow> 128 \<le> unat b \<and> unat b < 192"
    by (auto simp: defs word_unat_eq_iff unat_byte_and)
  show "LP_ENCODING_IS_13BIT_INT b \<longleftrightarrow> 192 \<le> unat b \<and> unat b < 224"
    by (auto simp: defs word_unat_eq_iff unat_byte_and)
  show "LP_ENCODING_IS_12BIT_STR b \<longleftrightarrow> 224 \<le> unat b \<and> unat b < 240"
    by (auto simp: defs word_unat_eq_iff unat_byte_and)
  show "b = LP_ENCODING_32BIT_STR \<longleftrightarrow> unat b = 240" "b = LP_ENCODING_16BIT_INT \<longleftrightarrow> unat b = 241"
    "b = LP_ENCODING_24BIT_INT \<longleftrightarrow> unat b = 242" "b = LP_ENCODING_32BIT_INT \<longleftrightarrow> unat b = 243"
    "b = LP_ENCODING_64BIT_INT \<longleftrightarrow> unat b = 244" "b = LP_EOF \<longleftrightarrow> unat b = 255"
    by (simp_all add: defs word_unat_eq_iff)
qed

section \<open>The backward length\<close>

lemma peek_append [simp]:
  "i < length xs \<Longrightarrow> peek (xs @ ys) i = Some (xs ! i)" "peek (xs @ ys) (length xs + i) = peek ys i"
  "peek (xs @ ys) (length xs) = peek ys 0" "peek (y # ys) 0 = Some y" "peek (y # ys) (Suc i) = peek ys i"
  by (simp_all add: peek_def nth_append)

lemma low7_more: "low7 b = unat b mod 128" "more b \<longleftrightarrow> 128 \<le> unat b"
  by (auto simp: low7_def more_def unat_byte_and word_unat_eq_iff)

lemma group_byte: "unat ((of_nat n AND 127) OR 128 :: byte) = n mod 128 + 128"
proof -
  have "unat (of_nat n AND 127 :: byte) = n mod 128" by (simp add: unat_byte_and unat_byte_of_nat mod_mod_cancel)
  then show ?thesis using unat_byte_or [of "of_nat n AND 127" 7 128] by simp
qed

lemma length_lpEncodeBacklen [simp]: "length (lpEncodeBacklen l) = lpEncodeBacklenBytes l"
  by (simp add: lpEncodeBacklen_def lpEncodeBacklenBytes_def)

lemma lpEncodeBacklenBytes_bounds: "1 \<le> lpEncodeBacklenBytes l" "lpEncodeBacklenBytes l \<le> 5"
  by (simp_all add: lpEncodeBacklenBytes_def)

text \<open>Reading back from the last byte of a field that ends at offset \<open>p\<close>, given as the reversed bytes.\<close>

fun decode_rev :: "byte list \<Rightarrow> nat option" where
  "decode_rev [] = None"
| "decode_rev (b # bs) = (if more b then map_option (\<lambda>n. low7 b + 128 * n) (decode_rev bs) else Some (low7 b))"

lemma lpDecodeBacklen_decode_rev:
  assumes "\<And>i. i < length bs \<Longrightarrow> peek_back L p i = Some (bs ! i)" "decode_rev bs = Some l" "length bs \<le> 5"
  shows "lpDecodeBacklen L p = Some l"
proof -
  note b = assms(1)
  have b0: "peek L p = Some (bs ! 0)" if "bs \<noteq> []" using b [of 0] that by (simp add: peek_back_def)
  consider b0 where "bs = [b0]" | b0 b1 where "bs = [b0, b1]" | b0 b1 b2 where "bs = [b0, b1, b2]"
    | b0 b1 b2 b3 where "bs = [b0, b1, b2, b3]" | b0 b1 b2 b3 b4 where "bs = [b0, b1, b2, b3, b4]"
    using assms(2,3)
    by (cases bs; cases "tl bs"; cases "tl (tl bs)"; cases "tl (tl (tl bs))"; cases "tl (tl (tl (tl bs)))") auto
  then show ?thesis
  proof cases
    case 1
    then show ?thesis using b0 assms(2) by (simp add: lpDecodeBacklen_def split: if_splits)
  next
    case 2
    then show ?thesis using b0 b [of 1] assms(2) by (auto simp: lpDecodeBacklen_def split: if_splits)
  next
    case 3
    have b2: "peek_back L p 2 = Some b2" using 3 b [of 2] by (simp add: numeral_eq_Suc)
    show ?thesis using 3 b0 b [of 1] b2 assms(2) by (auto simp: lpDecodeBacklen_def split: if_splits)
  next
    case 4
    have b23: "peek_back L p 2 = Some b2" "peek_back L p 3 = Some b3"
      using 4 b [of 2] b [of 3] by (simp_all add: numeral_eq_Suc)
    show ?thesis using 4 b0 b [of 1] b23 assms(2) by (auto simp: lpDecodeBacklen_def split: if_splits)
  next
    case 5
    have b234: "peek_back L p 2 = Some b2" "peek_back L p 3 = Some b3" "peek_back L p 4 = Some b4"
      using 5 b [of 2] b [of 3] b [of 4] by (simp_all add: numeral_eq_Suc)
    show ?thesis using 5 b0 b [of 1] b234 assms(2) by (auto simp: lpDecodeBacklen_def split: if_splits)
  qed
qed

lemma decode_rev_short:
  assumes "decode_rev bs = Some l" "length bs \<le> 5" "length xs + length bs = Suc p"
  shows "lpDecodeBacklen (xs @ rev bs @ ys) p = Some l"
proof (rule lpDecodeBacklen_decode_rev [OF _ assms(1,2)])
  fix i
  assume i: "i < length bs"
  have "p - i = length xs + (length bs - Suc i)" using assms(3) i by simp
  then have "peek (xs @ rev bs @ ys) (p - i) = peek (rev bs @ ys) (length bs - Suc i)" by (simp only: peek_append(2))
  then show "peek_back (xs @ rev bs @ ys) p i = Some (bs ! i)" using i assms(3) by (simp add: peek_back_def rev_nth)
qed

lemma digits_128:
  fixes l :: nat
  shows "l mod 128 + 128 * (l div 128) = l" "l div 128 mod 128 + 128 * (l div 16384) = l div 128"
    "l div 16384 mod 128 + 128 * (l div 2097152) = l div 16384"
    "l div 2097152 mod 128 + 128 * (l div 268435456) = l div 2097152"
proof -
  have d: "l div (n * 128) = l div n div 128" for n by (simp add: div_mult2_eq)
  show "l mod 128 + 128 * (l div 128) = l" by simp
  show "l div 128 mod 128 + 128 * (l div 16384) = l div 128" using d [of 128] by simp
  show "l div 16384 mod 128 + 128 * (l div 2097152) = l div 16384" using d [of 16384] by simp
  show "l div 2097152 mod 128 + 128 * (l div 268435456) = l div 2097152" using d [of 2097152] by simp
qed

lemma decode_group: "decode_rev (((of_nat n AND 127) OR 128) # bs) = map_option (\<lambda>m. n mod 128 + 128 * m) (decode_rev bs)"
  by (simp add: low7_more group_byte)

lemma decode_last: "n < 128 \<Longrightarrow> decode_rev [of_nat n] = Some n"
  by (simp add: low7_more unat_byte_of_nat)

lemma decode_rev_encode:
  assumes "l < 2 ^ 35"
  shows "decode_rev (rev (lpEncodeBacklen l)) = Some l"
proof -
  have small: "l div n < 128" if "l < n * 128" for n
    using that by (metis less_mult_imp_div_less mult.commute)
  note dec = rev.simps append.simps decode_group option.map option.inject
  note dig = digits_128 [of l]
  consider "l \<le> 127" | "127 < l" "l < 16383" | "16383 \<le> l" "l < 2097151" | "2097151 \<le> l" "l < 268435455"
    | "268435455 \<le> l" by linarith
  then show ?thesis
  proof cases
    case 1
    then show ?thesis using decode_last [of l] by (simp add: lpEncodeBacklen_def)
  next
    case 2
    then have "lpEncodeBacklen l = [of_nat (l div 128), (of_nat l AND 127) OR 128]"
      by (simp add: lpEncodeBacklen_def)
    moreover have "l div 128 < 128" using 2 by (intro small) simp
    ultimately show ?thesis using dig by (simp only: dec decode_last)
  next
    case 3
    then have "lpEncodeBacklen l = [of_nat (l div 16384), (of_nat (l div 128) AND 127) OR 128, (of_nat l AND 127) OR 128]"
      by (simp add: lpEncodeBacklen_def)
    moreover have "l div 16384 < 128" using 3 by (intro small) simp
    ultimately show ?thesis using dig by (simp only: dec decode_last)
  next
    case 4
    then have "lpEncodeBacklen l = [of_nat (l div 2097152), (of_nat (l div 16384) AND 127) OR 128,
        (of_nat (l div 128) AND 127) OR 128, (of_nat l AND 127) OR 128]"
      by (simp add: lpEncodeBacklen_def)
    moreover have "l div 2097152 < 128" using 4 by (intro small) simp
    ultimately show ?thesis using dig by (simp only: dec decode_last)
  next
    case 5
    then have "lpEncodeBacklen l = [of_nat (l div 268435456), (of_nat (l div 2097152) AND 127) OR 128,
        (of_nat (l div 16384) AND 127) OR 128, (of_nat (l div 128) AND 127) OR 128, (of_nat l AND 127) OR 128]"
      by (simp add: lpEncodeBacklen_def)
    moreover have "l div 268435456 < 128" using assms by (intro small) simp
    ultimately show ?thesis using dig by (simp only: dec decode_last)
  qed
qed

lemma lpDecodeBacklen_encode:
  assumes "l < 2 ^ 35"
  shows "lpDecodeBacklen (xs @ lpEncodeBacklen l @ ys) (length xs + lpEncodeBacklenBytes l - 1) = Some l"
  using decode_rev_short [of "rev (lpEncodeBacklen l)" l xs "length xs + lpEncodeBacklenBytes l - 1" ys]
    decode_rev_encode [OF assms] lpEncodeBacklenBytes_bounds [of l]
  by simp

section \<open>Elements\<close>

lemma lpStringToInt64_string2ll: "lpStringToInt64 bs = string2ll (chars bs)"
  by (simp add: lpStringToInt64_def string2ll_def Let_def)

lemma lpStringToInt64_exact:
  "lpStringToInt64 bs = Some v \<longleftrightarrow> - (2 ^ 63) \<le> v \<and> v < 2 ^ 63 \<and> chars bs = sdec v"
  unfolding lpStringToInt64_string2ll by (rule string2ll_exact)

lemma from_unsigned_mod:
  assumes "0 < w" "- (2 ^ (w - 1)) \<le> v" "v < 2 ^ (w - 1)"
  shows "from_unsigned (v mod 2 ^ w) (2 ^ (w - 1)) (2 ^ w - 1) = v"
proof -
  have w: "(2::int) ^ w = 2 * 2 ^ (w - 1)" using assms(1) by (cases w) simp_all
  show ?thesis
  proof (cases "v < 0")
    case True
    then have "v mod 2 ^ w = v + 2 ^ w"
      using assms(2) w by (smt (verit) mod_add_self2 mod_pos_pos_trivial zero_less_power)
    then show ?thesis using True assms w by (simp add: from_unsigned_def)
  next
    case False
    then have "v mod 2 ^ w = v" using assms(3) w by simp
    then show ?thesis using assms(3) by (simp add: from_unsigned_def)
  qed
qed

text \<open>A complete encoded element: its first bytes give its length.\<close>

definition valid_enc :: "byte list \<Rightarrow> bool" where
  "valid_enc e \<longleftrightarrow> e \<noteq> [] \<and> hd e \<noteq> LP_EOF \<and> lpCurrentEncodedSizeBytes (hd e) \<noteq> 0 \<and>
     lpCurrentEncodedSizeBytes (hd e) \<le> length e \<and> lpCurrentEncodedSizeUnsafe e 0 = Some (length e)"

lemma peek_prefix: "peek xs i = Some b \<Longrightarrow> peek (xs @ ys) i = Some b"
  by (auto simp: peek_def nth_append split: if_splits)

lemma get_bytes_prefix: "get_bytes xs i n = Some bs \<Longrightarrow> get_bytes (xs @ ys) i n = Some bs"
  by (auto simp: get_bytes_def split: if_splits)

lemma get_bytes_shift [simp]: "get_bytes (xs @ ys) (length xs + i) n = get_bytes ys i n"
  by (simp add: get_bytes_def)

lemma len12_local: "LP_ENCODING_12BIT_STR_LEN (xs @ ys) (length xs) = LP_ENCODING_12BIT_STR_LEN ys 0"
  using peek_append(2) [of xs ys 1] by (simp add: LP_ENCODING_12BIT_STR_LEN_def)

lemma len32_local: "LP_ENCODING_32BIT_STR_LEN (xs @ ys) (length xs) = LP_ENCODING_32BIT_STR_LEN ys 0"
  using get_bytes_shift [of xs ys 1 4] by (simp add: LP_ENCODING_32BIT_STR_LEN_def)

lemma load_local: "load (xs @ ys) (length xs) n = load ys 0 n"
  using get_bytes_shift [of xs ys 1 n] by (simp add: load_def)

text \<open>All readings at an element depend only on the bytes from there on.\<close>

lemma size_local: "lpCurrentEncodedSizeUnsafe (xs @ ys) (length xs) = lpCurrentEncodedSizeUnsafe ys 0"
  unfolding lpCurrentEncodedSizeUnsafe_def len12_local len32_local peek_append(3) ..

lemma map_option_bind_option: "map_option f (m \<bind> g) = m \<bind> (\<lambda>x. map_option f (g x))"
  by (cases m) simp_all

definition shift_value :: "nat \<Rightarrow> lp_value \<Rightarrow> lp_value" where
  "shift_value k v = (case v of LP_INT i \<Rightarrow> LP_INT i | LP_STR off n \<Rightarrow> LP_STR (k + off) n)"

lemma get_local: "lpGetWithBuf (xs @ ys) (length xs) = map_option (shift_value (length xs)) (lpGetWithBuf ys 0)"
proof (cases "peek ys 0")
  case (Some b)
  have p1: "peek (xs @ ys) (length xs + 1) = peek ys (0 + 1)" using peek_append(2) [of xs ys 1] by simp
  show ?thesis
    unfolding lpGetWithBuf_def len12_local len32_local load_local peek_append(3) p1 Some
    by (simp add: map_option_bind_option shift_value_def option.map_comp comp_def add.assoc)
qed (simp add: lpGetWithBuf_def)

section \<open>Encoded integers\<close>

lemma tag_values [simp]:
  "unat LP_ENCODING_32BIT_STR = 240" "unat LP_ENCODING_16BIT_INT = 241" "unat LP_ENCODING_24BIT_INT = 242"
  "unat LP_ENCODING_32BIT_INT = 243" "unat LP_ENCODING_64BIT_INT = 244" "unat LP_EOF = 255"
  using encoding_ranges(5-10) by blast+

lemmas size_defs = valid_enc_def lpCurrentEncodedSizeBytes_def lpCurrentEncodedSizeUnsafe_def encoding_ranges

lemma valid_wide_int:
  "(tag, n) \<in> {(LP_ENCODING_16BIT_INT, 2), (LP_ENCODING_24BIT_INT, 3), (LP_ENCODING_32BIT_INT, 4), (LP_ENCODING_64BIT_INT, 8)} \<Longrightarrow>
   length bs = n \<Longrightarrow> valid_enc (tag # bs)"
  by (auto simp: size_defs)

lemma load_le_bytes: "load (tag # le_bytes n v @ ys) 0 n = Some (v mod 256 ^ n)"
  by (simp add: load_def get_bytes_def le_unsigned_le_bytes)

lemma get_wide_int:
  assumes "- (2 ^ (8 * n - 1)) \<le> v" "v < 2 ^ (8 * n - 1)" "v' mod 2 ^ (8 * n) = v mod 2 ^ (8 * n)"
    "(tag, n) \<in> {(LP_ENCODING_16BIT_INT, 2), (LP_ENCODING_24BIT_INT, 3), (LP_ENCODING_32BIT_INT, 4), (LP_ENCODING_64BIT_INT, 8)}"
  shows "lpGetWithBuf (tag # le_bytes n v' @ ys) 0 = Some (LP_INT v)"
proof -
  have n: "0 < 8 * n" using assms(4) by auto
  have "v' mod 256 ^ n = v mod 2 ^ (8 * n)" using assms(3) by (simp add: power_mult)
  then have "from_unsigned (v' mod 256 ^ n) (2 ^ (8 * n - 1)) (2 ^ (8 * n) - 1) = v"
    using from_unsigned_mod [OF n assms(1,2)] by simp
  then show ?thesis
    using assms(4) load_le_bytes [of tag n v' ys] by (auto simp: lpGetWithBuf_def encoding_ranges)
qed

lemma unat_word_of_int_byte: "unat (word_of_int v :: byte) = nat (v mod 256)"
  by (simp add: unat_eq_nat_uint uint_word_of_int)

lemma int13_bytes:
  assumes "0 \<le> v" "v < 8192"
  shows "unat (word_of_int (v div 256) OR LP_ENCODING_13BIT_INT :: byte) = nat (v div 256) + 192"
    "unat (word_of_int v :: byte) = nat (v mod 256)"
proof -
  have "v div 256 < 32" "0 \<le> v div 256" using assms by auto
  then have "unat (word_of_int (v div 256) :: byte) = nat (v div 256)" by (simp add: unat_word_of_int_byte)
  moreover have "nat (v div 256) < 2 ^ 6" using \<open>v div 256 < 32\<close> by simp
  ultimately show "unat (word_of_int (v div 256) OR LP_ENCODING_13BIT_INT :: byte) = nat (v div 256) + 192"
    using unat_byte_or [of "word_of_int (v div 256)" 6 LP_ENCODING_13BIT_INT] by (simp add: LP_ENCODING_13BIT_INT_def)
qed (rule unat_word_of_int_byte)

lemma int13_correct:
  assumes "- 4096 \<le> v" "v \<le> 4095" "v' = (if v < 0 then 2 ^ 13 + v else v)"
  shows "valid_enc [word_of_int (v' div 256) OR LP_ENCODING_13BIT_INT, word_of_int v']"
    "lpGetWithBuf ([word_of_int (v' div 256) OR LP_ENCODING_13BIT_INT, word_of_int v'] @ ys) 0 = Some (LP_INT v)"
proof -
  have v': "0 \<le> v'" "v' < 8192" using assms by (auto split: if_splits)
  note bts = int13_bytes [OF v']
  have r: "v' div 256 < 32" "0 \<le> v' div 256" using v' by auto
  then have n: "nat (v' div 256) < 32" by simp
  then show "valid_enc [word_of_int (v' div 256) OR LP_ENCODING_13BIT_INT, word_of_int v']"
    by (simp add: size_defs bts)
  have u: "uint ((word_of_int (v' div 256) OR LP_ENCODING_13BIT_INT) AND 0x1f :: byte) = v' div 256"
  proof -
    have "(nat (v' div 256) + 6 * 32) mod 32 = nat (v' div 256)" using n by (simp only: mod_mult_self1) simp
    then show ?thesis using r by (simp add: uint_nat unat_byte_and bts)
  qed
  have "uint (word_of_int v' :: byte) = v' mod 256" by (simp add: uint_word_of_int)
  then have "uint ((word_of_int (v' div 256) OR LP_ENCODING_13BIT_INT) AND 0x1f :: byte) * 256 + uint (word_of_int v' :: byte) = v'"
    unfolding u by simp
  moreover have "from_unsigned v' (2 ^ 12) 8191 = v" using assms by (auto simp: from_unsigned_def)
  ultimately show "lpGetWithBuf ([word_of_int (v' div 256) OR LP_ENCODING_13BIT_INT, word_of_int v'] @ ys) 0 = Some (LP_INT v)"
    using n by (simp add: lpGetWithBuf_def encoding_ranges bts)
qed

lemma int7_correct:
  assumes "0 \<le> v" "v \<le> 127"
  shows "valid_enc [word_of_int v]" "lpGetWithBuf ([word_of_int v] @ ys) 0 = Some (LP_INT v)"
proof -
  have u: "unat (word_of_int v :: byte) = nat v" using assms by (simp add: unat_word_of_int_byte)
  then show "valid_enc [word_of_int v]" using assms by (simp add: size_defs)
  have "uint (word_of_int v AND 0x7f :: byte) = v" using assms by (simp add: uint_nat unat_byte_and u)
  then show "lpGetWithBuf ([word_of_int v] @ ys) 0 = Some (LP_INT v)"
    using assms u by (simp add: lpGetWithBuf_def encoding_ranges from_unsigned_def)
qed

text \<open>Every 64-bit integer is encoded in at most nine bytes and read back.\<close>

lemma lpEncodeInteger_correct:
  assumes "- (2 ^ 63) \<le> v" "v < 2 ^ 63"
  shows "valid_enc (lpEncodeIntegerGetType v)" "length (lpEncodeIntegerGetType v) \<le> 9"
    "lpGetWithBuf (lpEncodeIntegerGetType v @ ys) 0 = Some (LP_INT v)"
proof -
  note enc = lpEncodeIntegerGetType_def Let_def
  consider "0 \<le> v \<and> v \<le> 127" | "\<not> (0 \<le> v \<and> v \<le> 127)" "- 4096 \<le> v \<and> v \<le> 4095"
    | "\<not> (- 4096 \<le> v \<and> v \<le> 4095)" "- 32768 \<le> v \<and> v \<le> 32767"
    | "\<not> (- 32768 \<le> v \<and> v \<le> 32767)" "- 8388608 \<le> v \<and> v \<le> 8388607"
    | "\<not> (- 8388608 \<le> v \<and> v \<le> 8388607)" "- 2147483648 \<le> v \<and> v \<le> 2147483647"
    | "\<not> (- 2147483648 \<le> v \<and> v \<le> 2147483647)" by blast
  then have "valid_enc (lpEncodeIntegerGetType v) \<and> length (lpEncodeIntegerGetType v) \<le> 9 \<and>
    lpGetWithBuf (lpEncodeIntegerGetType v @ ys) 0 = Some (LP_INT v)"
  proof cases
    case 1
    then show ?thesis using int7_correct(1) [of v] int7_correct(2) [of v ys] by (simp add: enc)
  next
    case 2
    then show ?thesis using int13_correct(1) [of v, OF _ _ refl] int13_correct(2) [of v, OF _ _ refl, of ys] by (auto simp: enc)
  next
    case 3
    define v' where "v' = (if v < 0 then 2 ^ 16 + v else v)"
    have "lpEncodeIntegerGetType v = LP_ENCODING_16BIT_INT # le_bytes 2 v'" using 3 by (auto simp: enc v'_def)
    moreover have "v' mod 2 ^ (8 * 2) = v mod 2 ^ (8 * 2)" by (simp add: v'_def)
    ultimately show ?thesis 
      using 3 get_wide_int [of 2 v v' LP_ENCODING_16BIT_INT ys] valid_wide_int [of LP_ENCODING_16BIT_INT 2 "le_bytes 2 v'"]
      by simp
  next
    case 4
    define v' where "v' = (if v < 0 then 2 ^ 24 + v else v)"
    have "lpEncodeIntegerGetType v = LP_ENCODING_24BIT_INT # le_bytes 3 v'" using 4 by (auto simp: enc v'_def)
    moreover have "v' mod 2 ^ (8 * 3) = v mod 2 ^ (8 * 3)" by (simp add: v'_def)
    ultimately show ?thesis 
      using 4 get_wide_int [of 3 v v' LP_ENCODING_24BIT_INT ys] valid_wide_int [of LP_ENCODING_24BIT_INT 3 "le_bytes 3 v'"]
      by simp
  next
    case 5
    define v' where "v' = (if v < 0 then 2 ^ 32 + v else v)"
    have "lpEncodeIntegerGetType v = LP_ENCODING_32BIT_INT # le_bytes 4 v'" using 5 by (auto simp: enc v'_def)
    moreover have "v' mod 2 ^ (8 * 4) = v mod 2 ^ (8 * 4)" by (simp add: v'_def)
    ultimately show ?thesis 
      using 5 get_wide_int [of 4 v v' LP_ENCODING_32BIT_INT ys] valid_wide_int [of LP_ENCODING_32BIT_INT 4 "le_bytes 4 v'"]
      by simp
  next
    case 6
    then have "lpEncodeIntegerGetType v = LP_ENCODING_64BIT_INT # le_bytes 8 (v mod 2 ^ 64)"
      by (auto simp: enc)
    then show ?thesis 
      using assms get_wide_int [of 8 v "v mod 2 ^ 64" LP_ENCODING_64BIT_INT ys]
        valid_wide_int [of LP_ENCODING_64BIT_INT 8 "le_bytes 8 (v mod 2 ^ 64)"] by simp
  qed
  then show "valid_enc (lpEncodeIntegerGetType v)" "length (lpEncodeIntegerGetType v) \<le> 9"
    "lpGetWithBuf (lpEncodeIntegerGetType v @ ys) 0 = Some (LP_INT v)" by blast+
qed

section \<open>Encoded strings\<close>

lemma unat_or_6bit: "n < 64 \<Longrightarrow> unat (of_nat n OR LP_ENCODING_6BIT_STR :: byte) = n + 128"
  using unat_byte_or [of "of_nat n" 6 LP_ENCODING_6BIT_STR] by (simp add: LP_ENCODING_6BIT_STR_def unat_byte_of_nat)

lemma unat_or_12bit: "n < 16 \<Longrightarrow> unat (of_nat n OR LP_ENCODING_12BIT_STR :: byte) = n + 224"
  using unat_byte_or [of "of_nat n" 4 LP_ENCODING_12BIT_STR] by (simp add: LP_ENCODING_12BIT_STR_def unat_byte_of_nat)

definition str_header :: "byte list \<Rightarrow> nat" where
  "str_header s = (if length s < 64 then 1 else if length s < 4096 then 2 else 5)"

lemma length_lpEncodeString: "length (lpEncodeString s) = str_header s + length s"
  by (simp add: lpEncodeString_def str_header_def Let_def)

lemma encoded_12bit_len:
  assumes "n < 4096"
  shows "LP_ENCODING_12BIT_STR_LEN ((of_nat (n div 256) OR LP_ENCODING_12BIT_STR) # of_nat n # s) 0 = Some n"
proof -
  have d: "n div 256 < 16" using assms by auto
  have "(n div 256 + 14 * 16) mod 16 = n div 256" using d by (simp only: mod_mult_self1) simp
  then have "unat ((of_nat (n div 256) OR LP_ENCODING_12BIT_STR) AND 0xF :: byte) = n div 256"
    using unat_or_12bit [OF d] by (simp add: unat_byte_and)
  then show ?thesis by (simp add: LP_ENCODING_12BIT_STR_LEN_def unat_byte_of_nat)
qed

lemma encoded_32bit_len:
  assumes "n < 2 ^ 32"
  shows "LP_ENCODING_32BIT_STR_LEN (tag # le_bytes 4 (int n) @ s) 0 = Some n"
  using assms by (simp add: LP_ENCODING_32BIT_STR_LEN_def get_bytes_def le_unsigned_le_bytes nat_mod_distrib)

lemma lpEncodeString_correct:
  assumes "length s + 5 < 2 ^ 32"
  shows "valid_enc (lpEncodeString s)"
    "lpGetWithBuf (lpEncodeString s @ ys) 0 = Some (LP_STR (str_header s) (length s))"
    "get_bytes (lpEncodeString s @ ys) (str_header s) (length s) = Some s"
proof -
  have "valid_enc (lpEncodeString s) \<and>
    lpGetWithBuf (lpEncodeString s @ ys) 0 = Some (LP_STR (str_header s) (length s)) \<and>
    get_bytes (lpEncodeString s @ ys) (str_header s) (length s) = Some s"
  proof (cases "length s < 64")
    case True
    have "(length s + 2 * 64) mod 64 = length s" using True by (simp only: mod_mult_self1) simp
    then have "LP_ENCODING_6BIT_STR_LEN (of_nat (length s) OR LP_ENCODING_6BIT_STR) = length s"
      using unat_or_6bit [OF True] by (simp add: LP_ENCODING_6BIT_STR_LEN_def unat_byte_and)
    then show ?thesis
      using True unat_or_6bit [OF True]
      by (simp add: size_defs lpGetWithBuf_def lpEncodeString_def str_header_def get_bytes_def)
  next
    case False
    show ?thesis
    proof (cases "length s < 4096")
      case True
      have d: "length s div 256 < 16" using True by auto
      show ?thesis
        using False True unat_or_12bit [OF d] d encoded_12bit_len [OF True]
        by (simp add: size_defs lpGetWithBuf_def lpEncodeString_def str_header_def get_bytes_def Let_def)
    next
      case long: False
      have n: "length s < 2 ^ 32" using assms by simp
      show ?thesis
        using False long assms encoded_32bit_len [OF n]
        by (simp add: size_defs lpGetWithBuf_def lpEncodeString_def str_header_def get_bytes_def Let_def)
    qed
  qed
  then show "valid_enc (lpEncodeString s)"
    "lpGetWithBuf (lpEncodeString s @ ys) 0 = Some (LP_STR (str_header s) (length s))"
    "get_bytes (lpEncodeString s @ ys) (str_header s) (length s) = Some s" by blast+
qed

section \<open>Elements from strings\<close>

text \<open>What \<open>lpInsert\<close> stores for a string, and that reading it as text gives the string back, whichever encoding was
  chosen.\<close>

definition encode_element :: "byte list \<Rightarrow> byte list" where
  "encode_element s = (case fst (lpEncodeGetType s) of ENC_INT e \<Rightarrow> e | ENC_STRING \<Rightarrow> lpEncodeString s)"

lemma encode_element_length: "length (encode_element s) = snd (lpEncodeGetType s)"
  by (auto simp: encode_element_def lpEncodeGetType_def length_lpEncodeString str_header_def Let_def split: option.splits)

lemma encode_element_valid: "length s + 5 < 2 ^ 32 \<Longrightarrow> valid_enc (encode_element s)"
  using lpEncodeString_correct(1) [of s] lpEncodeInteger_correct(1) lpStringToInt64_exact [of s]
  by (auto simp: encode_element_def lpEncodeGetType_def Let_def split: option.splits)

lemma lpGet_text_element:
  assumes "length s + 5 < 2 ^ 32" "length intbuf = LP_INTBUF_SIZE"
  shows "lpGet_text intbuf (xs @ encode_element s @ ys) (length xs) = Some (chars s)"
proof (cases "lpStringToInt64 s")
  case None
  then have e: "encode_element s = lpEncodeString s" by (simp add: encode_element_def lpEncodeGetType_def Let_def)
  then show ?thesis
    using lpEncodeString_correct(2,3) [OF assms(1), of ys]
    by (simp add: lpGet_text_def get_local shift_value_def)
next
  case (Some v)
  then have e: "encode_element s = lpEncodeIntegerGetType v" by (simp add: encode_element_def lpEncodeGetType_def Let_def)
  have v: "- (2 ^ 63) \<le> v" "v < 2 ^ 63" "chars s = sdec v" using Some lpStringToInt64_exact by auto
  have "length (sdec v) < length intbuf"
    using length_sdec [OF v(1,2)] assms(2) by (simp add: LP_INTBUF_SIZE_def LONG_STR_SIZE_def)
  then show ?thesis
    using lpEncodeInteger_correct(3) [OF v(1,2), of ys] e v(3) ll2string_correct [OF v(1,2), of intbuf]
    by (simp add: lpGet_text_def get_local shift_value_def get_bytes_def)
qed

end
