(* ===== verification/Listpack.thy ===== *)
theory Listpack
  imports Listpack_Codec
begin

text \<open>
  The listpack of \<open>listpack.c\<close>: a header with the total number of bytes and the number of elements, the
  elements one after the other, each with its backward length, and a terminator.  The block is a list of
  bytes whose length is the usable size of the allocation, so there may be spare bytes after the terminator.
  Pointers are offsets and \<open>NULL\<close> is \<open>None\<close>.  A failed assertion or an access outside the block makes the
  result \<open>None\<close>.
\<close>

section \<open>Model\<close>

definition LP_HDR_SIZE :: nat where "LP_HDR_SIZE = 6"
definition LP_HDR_NUMELE_UNKNOWN :: nat where "LP_HDR_NUMELE_UNKNOWN = 65535"

definition lpGetTotalBytes :: "byte list \<Rightarrow> nat option" where
  "lpGetTotalBytes lp = map_option (\<lambda>bs. nat (le_unsigned bs)) (get_bytes lp 0 4)"

definition lpGetNumElements :: "byte list \<Rightarrow> nat option" where
  "lpGetNumElements lp = map_option (\<lambda>bs. nat (le_unsigned bs)) (get_bytes lp 4 2)"

definition lpSetTotalBytes :: "byte list \<Rightarrow> nat \<Rightarrow> byte list option" where
  "lpSetTotalBytes lp v = put_bytes lp 0 (le_bytes 4 (int v))"

definition lpSetNumElements :: "byte list \<Rightarrow> nat \<Rightarrow> byte list option" where
  "lpSetNumElements lp v = put_bytes lp 4 (le_bytes 2 (int v))"

definition lpBytes :: "byte list \<Rightarrow> nat option" where
  "lpBytes lp = lpGetTotalBytes lp"

definition LISTPACK_MAX_SAFETY_SIZE :: nat where "LISTPACK_MAX_SAFETY_SIZE = 2 ^ 30"

definition lpSafeToAdd :: "byte list option \<Rightarrow> nat \<Rightarrow> bool option" where
  "lpSafeToAdd lp add = do {
     len \<leftarrow> (case lp of None \<Rightarrow> Some 0 | Some lp \<Rightarrow> lpGetTotalBytes lp);
     Some (\<not> (len + add) mod 2 ^ 64 > LISTPACK_MAX_SAFETY_SIZE)
   }"

text \<open>The bytes of a fresh allocation come from the parameter \<open>junk\<close>.\<close>

definition lpNew :: "(nat \<Rightarrow> byte) \<Rightarrow> nat \<Rightarrow> byte list option" where
  "lpNew junk capacity = do {
     let lp = realloc junk [] (if capacity > LP_HDR_SIZE + 1 then capacity else LP_HDR_SIZE + 1);
     lp \<leftarrow> lpSetTotalBytes lp (LP_HDR_SIZE + 1);
     lp \<leftarrow> lpSetNumElements lp 0;
     put_bytes lp LP_HDR_SIZE [LP_EOF]
   }"

definition lpShrinkToFit :: "(nat \<Rightarrow> byte) \<Rightarrow> byte list \<Rightarrow> byte list option" where
  "lpShrinkToFit junk lp = do {
     sz \<leftarrow> lpGetTotalBytes lp;
     Some (if sz < length lp then realloc junk lp sz else lp)
   }"

definition lpSkip :: "byte list \<Rightarrow> nat \<Rightarrow> nat option" where
  "lpSkip lp p = do {
     entrylen \<leftarrow> lpCurrentEncodedSizeUnsafe lp p;
     Some (p + entrylen + lpEncodeBacklenBytes entrylen)
   }"

definition out_of_range :: "nat \<Rightarrow> nat \<Rightarrow> bool" where
  "out_of_range lpbytes p \<longleftrightarrow> p < LP_HDR_SIZE \<or> p + 1 > lpbytes"

text \<open>The result is the returned flag and the pointer, advanced when the entry is valid.\<close>

definition lpValidateNext :: "byte list \<Rightarrow> nat option \<Rightarrow> nat \<Rightarrow> (bool \<times> nat option) option" where
  "lpValidateNext lp pp lpbytes =
     (case pp of
        None \<Rightarrow> Some (False, pp)
      | Some p \<Rightarrow>
          if out_of_range lpbytes p then Some (False, pp)
          else do {
            b \<leftarrow> peek lp p;
            if b = LP_EOF then Some (True, None)
            else
              let lenbytes = lpCurrentEncodedSizeBytes b in
              if lenbytes = 0 then Some (False, pp)
              else if out_of_range lpbytes (p + lenbytes) then Some (False, pp)
              else do {
                entrylen \<leftarrow> lpCurrentEncodedSizeUnsafe lp p;
                let encodedBacklen = lpEncodeBacklenBytes entrylen;
                let entrylen = entrylen + encodedBacklen;
                if out_of_range lpbytes (p + entrylen) then Some (False, pp)
                else do {
                  let p = p + entrylen;
                  prevlen \<leftarrow> lpDecodeBacklen lp (p - 1);
                  if (prevlen + encodedBacklen) mod 2 ^ 64 \<noteq> entrylen then Some (False, pp)
                  else Some (True, Some p)
                }
              }
          })"

definition lpAssertValidEntry :: "byte list \<Rightarrow> nat \<Rightarrow> nat \<Rightarrow> unit option" where
  "lpAssertValidEntry lp lpbytes p = do {
     (ok, _) \<leftarrow> lpValidateNext lp (Some p) lpbytes;
     if ok then Some () else None
   }"

definition lpNext :: "byte list \<Rightarrow> nat \<Rightarrow> nat option option" where
  "lpNext lp p = do {
     p \<leftarrow> lpSkip lp p;
     b \<leftarrow> peek lp p;
     if b = LP_EOF then Some None
     else do { n \<leftarrow> lpBytes lp; _ \<leftarrow> lpAssertValidEntry lp n p; Some (Some p) }
   }"

text \<open>A pointer before the block fails the assertion of \<open>lpAssertValidEntry\<close>.\<close>

definition lpPrev :: "byte list \<Rightarrow> nat \<Rightarrow> nat option option" where
  "lpPrev lp p =
     (if p = LP_HDR_SIZE then Some None
      else if p = 0 then None
      else do {
        prevlen \<leftarrow> lpDecodeBacklen lp (p - 1);
        let prevlen = (prevlen + lpEncodeBacklenBytes prevlen) mod 2 ^ 64;
        if prevlen > p then None
        else do { n \<leftarrow> lpBytes lp; _ \<leftarrow> lpAssertValidEntry lp n (p - prevlen); Some (Some (p - prevlen)) }
      })"

definition lpFirst :: "byte list \<Rightarrow> nat option option" where
  "lpFirst lp = do {
     b \<leftarrow> peek lp LP_HDR_SIZE;
     if b = LP_EOF then Some None
     else do { n \<leftarrow> lpBytes lp; _ \<leftarrow> lpAssertValidEntry lp n LP_HDR_SIZE; Some (Some LP_HDR_SIZE) }
   }"

definition lpLast :: "byte list \<Rightarrow> nat option option" where
  "lpLast lp = do {
     n \<leftarrow> lpGetTotalBytes lp;
     if n = 0 then None else lpPrev lp (n - 1)
   }"

text \<open>The counting loop; the fuel bounds the number of elements.\<close>

fun lpLength_loop :: "nat \<Rightarrow> byte list \<Rightarrow> nat option \<Rightarrow> nat \<Rightarrow> nat option" where
  "lpLength_loop fuel lp None count = Some count"
| "lpLength_loop 0 lp (Some p) count = None"
| "lpLength_loop (Suc fuel) lp (Some p) count = do { q \<leftarrow> lpNext lp p; lpLength_loop fuel lp q (count + 1) }"

definition lpLength :: "byte list \<Rightarrow> (nat \<times> byte list) option" where
  "lpLength lp = do {
     numele \<leftarrow> lpGetNumElements lp;
     if numele \<noteq> LP_HDR_NUMELE_UNKNOWN then Some (numele, lp)
     else do {
       p \<leftarrow> lpFirst lp;
       count \<leftarrow> lpLength_loop (length lp) lp p 0;
       lp \<leftarrow> (if count < LP_HDR_NUMELE_UNKNOWN then lpSetNumElements lp count else Some lp);
       Some (count, lp)
     }
   }"

datatype lp_where = LP_BEFORE | LP_AFTER | LP_REPLACE

text \<open>The element argument of \<open>lpInsert\<close>: a string, an encoded integer, or neither (which deletes).\<close>

datatype lp_element = ELE_STR "byte list" | ELE_INT "byte list" | ELE_NONE

text \<open>The second half of \<open>lpInsert\<close>, from the check of the size: make room at the offset \<open>poff\<close>, write the element and
  its backward length, and update the header.  The outer option is a fault; the inner one is the \<open>NULL\<close> for a
  listpack that would be too large.  The result holds the block and the pointer for \<open>newp\<close>.\<close>

definition lpInsert_splice ::
  "(nat \<Rightarrow> byte) \<Rightarrow> byte list \<Rightarrow> bool \<Rightarrow> lp_where \<Rightarrow> nat \<Rightarrow> byte list \<Rightarrow> nat \<Rightarrow> byte list \<Rightarrow> nat \<Rightarrow> nat \<Rightarrow>
     (byte list \<times> nat option) option option" where
  "lpInsert_splice junk lp del place poff bytes enclen backlen replaced_len old_listpack_bytes = do {
     let backlen_size = length backlen;
     let new_listpack_bytes = old_listpack_bytes + enclen + backlen_size - replaced_len;
     if new_listpack_bytes > 2 ^ 32 - 1 then Some None
     else do {
       let lp = (if new_listpack_bytes > old_listpack_bytes \<and> new_listpack_bytes > length lp
                 then realloc junk lp new_listpack_bytes else lp);
       lp \<leftarrow> (if place = LP_BEFORE
             then memmove lp (poff + enclen + backlen_size) poff (old_listpack_bytes - poff)
             else memmove lp (poff + enclen + backlen_size) (poff + replaced_len)
                    (old_listpack_bytes - poff - replaced_len));
       let lp = (if new_listpack_bytes < old_listpack_bytes then realloc junk lp new_listpack_bytes else lp);
       b \<leftarrow> peek lp poff;
       let newp = (if del \<and> b = LP_EOF then None else Some poff);
       lp \<leftarrow> (if del then Some lp
             else do { lp \<leftarrow> put_bytes lp poff bytes; put_bytes lp (poff + enclen) backlen });
       lp \<leftarrow> (if place \<noteq> LP_REPLACE \<or> del
             then do {
               num_elements \<leftarrow> lpGetNumElements lp;
               if num_elements \<noteq> LP_HDR_NUMELE_UNKNOWN
               then lpSetNumElements lp (if del then (num_elements + (2 ^ 32 - 1)) mod 2 ^ 32 else num_elements + 1)
               else Some lp
             }
             else Some lp);
       lp \<leftarrow> lpSetTotalBytes lp new_listpack_bytes;
       Some (Some (lp, newp))
     }
   }"

text \<open>The encoded bytes of the element to insert and the length that is reserved for them.\<close>

definition lpInsert_bytes :: "lp_element \<Rightarrow> byte list \<times> nat" where
  "lpInsert_bytes ele =
     (case ele of
        ELE_STR s \<Rightarrow> (case lpEncodeGetType s of (ENC_INT e, n) \<Rightarrow> (e, n) | (ENC_STRING, n) \<Rightarrow> (lpEncodeString s, n))
      | ELE_INT e \<Rightarrow> (e, length e)
      | ELE_NONE \<Rightarrow> ([], 0))"

definition lpInsert ::
  "(nat \<Rightarrow> byte) \<Rightarrow> byte list \<Rightarrow> lp_element \<Rightarrow> nat \<Rightarrow> lp_where \<Rightarrow> (byte list \<times> nat option) option option" where
  "lpInsert junk lp ele p place = do {
     let del = (ele = ELE_NONE);
     let place = (if del then LP_REPLACE else place);
     old_listpack_bytes \<leftarrow> lpGetTotalBytes lp;
     (p, place) \<leftarrow>
       (if place = LP_AFTER
        then do {
          p \<leftarrow> lpSkip lp p;
          if p \<ge> LP_HDR_SIZE \<and> p < old_listpack_bytes then Some (p, LP_BEFORE) else None
        }
        else Some (p, place));
     let (bytes, enclen) = lpInsert_bytes ele;
     let backlen = (if del then [] else lpEncodeBacklen enclen);
     replaced_len \<leftarrow>
       (if place = LP_REPLACE
        then do {
          n \<leftarrow> lpCurrentEncodedSizeUnsafe lp p;
          let n = (n + lpEncodeBacklenBytes n) mod 2 ^ 32;
          if p \<ge> LP_HDR_SIZE \<and> p + n < old_listpack_bytes then Some n else None
        }
        else Some 0);
     lpInsert_splice junk lp del place p bytes enclen backlen replaced_len old_listpack_bytes
   }"

definition lpInsertInteger ::
  "(nat \<Rightarrow> byte) \<Rightarrow> byte list \<Rightarrow> int \<Rightarrow> nat \<Rightarrow> lp_where \<Rightarrow> (byte list \<times> nat option) option option" where
  "lpInsertInteger junk lp lval p place = lpInsert junk lp (ELE_INT (lpEncodeIntegerGetType lval)) p place"

definition lpAppend :: "(nat \<Rightarrow> byte) \<Rightarrow> byte list \<Rightarrow> byte list \<Rightarrow> (byte list \<times> nat option) option option" where
  "lpAppend junk lp ele = do {
     n \<leftarrow> lpGetTotalBytes lp;
     if n = 0 then None else lpInsert junk lp (ELE_STR ele) (n - 1) LP_BEFORE
   }"

definition lpAppendInteger :: "(nat \<Rightarrow> byte) \<Rightarrow> byte list \<Rightarrow> int \<Rightarrow> (byte list \<times> nat option) option option" where
  "lpAppendInteger junk lp lval = do {
     n \<leftarrow> lpGetTotalBytes lp;
     if n = 0 then None else lpInsertInteger junk lp lval (n - 1) LP_BEFORE
   }"

definition lpPrepend :: "(nat \<Rightarrow> byte) \<Rightarrow> byte list \<Rightarrow> byte list \<Rightarrow> (byte list \<times> nat option) option option" where
  "lpPrepend junk lp s = do {
     p \<leftarrow> lpFirst lp;
     case p of None \<Rightarrow> lpAppend junk lp s | Some p \<Rightarrow> lpInsert junk lp (ELE_STR s) p LP_BEFORE
   }"

definition lpPrependInteger :: "(nat \<Rightarrow> byte) \<Rightarrow> byte list \<Rightarrow> int \<Rightarrow> (byte list \<times> nat option) option option" where
  "lpPrependInteger junk lp lval = do {
     p \<leftarrow> lpFirst lp;
     case p of None \<Rightarrow> lpAppendInteger junk lp lval | Some p \<Rightarrow> lpInsertInteger junk lp lval p LP_BEFORE
   }"

definition lpReplace :: "(nat \<Rightarrow> byte) \<Rightarrow> byte list \<Rightarrow> nat \<Rightarrow> byte list \<Rightarrow> (byte list \<times> nat option) option option" where
  "lpReplace junk lp p s = lpInsert junk lp (ELE_STR s) p LP_REPLACE"

definition lpReplaceInteger :: "(nat \<Rightarrow> byte) \<Rightarrow> byte list \<Rightarrow> nat \<Rightarrow> int \<Rightarrow> (byte list \<times> nat option) option option" where
  "lpReplaceInteger junk lp p lval = lpInsertInteger junk lp lval p LP_REPLACE"

definition lpDelete :: "(nat \<Rightarrow> byte) \<Rightarrow> byte list \<Rightarrow> nat \<Rightarrow> (byte list \<times> nat option) option option" where
  "lpDelete junk lp p = lpInsert junk lp ELE_NONE p LP_REPLACE"

section \<open>Representation\<close>

definition entry :: "byte list \<Rightarrow> byte list" where
  "entry e = e @ lpEncodeBacklen (length e)"

definition body :: "byte list list \<Rightarrow> byte list" where
  "body es = concat (map entry es)"

definition header :: "nat \<Rightarrow> nat \<Rightarrow> byte list" where
  "header tot num = le_bytes 4 (int tot) @ le_bytes 2 (int num)"

text \<open>The block holds the elements \<open>es\<close> (as encoded bytes).  The count in the header is right, or it is the marker for
  an unknown count.\<close>

definition lp_rep :: "byte list \<Rightarrow> byte list list \<Rightarrow> bool" where
  "lp_rep lp es \<longleftrightarrow>
     (\<exists>num spare. lp = header (LP_HDR_SIZE + length (body es) + 1) num @ body es @ LP_EOF # spare \<and>
        (num = length es \<or> num = LP_HDR_NUMELE_UNKNOWN) \<and> num \<le> LP_HDR_NUMELE_UNKNOWN) \<and>
     (\<forall>e \<in> set es. valid_enc e) \<and> LP_HDR_SIZE + length (body es) + 1 < 2 ^ 32"

text \<open>The offset of the element that follows the elements \<open>xs\<close>.\<close>

definition off :: "byte list list \<Rightarrow> nat" where
  "off xs = LP_HDR_SIZE + length (body xs)"

lemma body_simps [simp]: "body [] = []" "body (e # es) = entry e @ body es" "body (es @ fs) = body es @ body fs"
  by (simp_all add: body_def)

lemma length_header [simp]: "length (header tot num) = LP_HDR_SIZE"
  by (simp add: header_def LP_HDR_SIZE_def)

lemma length_entry: "length (entry e) = length e + lpEncodeBacklenBytes (length e)"
  by (simp add: entry_def)

lemma header_total: "tot < 2 ^ 32 \<Longrightarrow> lpGetTotalBytes (header tot num @ rest) = Some tot"
  by (simp add: lpGetTotalBytes_def header_def get_bytes_def le_unsigned_le_bytes nat_mod_distrib)

lemma header_num: "num < 2 ^ 16 \<Longrightarrow> lpGetNumElements (header tot num @ rest) = Some num"
  by (simp add: lpGetNumElements_def header_def get_bytes_def le_unsigned_le_bytes nat_mod_distrib)

lemma header_set_total: "lpSetTotalBytes (header tot num @ rest) t = Some (header t num @ rest)"
  by (simp add: lpSetTotalBytes_def header_def put_bytes_def)

lemma header_set_num: "lpSetNumElements (header tot num @ rest) n = Some (header tot n @ rest)"
  by (simp add: lpSetNumElements_def header_def put_bytes_def)

text \<open>Reading an element does not look beyond it.\<close>

lemma str_len_prefix:
  "LP_ENCODING_12BIT_STR_LEN e 0 = Some k \<Longrightarrow> LP_ENCODING_12BIT_STR_LEN (e @ r) 0 = Some k"
  "LP_ENCODING_32BIT_STR_LEN e 0 = Some k \<Longrightarrow> LP_ENCODING_32BIT_STR_LEN (e @ r) 0 = Some k"
proof -
  show "LP_ENCODING_12BIT_STR_LEN (e @ r) 0 = Some k" if "LP_ENCODING_12BIT_STR_LEN e 0 = Some k"
  proof -
    from that obtain b0 b1 where "peek e 0 = Some b0" "peek e 1 = Some b1" "k = unat (b0 AND 0xF) * 256 + unat b1"
      by (auto simp: LP_ENCODING_12BIT_STR_LEN_def split: bind_splits)
    with peek_prefix [OF this(1), of r] peek_prefix [OF this(2), of r] show ?thesis
      by (simp add: LP_ENCODING_12BIT_STR_LEN_def)
  qed
  show "LP_ENCODING_32BIT_STR_LEN (e @ r) 0 = Some k" if "LP_ENCODING_32BIT_STR_LEN e 0 = Some k"
  proof -
    from that obtain bs where "get_bytes e 1 4 = Some bs" "k = nat (le_unsigned bs)"
      by (auto simp: LP_ENCODING_32BIT_STR_LEN_def)
    with get_bytes_prefix [OF this(1), of r] show ?thesis
      by (simp add: LP_ENCODING_32BIT_STR_LEN_def)
  qed
qed

lemma map_option_prefix:
  assumes "\<And>k. x = Some k \<Longrightarrow> y = Some k" and "map_option f x = Some n"
  shows "map_option f y = Some n"
  using assms by (cases x) simp_all

lemma size_prefix: "lpCurrentEncodedSizeUnsafe e 0 = Some n \<Longrightarrow> lpCurrentEncodedSizeUnsafe (e @ r) 0 = Some n"
proof -
  assume sz: "lpCurrentEncodedSizeUnsafe e 0 = Some n"
  then obtain b where b: "peek e 0 = Some b" by (auto simp: lpCurrentEncodedSizeUnsafe_def split: bind_splits)
  have p: "peek (e @ r) 0 = Some b" by (rule peek_prefix [OF b])
  note m = map_option_prefix [OF str_len_prefix(1) [of e _ r]] map_option_prefix [OF str_len_prefix(2) [of e _ r]]
  show ?thesis
    using sz unfolding lpCurrentEncodedSizeUnsafe_def b p bind.bind_lunit
    by (simp only: m if_True if_False simp_thms split: if_split_asm)
qed

lemma valid_enc_size: "valid_enc e \<Longrightarrow> lpCurrentEncodedSizeUnsafe (xs @ e @ ys) (length xs) = Some (length e)"
  unfolding size_local by (rule size_prefix) (simp add: valid_enc_def)

lemma lpSkip_entry: "valid_enc e \<Longrightarrow> lpSkip (xs @ entry e @ ys) (length xs) = Some (length xs + length (entry e))"
  using valid_enc_size [of e xs "lpEncodeBacklen (length e) @ ys"] by (simp add: lpSkip_def entry_def)

lemma hd_entry: "valid_enc e \<Longrightarrow> peek (xs @ entry e @ ys) (length xs) = Some (hd e)"
  by (cases e) (simp_all add: valid_enc_def entry_def)

lemma decode_entry:
  assumes "length e < 2 ^ 32"
  shows "lpDecodeBacklen (xs @ entry e @ ys) (length xs + length (entry e) - 1) = Some (length e)"
  using lpDecodeBacklen_encode [of "length e" "xs @ e" ys] assms by (simp add: entry_def add.assoc)

lemma lpValidateNext_entry:
  assumes e: "valid_enc e" and "LP_HDR_SIZE \<le> length xs" "length xs + length (entry e) < lpbytes" "length e < 2 ^ 32"
  shows "lpValidateNext (xs @ entry e @ ys) (Some (length xs)) lpbytes = Some (True, Some (length xs + length (entry e)))"
proof -
  have "hd e \<noteq> LP_EOF" "lpCurrentEncodedSizeBytes (hd e) \<noteq> 0" "lpCurrentEncodedSizeBytes (hd e) \<le> length e"
    using e by (simp_all add: valid_enc_def)
  moreover have "lpCurrentEncodedSizeUnsafe (xs @ entry e @ ys) (length xs) = Some (length e)"
    using valid_enc_size [OF e, of xs "lpEncodeBacklen (length e) @ ys"] by (simp add: entry_def)
  moreover have "lpEncodeBacklenBytes (length e) \<le> 5" by (rule lpEncodeBacklenBytes_bounds)
  ultimately show ?thesis
    using assms hd_entry [OF e, of xs ys] decode_entry [OF assms(4), of xs ys]
    by (simp add: lpValidateNext_def out_of_range_def length_entry Let_def)
qed

lemma lpValidateNext_eof:
  "LP_HDR_SIZE \<le> length xs \<Longrightarrow> length xs < lpbytes \<Longrightarrow>
   lpValidateNext (xs @ LP_EOF # ys) (Some (length xs)) lpbytes = Some (True, None)"
  by (simp add: lpValidateNext_def out_of_range_def)

section \<open>Navigation\<close>

lemma off_simps [simp]: "off [] = LP_HDR_SIZE" "off (xs @ [e]) = off xs + length (entry e)"
  by (simp_all add: off_def)

lemma off_bounds: "LP_HDR_SIZE \<le> off xs" "off xs \<le> off (xs @ ys)"
  by (simp_all add: off_def)

lemma lp_rep_split:
  assumes "lp_rep lp (xs @ ys)"
  obtains num spare where "lp = (header (off (xs @ ys) + 1) num @ body xs) @ body ys @ LP_EOF # spare"
    "num = length (xs @ ys) \<or> num = LP_HDR_NUMELE_UNKNOWN" "num \<le> LP_HDR_NUMELE_UNKNOWN"
    "\<forall>e \<in> set (xs @ ys). valid_enc e" "off (xs @ ys) + 1 < 2 ^ 32"
  using assms by (force simp: lp_rep_def off_def)

lemma prefix_length: "length (header t num @ body xs) = off xs"
  by (simp add: off_def)

lemma rep_total: "lp_rep lp es \<Longrightarrow> lpGetTotalBytes lp = Some (off es + 1)"
  by (auto simp: lp_rep_def off_def header_total)

lemma rep_length: "lp_rep lp es \<Longrightarrow> off es + 1 \<le> length lp"
  by (auto simp: lp_rep_def off_def)

lemma rep_valid:
  assumes "lp_rep lp (xs @ e # ys)"
  shows "valid_enc e" "length (entry e) < 2 ^ 32" "length e < 2 ^ 32" "off xs + length (entry e) \<le> off (xs @ e # ys)"
  using assms by (auto simp: lp_rep_def off_def entry_def)

lemma rep_skip:
  assumes "lp_rep lp (xs @ e # ys)"
  shows "lpSkip lp (off xs) = Some (off (xs @ [e]))"
proof -
  obtain t num spare where lp: "lp = (header t num @ body xs) @ body (e # ys) @ LP_EOF # spare"
    using assms by (rule lp_rep_split)
  show ?thesis
    using lpSkip_entry [OF rep_valid(1) [OF assms], of "header t num @ body xs" "body ys @ LP_EOF # spare"]
    unfolding prefix_length by (simp add: lp)
qed

lemma rep_size:
  assumes "lp_rep lp (xs @ e # ys)"
  shows "lpCurrentEncodedSizeUnsafe lp (off xs) = Some (length e)"
proof -
  obtain t num spare where lp: "lp = (header t num @ body xs) @ body (e # ys) @ LP_EOF # spare"
    using assms by (rule lp_rep_split)
  show ?thesis
    using valid_enc_size [OF rep_valid(1) [OF assms],
        of "header t num @ body xs" "lpEncodeBacklen (length e) @ body ys @ LP_EOF # spare"]
    unfolding prefix_length by (simp add: lp entry_def)
qed

lemma rep_peek:
  assumes "lp_rep lp (xs @ e # ys)"
  shows "peek lp (off xs) = Some (hd e)" "hd e \<noteq> LP_EOF"
proof -
  obtain t num spare where lp: "lp = (header t num @ body xs) @ body (e # ys) @ LP_EOF # spare"
    using assms by (rule lp_rep_split)
  show "peek lp (off xs) = Some (hd e)"
    using hd_entry [OF rep_valid(1) [OF assms], of "header t num @ body xs" "body ys @ LP_EOF # spare"]
    unfolding prefix_length by (simp add: lp)
  show "hd e \<noteq> LP_EOF" using rep_valid(1) [OF assms] by (simp add: valid_enc_def)
qed

lemma rep_eof: "lp_rep lp es \<Longrightarrow> peek lp (off es) = Some LP_EOF"
  by (auto simp: lp_rep_def off_def peek_def nth_append)

lemma rep_validate:
  assumes "lp_rep lp (xs @ e # ys)"
  shows "lpValidateNext lp (Some (off xs)) (off (xs @ e # ys) + 1) = Some (True, Some (off (xs @ [e])))"
proof -
  obtain t num spare where lp: "lp = (header t num @ body xs) @ body (e # ys) @ LP_EOF # spare"
    using assms by (rule lp_rep_split)
  have "lpValidateNext ((header t num @ body xs) @ entry e @ body ys @ LP_EOF # spare)
      (Some (length (header t num @ body xs))) (off (xs @ e # ys) + 1)
    = Some (True, Some (length (header t num @ body xs) + length (entry e)))"
    by (rule lpValidateNext_entry [OF rep_valid(1) [OF assms]])
      (use rep_valid(3,4) [OF assms] in \<open>simp_all add: off_def\<close>)
  then show ?thesis unfolding prefix_length by (simp add: lp)
qed

lemma rep_validate_eof:
  assumes "lp_rep lp es"
  shows "lpValidateNext lp (Some (off es)) (off es + 1) = Some (True, None)"
  using rep_eof [OF assms] off_bounds(1) [of es] by (simp add: lpValidateNext_def out_of_range_def)

lemma rep_assert:
  assumes "lp_rep lp (xs @ ys)"
  shows "lpAssertValidEntry lp (off (xs @ ys) + 1) (off xs) = Some ()"
  using assms rep_validate [of lp xs] rep_validate_eof [of lp xs]
  by (cases ys) (simp_all add: lpAssertValidEntry_def)

lemma rep_decode:
  assumes "lp_rep lp (xs @ e # ys)"
  shows "lpDecodeBacklen lp (off (xs @ [e]) - 1) = Some (length e)"
proof -
  obtain t num spare where lp: "lp = (header t num @ body xs) @ body (e # ys) @ LP_EOF # spare"
    using assms by (rule lp_rep_split)
  show ?thesis
    using decode_entry [OF rep_valid(3) [OF assms], of "header t num @ body xs" "body ys @ LP_EOF # spare"]
    unfolding prefix_length by (simp add: lp)
qed

text \<open>The navigation functions on a block that represents \<open>xs @ ys\<close>, at the element after \<open>xs\<close>.\<close>

definition at :: "byte list list \<Rightarrow> byte list list \<Rightarrow> nat option" where
  "at xs ys = (if ys = [] then None else Some (off xs))"

lemma lpFirst_rep:
  assumes "lp_rep lp es"
  shows "lpFirst lp = Some (at [] es)"
proof (cases es)
  case Nil
  then show ?thesis using rep_eof [OF assms] by (simp add: lpFirst_def at_def)
next
  case (Cons e ys)
  then have "lp_rep lp ([] @ e # ys)" using assms by simp
  from rep_peek [OF this] rep_assert [OF this] rep_total [OF this] show ?thesis
    using Cons by (simp add: lpFirst_def at_def lpBytes_def)
qed

lemma lpNext_rep:
  assumes "lp_rep lp (xs @ e # ys)"
  shows "lpNext lp (off xs) = Some (at (xs @ [e]) ys)"
proof (cases ys)
  case Nil
  then show ?thesis
    using rep_skip [OF assms] rep_eof [OF assms] by (simp add: lpNext_def at_def)
next
  case (Cons f zs)
  then have "lp_rep lp ((xs @ [e]) @ f # zs)" using assms by simp
  from rep_peek [OF this] rep_assert [OF this] rep_total [OF this] show ?thesis
    using rep_skip [OF assms] Cons by (simp add: lpNext_def at_def lpBytes_def)
qed

lemma backlen_sum: "length e < 2 ^ 32 \<Longrightarrow> (length e + lpEncodeBacklenBytes (length e)) mod 2 ^ 64 = length (entry e)"
  using lpEncodeBacklenBytes_bounds(2) [of "length e"] by (simp add: length_entry)

lemma lpPrev_rep:
  assumes "lp_rep lp (xs @ e # ys)"
  shows "lpPrev lp (off (xs @ [e])) = Some (Some (off xs))"
proof -
  have "0 < length (entry e)" using rep_valid(1) [OF assms] by (simp add: entry_def valid_enc_def)
  moreover have "LP_HDR_SIZE \<le> off xs" by (rule off_bounds)
  ultimately have "off xs + length (entry e) \<noteq> LP_HDR_SIZE" "off xs + length (entry e) \<noteq> 0" by linarith+
  then show ?thesis
    using rep_decode [OF assms] rep_assert [OF assms] rep_total [OF assms] backlen_sum [OF rep_valid(3) [OF assms]]
    by (simp add: lpPrev_def lpBytes_def Let_def)
qed

lemma lpPrev_first: "lpPrev lp LP_HDR_SIZE = Some None"
  by (simp add: lpPrev_def)

lemma lpLast_rep:
  assumes "lp_rep lp es"
  shows "lpLast lp = Some (if es = [] then None else Some (off (butlast es)))"
proof (cases es rule: rev_cases)
  case Nil
  then show ?thesis using rep_total [OF assms] by (simp add: lpLast_def lpPrev_first)
next
  case (snoc xs e)
  then show ?thesis using rep_total [OF assms] lpPrev_rep [of lp xs e "[]"] assms by (simp add: lpLast_def)
qed

section \<open>Length\<close>

lemma lpLength_loop_rep:
  "lp_rep lp (xs @ ys) \<Longrightarrow> length ys \<le> fuel \<Longrightarrow> lpLength_loop fuel lp (at xs ys) n = Some (n + length ys)"
proof (induction ys arbitrary: xs fuel n)
  case Nil
  then show ?case by (simp add: at_def)
next
  case (Cons e ys)
  then obtain f where "fuel = Suc f" by (cases fuel) auto
  then show ?case
    using Cons.IH [of "xs @ [e]" f "n + 1"] Cons.prems lpNext_rep [OF Cons.prems(1)] by (simp add: at_def)
qed

lemma body_length: "\<forall>e \<in> set es. valid_enc e \<Longrightarrow> length es \<le> length (body es)"
proof (induction es)
  case (Cons e es)
  then have "1 \<le> length (entry e)" by (auto simp: entry_def valid_enc_def Suc_le_eq)
  then show ?case using Cons by simp
qed simp

lemma rep_count: "lp_rep lp es \<Longrightarrow> length es < length lp" "lp_rep lp es \<Longrightarrow> length es < 2 ^ 32"
  using body_length [of es] by (auto simp: lp_rep_def)

lemma rep_num:
  assumes "lp_rep lp es"
  obtains num where "lpGetNumElements lp = Some num" "num = length es \<or> num = LP_HDR_NUMELE_UNKNOWN"
    "num \<le> LP_HDR_NUMELE_UNKNOWN"
  using assms by (auto simp: lp_rep_def header_num LP_HDR_NUMELE_UNKNOWN_def)

text \<open>Counting never changes what the block represents.\<close>

lemma lpLength_rep:
  assumes "lp_rep lp es"
  obtains lp' where "lpLength lp = Some (length es, lp')" "lp_rep lp' es" "length lp' = length lp"
    "lpGetTotalBytes lp' = lpGetTotalBytes lp"
proof -
  obtain num spare where lp: "lp = header (off es + 1) num @ body es @ LP_EOF # spare"
    and num: "num = length es \<or> num = LP_HDR_NUMELE_UNKNOWN" "num \<le> LP_HDR_NUMELE_UNKNOWN"
    and ok: "\<forall>e \<in> set es. valid_enc e" "off es + 1 < 2 ^ 32"
    using lp_rep_split [of lp "[]" es] assms by auto
  have get: "lpGetNumElements lp = Some num"
    using num(2) by (simp add: lp header_num LP_HDR_NUMELE_UNKNOWN_def)
  have cnt: "lpLength_loop (length lp) lp (at [] es) 0 = Some (length es)"
    using lpLength_loop_rep [of lp "[]" es "length lp" 0] rep_count(1) [OF assms] assms by simp
  show thesis
  proof (cases "num \<noteq> LP_HDR_NUMELE_UNKNOWN \<or> length es \<ge> LP_HDR_NUMELE_UNKNOWN")
    case True
    then have "lpLength lp = Some (length es, lp)"
      using get cnt num by (auto simp: lpLength_def lpFirst_rep [OF assms])
    then show thesis by (rule that) (use assms in simp_all)
  next
    case False
    define lp' where "lp' = header (off es + 1) (length es) @ body es @ LP_EOF # spare"
    have "lpSetNumElements lp (length es) = Some lp'" by (simp add: lp lp'_def header_set_num)
    then have "lpLength lp = Some (length es, lp')"
      using get cnt False by (simp add: lpLength_def lpFirst_rep [OF assms])
    moreover have "lp_rep lp' es" using ok False by (auto simp: lp_rep_def lp'_def off_def)
    ultimately show thesis
      by (rule that) (use ok in \<open>simp_all add: lp lp'_def header_total\<close>)
  qed
qed

section \<open>Insertion, replacement and deletion\<close>

text \<open>Moving the bytes \<open>Q\<close> that follow \<open>Old\<close> so that room for \<open>n\<close> bytes is left after \<open>P\<close>.\<close>

lemma memmove_tail:
  assumes "length P + n + length Q \<le> length (P @ Old @ Q @ spare)"
  obtains M spare' where
    "memmove (P @ Old @ Q @ spare) (length P + n) (length P + length Old) (length Q) = Some (P @ M @ Q @ spare')"
    "length M = n" "length (P @ M @ Q @ spare') = length (P @ Old @ Q @ spare)"
proof -
  define T where "T = Old @ Q @ spare"
  have n: "n + length Q \<le> length T" using assms by (simp add: T_def)
  have "get_bytes (P @ T) (length P + length Old) (length Q) = Some Q" by (simp add: get_bytes_def T_def)
  moreover have "put_bytes (P @ T) (length P + n) Q = Some (P @ take n T @ Q @ drop (n + length Q) T)"
    using n by (simp add: put_bytes_def)
  ultimately have "memmove (P @ T) (length P + n) (length P + length Old) (length Q)
      = Some (P @ take n T @ Q @ drop (n + length Q) T)"
    by (simp add: memmove_def)
  then show thesis
    by (rule that [of "take n T" "drop (n + length Q) T", folded T_def]) (use n in simp_all)
qed

lemma header_body_num: "num \<le> LP_HDR_NUMELE_UNKNOWN \<Longrightarrow> lpGetNumElements (header t num @ r) = Some num"
  by (simp add: header_num LP_HDR_NUMELE_UNKNOWN_def)

text \<open>The bytes written: for a deletion nothing, otherwise the element and its backward length.\<close>

lemma put_entry:
  assumes "length M = length bytes + length backlen"
  shows "do { lp \<leftarrow> put_bytes (P @ M @ R) (length P) bytes; put_bytes lp (length P + length bytes) backlen }
    = Some (P @ bytes @ backlen @ R)"
  using assms by (simp add: put_bytes_def)

definition new_num :: "bool \<Rightarrow> lp_where \<Rightarrow> nat \<Rightarrow> nat" where
  "new_num del place num =
     (if place = LP_REPLACE \<and> \<not> del \<or> num = LP_HDR_NUMELE_UNKNOWN then num else if del then num - 1 else num + 1)"

lemma splice_room:
  assumes lp: "lp = P @ Old @ Q @ spare" and t: "t = length P + length Old + length Q"
    and new: "new = length P + n + length Q"
  obtains M spare' where
    "memmove (if new > t \<and> new > length lp then realloc junk lp new else lp) (length P + n) (length P + length Old)
       (length Q) = Some (P @ M @ Q @ spare')" "length M = n"
proof -
  define lp1 where "lp1 = (if new > t \<and> new > length lp then realloc junk lp new else lp)"
  have "lp1 = lp \<or> lp1 = lp @ map junk [length lp..<new]" by (simp add: lp1_def realloc_grow)
  then obtain spare1 where lp1: "lp1 = P @ Old @ Q @ spare1" using lp by auto
  have "new \<le> length lp1" using lp t by (auto simp: lp1_def)
  then obtain M spare' where "memmove lp1 (length P + n) (length P + length Old) (length Q) = Some (P @ M @ Q @ spare')"
    "length M = n"
    using memmove_tail [of P n Q Old spare1] unfolding lp1 new by blast
  then show thesis using that unfolding lp1_def by blast
qed

lemma hd_body_eof:
  assumes "\<forall>e \<in> set ys. valid_enc e"
  shows "\<exists>b. peek (P @ body ys @ LP_EOF # r) (length P) = Some b \<and> (b = LP_EOF \<longleftrightarrow> ys = [])"
  using assms hd_entry [of "hd ys" P "body (tl ys) @ LP_EOF # r"]
  by (cases ys) (auto simp: valid_enc_def)

lemma lpInsert_splice_correct:
  assumes lp: "lp = header t num @ body xs @ Old @ body ys @ LP_EOF # spare"
    and t: "t = off xs + length Old + length (body ys) + 1" and num: "num \<le> LP_HDR_NUMELE_UNKNOWN"
    and old: "place = LP_BEFORE \<longrightarrow> Old = []" and del: "del \<longrightarrow> bytes = [] \<and> backlen = [] \<and> 0 < num"
    and valid: "\<forall>e \<in> set ys. valid_enc e"
    and new: "new = off xs + length bytes + length backlen + length (body ys) + 1" "new < 2 ^ 32"
  obtains spare' where
    "lpInsert_splice junk lp del place (off xs) bytes (length bytes) backlen (length Old) t =
       Some (Some (header new (new_num del place num) @ body xs @ bytes @ backlen @ body ys @ LP_EOF # spare',
         if del \<and> ys = [] then None else Some (off xs)))"
proof -
  define P where "P = header t num @ body xs"
  define Q where "Q = body ys @ [LP_EOF]"
  define n where "n = length bytes + length backlen"
  have lp': "lp = P @ Old @ Q @ spare" by (simp add: lp P_def Q_def)
  have P: "length P = off xs" by (simp add: P_def off_def)
  have t': "t = length P + length Old + length Q" by (simp add: t P Q_def)
  have new': "new = length P + n + length Q" "t + length bytes + length backlen - length Old = new"
    by (simp_all add: new(1) t P Q_def n_def)
  obtain M spare2 where move:
    "memmove (if new > t \<and> new > length lp then realloc junk lp new else lp) (length P + n) (length P + length Old)
       (length Q) = Some (P @ M @ Q @ spare2)" and M: "length M = n"
    using splice_room [OF lp' t' new'(1)] by blast
  obtain spare3 where shrink: "(if new < t then realloc junk (P @ M @ Q @ spare2) new else P @ M @ Q @ spare2) = P @ M @ Q @ spare3"
  proof (cases "new < t")
    case True
    then show thesis using that [of "[]"] M new'(1) by (simp add: realloc_shrink)
  qed (use that in simp)
  obtain b where b: "peek (P @ M @ Q @ spare3) (length P) = Some b" "del \<Longrightarrow> b = LP_EOF \<longleftrightarrow> ys = []"
  proof (cases del)
    case True
    then have "M = []" using del M by (simp add: n_def)
    then show thesis using hd_body_eof [OF valid, of P spare3] that by (auto simp: Q_def)
  next
    case False
    have "length P < length (P @ M @ Q @ spare3)" by (simp add: Q_def)
    then show thesis using that False by (auto simp: peek_def)
  qed
  have put: "(if del then Some (P @ M @ Q @ spare3)
      else do { lp \<leftarrow> put_bytes (P @ M @ Q @ spare3) (length P) bytes; put_bytes lp (length P + length bytes) backlen })
    = Some (P @ bytes @ backlen @ Q @ spare3)"
    using put_entry [of M bytes backlen P "Q @ spare3"] M del by (auto simp: n_def)
  define R where "R = body xs @ bytes @ backlen @ Q @ spare3"
  have nums: "num \<noteq> LP_HDR_NUMELE_UNKNOWN \<Longrightarrow> del \<Longrightarrow> (num + (2 ^ 32 - 1)) mod 2 ^ 32 = num - 1"
    using num del by (simp add: LP_HDR_NUMELE_UNKNOWN_def mod_if)
  have hdr: "(if place \<noteq> LP_REPLACE \<or> del
      then do {
        num_elements \<leftarrow> lpGetNumElements (header t num @ R);
        if num_elements \<noteq> LP_HDR_NUMELE_UNKNOWN
        then lpSetNumElements (header t num @ R) (if del then (num_elements + (2 ^ 32 - 1)) mod 2 ^ 32 else num_elements + 1)
        else Some (header t num @ R)
      }
      else Some (header t num @ R)) = Some (header t (new_num del place num) @ R)"
    using header_body_num [OF num, of t R] nums by (auto simp: new_num_def header_set_num)
  have small: "\<not> new > 2 ^ 32 - 1" using new(2) by simp
  have "lpInsert_splice junk lp del place (off xs) bytes (length bytes) backlen (length Old) t =
      Some (Some (header new (new_num del place num) @ R, if del \<and> b = LP_EOF then None else Some (off xs)))"
  proof -
    have old': "place = LP_BEFORE \<Longrightarrow> memmove m k (off xs) (t - off xs) = memmove m k (off xs + length Old) (t - off xs - length Old)" for m :: "byte list" and k
      using old by simp
    have len: "t - off xs - length Old = length Q" by (simp add: t' P)
    have mv: "(if place = LP_BEFORE then memmove m k (off xs) (t - off xs)
        else memmove m k (off xs + length Old) (t - off xs - length Old)) = memmove m k (off xs + length Old) (length Q)" for m :: "byte list" and k
      using old' len by simp
    have dst: "length P + length bytes + length backlen = length P + n" by (simp add: n_def)
    have PR: "P @ bytes @ backlen @ Q @ spare3 = header t num @ R" by (simp add: P_def R_def)
    show ?thesis
      unfolding lpInsert_splice_def Let_def mv
      unfolding new'(2) P [symmetric] dst if_not_P [OF small] move bind.bind_lunit shrink b(1) put
      unfolding PR hdr bind.bind_lunit header_set_total ..
  qed
  then show thesis using that [of spare3] b(2) by (cases del) (auto simp: R_def Q_def)
qed

lemma lpInsert_splice_too_large:
  assumes "new = t + length bytes + length backlen - r" "2 ^ 32 \<le> new"
  shows "lpInsert_splice junk lp del place poff bytes (length bytes) backlen r t = Some None"
  using assms by (simp add: lpInsert_splice_def Let_def)

text \<open>An element that \<open>lpInsert\<close> can store: its encoding has the reserved length and is well formed, or is so long
  that it never fits.\<close>

definition stores :: "lp_element \<Rightarrow> byte list \<Rightarrow> bool" where
  "stores ele e \<longleftrightarrow> lpInsert_bytes ele = (e, length e) \<and> ele \<noteq> ELE_NONE \<and> (length e < 2 ^ 32 \<longrightarrow> valid_enc e)"

text \<open>The outcome of an operation that should leave the elements \<open>es\<close> and the pointer \<open>newp\<close>: the block represents
  them, unless it would be too large, which is reported.\<close>

definition outcome :: "(byte list \<times> nat option) option option \<Rightarrow> byte list list \<Rightarrow> nat option \<Rightarrow> bool" where
  "outcome r es newp \<longleftrightarrow>
     (if off es + 1 < 2 ^ 32 then \<exists>lp. r = Some (Some (lp, newp)) \<and> lp_rep lp es else r = Some None)"

lemma off_append: "off (xs @ ys) = off xs + length (body ys)"
  by (simp add: off_def)

lemma lp_repI:
  assumes "lp = header (off es + 1) num @ body es @ LP_EOF # spare"
    "num = length es \<or> num = LP_HDR_NUMELE_UNKNOWN" "num \<le> LP_HDR_NUMELE_UNKNOWN"
    "\<forall>e \<in> set es. valid_enc e" "off es + 1 < 2 ^ 32"
  shows "lp_rep lp es"
  using assms unfolding lp_rep_def off_def by blast

lemma splice_insert:
  assumes rep: "lp_rep lp (xs @ ys)" and valid_e: "length e < 2 ^ 32 \<longrightarrow> valid_enc e"
  shows "outcome (lpInsert_splice junk lp False LP_BEFORE (off xs) e (length e) (lpEncodeBacklen (length e)) 0
      (off (xs @ ys) + 1)) (xs @ e # ys) (Some (off xs))"
proof (cases "off (xs @ e # ys) + 1 < 2 ^ 32")
  case True
  then have e: "valid_enc e" using valid_e by (simp add: off_append length_entry)
  obtain num spare where lp: "lp = header (off (xs @ ys) + 1) num @ body xs @ body ys @ LP_EOF # spare"
    and num: "num = length (xs @ ys) \<or> num = LP_HDR_NUMELE_UNKNOWN" "num \<le> LP_HDR_NUMELE_UNKNOWN"
    and valid: "\<forall>e \<in> set (xs @ ys). valid_enc e"
    using rep by (rule lp_rep_split) simp
  obtain spare' where "lpInsert_splice junk lp False LP_BEFORE (off xs) e (length e) (lpEncodeBacklen (length e)) 0
      (off (xs @ ys) + 1) = Some (Some (header (off (xs @ e # ys) + 1) (new_num False LP_BEFORE num) @
        body xs @ e @ lpEncodeBacklen (length e) @ body ys @ LP_EOF # spare', Some (off xs)))"
    using lpInsert_splice_correct [of lp "off (xs @ ys) + 1" num xs "[]" ys spare LP_BEFORE False e
        "lpEncodeBacklen (length e)" "off (xs @ e # ys) + 1" junk] lp num valid True
    by (force simp: off_append length_entry)
  moreover have "lp_rep (header (off (xs @ e # ys) + 1) (new_num False LP_BEFORE num) @
      body xs @ e @ lpEncodeBacklen (length e) @ body ys @ LP_EOF # spare') (xs @ e # ys)"
    by (rule lp_repI [of _ _ "new_num False LP_BEFORE num" spare'])
      (use num valid True e in \<open>auto simp: entry_def new_num_def\<close>)
  ultimately show ?thesis using True by (auto simp: outcome_def)
next
  case False
  then show ?thesis
    using lpInsert_splice_too_large [of "off (xs @ e # ys) + 1" "off (xs @ ys) + 1" e "lpEncodeBacklen (length e)" 0]
    by (simp add: outcome_def off_append length_entry)
qed

lemma splice_replace:
  assumes rep: "lp_rep lp (xs @ f # ys)" and valid_e: "length e < 2 ^ 32 \<longrightarrow> valid_enc e"
  shows "outcome (lpInsert_splice junk lp False LP_REPLACE (off xs) e (length e) (lpEncodeBacklen (length e))
      (length (entry f)) (off (xs @ f # ys) + 1)) (xs @ e # ys) (Some (off xs))"
proof (cases "off (xs @ e # ys) + 1 < 2 ^ 32")
  case True
  then have e: "valid_enc e" using valid_e by (simp add: off_append length_entry)
  obtain num spare where lp: "lp = header (off (xs @ f # ys) + 1) num @ body xs @ entry f @ body ys @ LP_EOF # spare"
    and num: "num = length (xs @ f # ys) \<or> num = LP_HDR_NUMELE_UNKNOWN" "num \<le> LP_HDR_NUMELE_UNKNOWN"
    and valid: "\<forall>e \<in> set (xs @ f # ys). valid_enc e"
    using rep by (rule lp_rep_split) simp
  obtain spare' where "lpInsert_splice junk lp False LP_REPLACE (off xs) e (length e) (lpEncodeBacklen (length e))
      (length (entry f)) (off (xs @ f # ys) + 1) = Some (Some (header (off (xs @ e # ys) + 1) num @
        body xs @ e @ lpEncodeBacklen (length e) @ body ys @ LP_EOF # spare', Some (off xs)))"
    using lpInsert_splice_correct [of lp "off (xs @ f # ys) + 1" num xs "entry f" ys spare LP_REPLACE False e
        "lpEncodeBacklen (length e)" "off (xs @ e # ys) + 1" junk] lp num valid True
    by (force simp: off_append length_entry new_num_def)
  moreover have "lp_rep (header (off (xs @ e # ys) + 1) num @
      body xs @ e @ lpEncodeBacklen (length e) @ body ys @ LP_EOF # spare') (xs @ e # ys)"
    by (rule lp_repI [of _ _ num spare']) (use num valid True e in \<open>auto simp: entry_def\<close>)
  ultimately show ?thesis using True by (auto simp: outcome_def)
next
  case False
  then show ?thesis
    using lpInsert_splice_too_large [of "off (xs @ e # ys) + 1" "off (xs @ f # ys) + 1" e "lpEncodeBacklen (length e)"
        "length (entry f)"]
    by (simp add: outcome_def off_append length_entry)
qed

lemma splice_delete:
  assumes rep: "lp_rep lp (xs @ f # ys)"
  shows "outcome (lpInsert_splice junk lp True LP_REPLACE (off xs) [] 0 [] (length (entry f)) (off (xs @ f # ys) + 1))
    (xs @ ys) (at xs ys)"
proof -
  obtain num spare where lp: "lp = header (off (xs @ f # ys) + 1) num @ body xs @ entry f @ body ys @ LP_EOF # spare"
    and num: "num = length (xs @ f # ys) \<or> num = LP_HDR_NUMELE_UNKNOWN" "num \<le> LP_HDR_NUMELE_UNKNOWN"
    and valid: "\<forall>e \<in> set (xs @ f # ys). valid_enc e" and small: "off (xs @ f # ys) + 1 < 2 ^ 32"
    using rep by (rule lp_rep_split) simp
  have small': "off (xs @ ys) + 1 < 2 ^ 32" using small by (simp add: off_append)
  have pos: "0 < num" using num by (auto simp: LP_HDR_NUMELE_UNKNOWN_def)
  obtain spare' where "lpInsert_splice junk lp True LP_REPLACE (off xs) [] 0 [] (length (entry f))
      (off (xs @ f # ys) + 1) = Some (Some (header (off (xs @ ys) + 1) (new_num True LP_REPLACE num) @
        body xs @ body ys @ LP_EOF # spare', at xs ys))"
    using lpInsert_splice_correct [of lp "off (xs @ f # ys) + 1" num xs "entry f" ys spare LP_REPLACE True "[]"
        "[]" "off (xs @ ys) + 1" junk] lp num valid small' pos
    by (force simp: off_append at_def)
  moreover have "lp_rep (header (off (xs @ ys) + 1) (new_num True LP_REPLACE num) @ body xs @ body ys @ LP_EOF # spare') (xs @ ys)"
    by (rule lp_repI [of _ _ "new_num True LP_REPLACE num" spare']) (use num valid small' in \<open>auto simp: new_num_def\<close>)
  ultimately show ?thesis using small' by (auto simp: outcome_def)
qed

lemma rep_replaced:
  assumes "lp_rep lp (xs @ f # ys)"
  shows "(length f + lpEncodeBacklenBytes (length f)) mod 2 ^ 32 = length (entry f)"
    "off xs + length (entry f) < off (xs @ f # ys) + 1"
  using rep_valid [OF assms] by (simp_all add: length_entry)

lemma lpInsert_before:
  assumes "lp_rep lp (xs @ ys)" "stores ele e"
  shows "outcome (lpInsert junk lp ele (off xs) LP_BEFORE) (xs @ e # ys) (Some (off xs))"
  using splice_insert [OF assms(1), of e] assms(2) rep_total [OF assms(1)]
  by (simp add: lpInsert_def stores_def)

lemma lpInsert_after:
  assumes "lp_rep lp (xs @ f # ys)" "stores ele e"
  shows "outcome (lpInsert junk lp ele (off xs) LP_AFTER) (xs @ f # e # ys) (Some (off (xs @ [f])))"
proof -
  have "LP_HDR_SIZE \<le> off xs + length (entry f)" using off_bounds(1) [of xs] by simp
  then show ?thesis
    using splice_insert [of lp "xs @ [f]" ys e] assms rep_total [OF assms(1)] rep_skip [OF assms(1)]
      rep_replaced(2) [OF assms(1)]
    by (simp add: lpInsert_def stores_def)
qed

lemma lpInsert_replace:
  assumes "lp_rep lp (xs @ f # ys)" "stores ele e"
  shows "outcome (lpInsert junk lp ele (off xs) LP_REPLACE) (xs @ e # ys) (Some (off xs))"
  using splice_replace [OF assms(1), of e] assms(2) rep_total [OF assms(1)] rep_size [OF assms(1)]
    rep_replaced [OF assms(1)] off_bounds(1) [of xs]
  by (simp add: lpInsert_def stores_def Let_def)

lemma lpDelete_rep:
  assumes "lp_rep lp (xs @ f # ys)"
  shows "outcome (lpDelete junk lp (off xs)) (xs @ ys) (at xs ys)"
  using splice_delete [OF assms(1)] rep_total [OF assms(1)] rep_size [OF assms(1)]
    rep_replaced [OF assms(1)] off_bounds(1) [of xs]
  by (simp add: lpDelete_def lpInsert_def lpInsert_bytes_def Let_def)

section \<open>Operations built on insertion\<close>

lemma lpNew_rep: "\<exists>lp. lpNew junk capacity = Some lp \<and> lp_rep lp []"
proof -
  define n where "n = (if capacity > LP_HDR_SIZE + 1 then capacity else LP_HDR_SIZE + 1)"
  define m where "m = realloc junk [] n"
  have "length m = n" by (simp add: m_def)
  then have m: "7 \<le> length m" by (auto simp: n_def LP_HDR_SIZE_def)
  have "lpNew junk capacity = Some (header (LP_HDR_SIZE + 1) 0 @ LP_EOF # drop 7 m)"
    unfolding lpNew_def Let_def n_def [symmetric] m_def [symmetric]
    using m by (simp add: lpSetTotalBytes_def lpSetNumElements_def put_bytes_def header_def LP_HDR_SIZE_def)
  moreover have "lp_rep (header (LP_HDR_SIZE + 1) 0 @ LP_EOF # drop 7 m) []"
    by (rule lp_repI [of _ _ 0 "drop 7 m"]) (simp_all add: LP_HDR_SIZE_def)
  ultimately show ?thesis by blast
qed

lemma lpShrinkToFit_rep:
  assumes "lp_rep lp es"
  obtains lp' where "lpShrinkToFit junk lp = Some lp'" "lp_rep lp' es" "length lp' = off es + 1"
proof -
  obtain num spare where lp: "lp = header (off es + 1) num @ body es @ LP_EOF # spare"
    and ok: "num = length es \<or> num = LP_HDR_NUMELE_UNKNOWN" "num \<le> LP_HDR_NUMELE_UNKNOWN"
      "\<forall>e \<in> set es. valid_enc e" "off es + 1 < 2 ^ 32"
    using lp_rep_split [of lp "[]" es] assms by auto
  define lp' where "lp' = header (off es + 1) num @ body es @ [LP_EOF]"
  have "length lp' = off es + 1" by (simp add: lp'_def off_def)
  then have "lpShrinkToFit junk lp = Some lp'"
    using rep_total [OF assms] by (auto simp: lpShrinkToFit_def lp lp'_def off_def realloc_shrink)
  moreover have "lp_rep lp' es" by (rule lp_repI [of _ _ num "[]"]) (use ok in \<open>simp_all add: lp'_def\<close>)
  ultimately show thesis using \<open>length lp' = off es + 1\<close> by (rule that)
qed

lemma lpStringToInt64_length: "lpStringToInt64 s = Some v \<Longrightarrow> length s < LONG_STR_SIZE"
  using length_sdec [of v] lpStringToInt64_exact [of s v] by (metis chars_def length_map)

lemma encode_element_long:
  assumes "2 ^ 32 \<le> length s + 5"
  shows "2 ^ 32 \<le> length (encode_element s)"
proof -
  have long: "4096 \<le> length s" "LONG_STR_SIZE \<le> length s" using assms by (simp_all add: LONG_STR_SIZE_def)
  then have "lpStringToInt64 s = None" using lpStringToInt64_length [of s] by (cases "lpStringToInt64 s") auto
  then have "encode_element s = lpEncodeString s" by (simp add: encode_element_def lpEncodeGetType_def Let_def)
  then show ?thesis using assms long(1) by (simp add: length_lpEncodeString str_header_def)
qed

lemma stores_string: "stores (ELE_STR s) (encode_element s)"
proof -
  have "lpInsert_bytes (ELE_STR s) = (encode_element s, snd (lpEncodeGetType s))"
    by (simp add: lpInsert_bytes_def encode_element_def split: prod.split lp_enctype.split)
  moreover have "valid_enc (encode_element s)" if "length (encode_element s) < 2 ^ 32"
  proof (rule encode_element_valid, rule ccontr)
    assume "\<not> length s + 5 < 2 ^ 32"
    with encode_element_long [of s] that show False by linarith
  qed
  ultimately show ?thesis by (simp add: stores_def encode_element_length)
qed

lemma stores_integer:
  "- (2 ^ 63) \<le> v \<Longrightarrow> v < 2 ^ 63 \<Longrightarrow> stores (ELE_INT (lpEncodeIntegerGetType v)) (lpEncodeIntegerGetType v)"
  using lpEncodeInteger_correct(1) [of v] by (simp add: stores_def lpInsert_bytes_def)

lemma append_rep:
  assumes "lp_rep lp es" "stores ele e"
  shows "outcome (lpInsert junk lp ele (off es) LP_BEFORE) (es @ [e]) (Some (off es))"
  using lpInsert_before [of lp es "[]"] assms by simp

lemma lpAppend_rep: "lp_rep lp es \<Longrightarrow> outcome (lpAppend junk lp s) (es @ [encode_element s]) (Some (off es))"
  using append_rep [OF _ stores_string] rep_total by (simp add: lpAppend_def)

lemma lpAppendInteger_rep:
  "lp_rep lp es \<Longrightarrow> - (2 ^ 63) \<le> v \<Longrightarrow> v < 2 ^ 63 \<Longrightarrow>
   outcome (lpAppendInteger junk lp v) (es @ [lpEncodeIntegerGetType v]) (Some (off es))"
  using append_rep [OF _ stores_integer] rep_total by (simp add: lpAppendInteger_def lpInsertInteger_def)

lemma lpPrepend_rep:
  assumes "lp_rep lp es"
  shows "outcome (lpPrepend junk lp s) (encode_element s # es) (Some LP_HDR_SIZE)"
  using lpFirst_rep [OF assms] lpInsert_before [of lp "[]" es, OF _ stores_string] lpAppend_rep [OF assms] assms
  by (cases es) (auto simp: lpPrepend_def at_def)

lemma lpPrependInteger_rep:
  assumes "lp_rep lp es" "- (2 ^ 63) \<le> v" "v < 2 ^ 63"
  shows "outcome (lpPrependInteger junk lp v) (lpEncodeIntegerGetType v # es) (Some LP_HDR_SIZE)"
  using lpFirst_rep [OF assms(1)] lpInsert_before [of lp "[]" es, OF _ stores_integer [OF assms(2,3)]]
    lpAppendInteger_rep [OF assms] assms(1)
  by (cases es) (auto simp: lpPrependInteger_def lpInsertInteger_def at_def)

end
