(* ===== verification/Listpack_Ops.thy ===== *)
theory Listpack_Ops
  imports Listpack
begin

text \<open>
  The rest of \<open>listpack.c\<close>: seeking by index, searching, ranges, batches, merging, and the validation of a
  serialised listpack.
\<close>

section \<open>Model\<close>

fun lpSeek_forward :: "byte list \<Rightarrow> nat \<Rightarrow> nat option \<Rightarrow> nat option option" where
  "lpSeek_forward lp 0 ele = Some ele"
| "lpSeek_forward lp (Suc n) None = Some None"
| "lpSeek_forward lp (Suc n) (Some p) = do { ele \<leftarrow> lpNext lp p; lpSeek_forward lp n ele }"

fun lpSeek_backward :: "byte list \<Rightarrow> nat \<Rightarrow> nat option \<Rightarrow> nat option option" where
  "lpSeek_backward lp 0 ele = Some ele"
| "lpSeek_backward lp (Suc n) None = Some None"
| "lpSeek_backward lp (Suc n) (Some p) = do { ele \<leftarrow> lpPrev lp p; lpSeek_backward lp n ele }"

definition lpSeek_scan :: "byte list \<Rightarrow> bool \<Rightarrow> int \<Rightarrow> nat option option" where
  "lpSeek_scan lp forward index =
     (if forward then do { ele \<leftarrow> lpFirst lp; lpSeek_forward lp (nat index) ele }
      else do { ele \<leftarrow> lpLast lp; lpSeek_backward lp (nat (- 1 - index)) ele })"

definition lpSeek :: "byte list \<Rightarrow> int \<Rightarrow> nat option option" where
  "lpSeek lp index = do {
     numele \<leftarrow> lpGetNumElements lp;
     if numele \<noteq> LP_HDR_NUMELE_UNKNOWN then
       let index = (if index < 0 then int numele + index else index) in
       if index < 0 then Some None
       else if index \<ge> int numele then Some None
       else if index > int numele div 2 then lpSeek_scan lp False (index - int numele)
       else lpSeek_scan lp True index
     else lpSeek_scan lp (\<not> index < 0) index
   }"

text \<open>The loop of \<open>lpDeleteRangeWithEntry\<close>: the end of the range and the number of elements in it.\<close>

fun lpDeleteRange_tail :: "byte list \<Rightarrow> nat \<Rightarrow> nat \<Rightarrow> nat \<Rightarrow> nat \<Rightarrow> (nat \<times> nat) option" where
  "lpDeleteRange_tail lp lpbytes 0 deleted tail = Some (tail, deleted)"
| "lpDeleteRange_tail lp lpbytes (Suc num) deleted tail = do {
     tail \<leftarrow> lpSkip lp tail;
     b \<leftarrow> peek lp tail;
     if b = LP_EOF then Some (tail, deleted + 1)
     else do {
       _ \<leftarrow> lpAssertValidEntry lp lpbytes tail;
       lpDeleteRange_tail lp lpbytes num (deleted + 1) tail
     }
   }"

definition lpDeleteRangeWithEntry ::
  "(nat \<Rightarrow> byte) \<Rightarrow> byte list \<Rightarrow> nat \<Rightarrow> nat \<Rightarrow> (byte list \<times> nat option) option" where
  "lpDeleteRangeWithEntry junk lp p num =
     (if num = 0 then Some (lp, Some p)
      else do {
        lpbytes \<leftarrow> lpBytes lp;
        (tail, deleted) \<leftarrow> lpDeleteRange_tail lp lpbytes num 0 p;
        lp \<leftarrow> (if tail < lpbytes then memmove lp p tail (lpbytes - tail) else None);
        lp \<leftarrow> lpSetTotalBytes lp (lpbytes - (tail - p));
        numele \<leftarrow> lpGetNumElements lp;
        lp \<leftarrow> (if numele \<noteq> LP_HDR_NUMELE_UNKNOWN
              then lpSetNumElements lp (nat ((int numele - int deleted) mod 2 ^ 64)) else Some lp);
        lp \<leftarrow> lpShrinkToFit junk lp;
        b \<leftarrow> peek lp p;
        Some (lp, if b = LP_EOF then None else Some p)
      })"

definition lpDeleteRange :: "(nat \<Rightarrow> byte) \<Rightarrow> byte list \<Rightarrow> int \<Rightarrow> nat \<Rightarrow> byte list option" where
  "lpDeleteRange junk lp index num = do {
     numele \<leftarrow> lpGetNumElements lp;
     if num = 0 then Some lp
     else do {
       p \<leftarrow> lpSeek lp index;
       case p of
         None \<Rightarrow> Some lp
       | Some p \<Rightarrow>
           let index = (if numele \<noteq> LP_HDR_NUMELE_UNKNOWN \<and> index < 0 then int numele + index else index) in
           if numele \<noteq> LP_HDR_NUMELE_UNKNOWN \<and> (int numele - index) mod 2 ^ 64 \<le> int num
           then do {
             lp \<leftarrow> put_bytes lp p [LP_EOF];
             lp \<leftarrow> lpSetTotalBytes lp (p + 1);
             lp \<leftarrow> lpSetNumElements lp (nat index);
             lpShrinkToFit junk lp
           }
           else map_option fst (lpDeleteRangeWithEntry junk lp p num)
     }
   }"

text \<open>The loop of \<open>lpBatchDelete\<close> moves what is kept after each deleted element to \<open>dst\<close>.\<close>

fun lpBatchDelete_loop :: "nat \<Rightarrow> byte list \<Rightarrow> nat \<Rightarrow> nat list \<Rightarrow> (byte list \<times> nat) option" where
  "lpBatchDelete_loop lp_end lp dst [] = Some (lp, dst)"
| "lpBatchDelete_loop lp_end lp dst (skip # ps) = do {
     b \<leftarrow> peek lp skip;
     if b = LP_EOF then None
     else do {
       keep_start \<leftarrow> lpSkip lp skip;
       let keep_end = (case ps of [] \<Rightarrow> lp_end | q # _ \<Rightarrow> q);
       if ps \<noteq> [] \<and> keep_start = keep_end then lpBatchDelete_loop lp_end lp dst ps
       else if \<not> keep_end > keep_start then None
       else do {
         let bytes_to_keep = keep_end - keep_start;
         lp \<leftarrow> memmove lp dst keep_start bytes_to_keep;
         lpBatchDelete_loop lp_end lp (dst + bytes_to_keep) ps
       }
     }
   }"

definition lpBatchDelete :: "(nat \<Rightarrow> byte) \<Rightarrow> byte list \<Rightarrow> nat list \<Rightarrow> byte list option" where
  "lpBatchDelete junk lp ps =
     (case ps of
        [] \<Rightarrow> Some lp
      | dst # _ \<Rightarrow> do {
          total_bytes \<leftarrow> lpGetTotalBytes lp;
          if total_bytes = 0 then None
          else do {
            b \<leftarrow> peek lp (total_bytes - 1);
            if b \<noteq> LP_EOF then None
            else do {
              (lp, dst) \<leftarrow> lpBatchDelete_loop total_bytes lp dst ps;
              let deleted_bytes = int total_bytes - int dst;
              let total_bytes = nat (int total_bytes - deleted_bytes);
              b \<leftarrow> (if total_bytes = 0 then None else peek lp (total_bytes - 1));
              if b \<noteq> LP_EOF then None
              else do {
                lp \<leftarrow> lpSetTotalBytes lp total_bytes;
                numele \<leftarrow> lpGetNumElements lp;
                lp \<leftarrow> (if numele \<noteq> LP_HDR_NUMELE_UNKNOWN
                      then lpSetNumElements lp (nat ((int numele - int (length ps)) mod 2 ^ 64)) else Some lp);
                lpShrinkToFit junk lp
              }
            }
          }
        })"

text \<open>An entry of a batch: the string, or \<open>None\<close> for the integer.\<close>

record listpackEntry =
  sval :: "byte list option"
  lval :: int

definition lpBatch_encode :: "listpackEntry \<Rightarrow> byte list \<times> nat \<times> byte list" where
  "lpBatch_encode ent =
     (let (bytes, enclen) = (case sval ent of
         Some s \<Rightarrow> (case lpEncodeGetType s of (ENC_INT e, n) \<Rightarrow> (e, n) | (ENC_STRING, n) \<Rightarrow> (lpEncodeString s, n))
       | None \<Rightarrow> (lpEncodeIntegerGetType (lval ent), length (lpEncodeIntegerGetType (lval ent))))
      in (bytes, enclen, lpEncodeBacklen enclen))"

fun lpBatch_write :: "byte list \<Rightarrow> nat \<Rightarrow> nat option \<Rightarrow> (byte list \<times> nat \<times> byte list) list \<Rightarrow> (byte list \<times> nat option) option" where
  "lpBatch_write lp dst newp [] = Some (lp, newp)"
| "lpBatch_write lp dst newp ((bytes, enclen, backlen) # enc) = do {
     lp \<leftarrow> put_bytes lp dst bytes;
     lp \<leftarrow> put_bytes lp (dst + enclen) backlen;
     lpBatch_write lp (dst + enclen + length backlen) (Some dst) enc
   }"

definition lpBatchInsert ::
  "(nat \<Rightarrow> byte) \<Rightarrow> byte list \<Rightarrow> nat \<Rightarrow> lp_where \<Rightarrow> listpackEntry list \<Rightarrow> (byte list \<times> nat option) option option" where
  "lpBatchInsert junk lp p place entries =
     (if place = LP_REPLACE \<or> entries = [] then None
      else do {
        old_listpack_bytes \<leftarrow> lpGetTotalBytes lp;
        poff \<leftarrow> (if place = LP_AFTER
               then do {
                 p \<leftarrow> lpSkip lp p;
                 if p \<ge> LP_HDR_SIZE \<and> p < old_listpack_bytes then Some p else None
               }
               else Some p);
        let enc = map lpBatch_encode entries;
        let addedlen = sum_list (map (\<lambda>(bytes, enclen, backlen). enclen + length backlen) enc);
        let new_listpack_bytes = old_listpack_bytes + addedlen;
        if new_listpack_bytes > 2 ^ 32 - 1 then Some None
        else do {
          let lp = (if new_listpack_bytes > old_listpack_bytes \<and> new_listpack_bytes > length lp
                    then realloc junk lp new_listpack_bytes else lp);
          lp \<leftarrow> memmove lp (poff + addedlen) poff (old_listpack_bytes - poff);
          (lp, newp) \<leftarrow> lpBatch_write lp poff None enc;
          num_elements \<leftarrow> lpGetNumElements lp;
          lp \<leftarrow> (if num_elements \<noteq> LP_HDR_NUMELE_UNKNOWN
                then lpSetNumElements lp
                  (if int (length entries) > int LP_HDR_NUMELE_UNKNOWN - int num_elements
                   then LP_HDR_NUMELE_UNKNOWN else num_elements + length entries)
                else Some lp);
          lp \<leftarrow> lpSetTotalBytes lp new_listpack_bytes;
          Some (Some (lp, newp))
        }
      })"

definition lpBatchAppend ::
  "(nat \<Rightarrow> byte) \<Rightarrow> byte list \<Rightarrow> listpackEntry list \<Rightarrow> (byte list \<times> nat option) option option" where
  "lpBatchAppend junk lp entries = do {
     n \<leftarrow> lpGetTotalBytes lp;
     if n = 0 then None else lpBatchInsert junk lp (n - 1) LP_BEFORE entries
   }"

text \<open>\<open>lpMerge\<close>.  The pointers may be \<open>NULL\<close>, and \<open>same\<close> says whether they are equal.  The inner option is the
  \<open>NULL\<close> result; otherwise the result holds the merged block and what \<open>*first\<close> and \<open>*second\<close> become.\<close>

definition lpMerge ::
  "(nat \<Rightarrow> byte) \<Rightarrow> bool \<Rightarrow> byte list option \<Rightarrow> byte list option \<Rightarrow>
     (byte list \<times> byte list option \<times> byte list option) option option" where
  "lpMerge junk same first second =
     (case (first, second) of
        (Some first, Some second) \<Rightarrow>
          if same then Some None
          else do {
            first_bytes \<leftarrow> lpBytes first;
            (first_len, first) \<leftarrow> lpLength first;
            second_bytes \<leftarrow> lpBytes second;
            (second_len, second) \<leftarrow> lpLength second;
            let lpbytes = first_bytes + second_bytes - LP_HDR_SIZE - 1;
            if first_bytes + second_bytes < LP_HDR_SIZE + 1 \<or> \<not> lpbytes < 2 ^ 32 - 1 then None
            else do {
              let lplength = (if first_len + second_len < 65535 then first_len + second_len else 65535);
              target \<leftarrow>
                (if first_bytes \<ge> second_bytes
                 then do {
                   let target = realloc junk first lpbytes;
                   bs \<leftarrow> get_bytes second LP_HDR_SIZE (second_bytes - LP_HDR_SIZE);
                   put_bytes target (first_bytes - 1) bs
                 }
                 else do {
                   let target = realloc junk second lpbytes;
                   target \<leftarrow> memmove target (first_bytes - 1) LP_HDR_SIZE (second_bytes - LP_HDR_SIZE);
                   bs \<leftarrow> get_bytes first 0 (first_bytes - 1);
                   put_bytes target 0 bs
                 });
              target \<leftarrow> lpSetNumElements target lplength;
              target \<leftarrow> lpSetTotalBytes target lpbytes;
              Some (Some (target,
                if first_bytes \<ge> second_bytes then (Some target, None) else (None, Some target)))
            }
          }
      | _ \<Rightarrow> Some None)"

definition lpDup :: "byte list \<Rightarrow> byte list option" where
  "lpDup lp = do { lpbytes \<leftarrow> lpBytes lp; get_bytes lp 0 lpbytes }"

definition lpEntrySizeInteger :: "int \<Rightarrow> nat" where
  "lpEntrySizeInteger v =
     (let enclen = length (lpEncodeIntegerGetType v) in enclen + lpEncodeBacklenBytes enclen)"

definition lpEstimateBytesRepeatedInteger :: "int \<Rightarrow> nat \<Rightarrow> nat" where
  "lpEstimateBytesRepeatedInteger v rep = LP_HDR_SIZE + lpEntrySizeInteger v * rep + 1"

definition lpGetValue :: "byte list \<Rightarrow> nat \<Rightarrow> lp_value option" where
  "lpGetValue lp p = lpGetWithBuf lp p"

definition lpGetIntegerValue :: "byte list \<Rightarrow> nat \<Rightarrow> int option option" where
  "lpGetIntegerValue lp p = do {
     v \<leftarrow> lpGetWithBuf lp p;
     Some (case v of LP_INT i \<Rightarrow> Some i | LP_STR _ _ \<Rightarrow> None)
   }"

text \<open>The comparison callback gets the position and the value, and may update its argument; it answers whether the
  entry is equal.\<close>

type_synonym 'u lp_cmp = "nat \<Rightarrow> lp_value \<Rightarrow> 'u \<Rightarrow> (bool \<times> 'u) option"

definition lpFind_check :: "byte list \<Rightarrow> nat \<Rightarrow> nat \<Rightarrow> unit option" where
  "lpFind_check lp lp_bytes p =
     (if p + 8 \<ge> lp_bytes then lpAssertValidEntry lp lp_bytes p
      else if p \<ge> LP_HDR_SIZE \<and> p < lp_bytes then Some () else None)"

text \<open>\<open>entry_size\<close> keeps its previous value when \<open>lpGetWithSize\<close> does not set it.\<close>

partial_function (option) lpFindCb_loop ::
  "byte list \<Rightarrow> nat \<Rightarrow> 'u lp_cmp \<Rightarrow> nat \<Rightarrow> 'u \<Rightarrow> nat \<Rightarrow> nat \<Rightarrow> nat \<Rightarrow> nat option option" where
  "lpFindCb_loop lp lp_bytes cmp skip user skipcnt entry_size p =
     (if skipcnt = 0
      then do {
        (v, sz) \<leftarrow> lpGetWithSize lp p;
        let entry_size = (case sz of Some n \<Rightarrow> n | None \<Rightarrow> entry_size);
        if (case v of LP_STR _ _ \<Rightarrow> \<not> (p \<ge> LP_HDR_SIZE \<and> p + entry_size < lp_bytes) | LP_INT _ \<Rightarrow> False) then None
        else do {
          (eq, user) \<leftarrow> cmp p v user;
          if eq then Some (Some p)
          else do {
            let p = p + entry_size;
            _ \<leftarrow> lpFind_check lp lp_bytes p;
            b \<leftarrow> peek lp p;
            if b = LP_EOF then Some None else lpFindCb_loop lp lp_bytes cmp skip user skip entry_size p
          }
        }
      }
      else do {
        p \<leftarrow> lpSkip lp p;
        _ \<leftarrow> lpFind_check lp lp_bytes p;
        b \<leftarrow> peek lp p;
        if b = LP_EOF then Some None else lpFindCb_loop lp lp_bytes cmp skip user (skipcnt - 1) entry_size p
      })"

definition lpFindCb :: "byte list \<Rightarrow> nat option \<Rightarrow> 'u \<Rightarrow> 'u lp_cmp \<Rightarrow> nat \<Rightarrow> nat option option" where
  "lpFindCb lp p user cmp skip = do {
     lp_bytes \<leftarrow> lpBytes lp;
     p \<leftarrow> (case p of None \<Rightarrow> lpFirst lp | Some p \<Rightarrow> Some (Some p));
     case p of None \<Rightarrow> Some None | Some p \<Rightarrow> lpFindCb_loop lp lp_bytes cmp skip user 0 123456789 p
   }"

text \<open>The argument of the search for a string: whether it was tried as an integer, and the result.\<close>

datatype vencoding = VENC_UNKNOWN | VENC_STRING | VENC_INT int

definition lpFindCmp :: "byte list \<Rightarrow> byte list \<Rightarrow> vencoding lp_cmp" where
  "lpFindCmp lp s p v venc =
     (case v of
        LP_STR ofs n \<Rightarrow>
          if n = length s
          then do { bs \<leftarrow> get_bytes lp ofs n; Some (s = bs, venc) }
          else Some (False, venc)
      | LP_INT i \<Rightarrow>
          let venc = (case venc of
                VENC_UNKNOWN \<Rightarrow>
                  if length s \<ge> 32 \<or> length s = 0 then VENC_STRING
                  else (case lpStringToInt64 s of None \<Rightarrow> VENC_STRING | Some w \<Rightarrow> VENC_INT w)
              | _ \<Rightarrow> venc)
          in Some (venc = VENC_INT i, venc))"

definition lpFind :: "byte list \<Rightarrow> nat option \<Rightarrow> byte list \<Rightarrow> nat \<Rightarrow> nat option option" where
  "lpFind lp p s skip = lpFindCb lp p VENC_UNKNOWN (lpFindCmp lp s) skip"

definition lpCompare :: "byte list \<Rightarrow> nat \<Rightarrow> byte list \<Rightarrow> vencoding option \<Rightarrow> (bool \<times> vencoding option) option" where
  "lpCompare lp p s cached = do {
     b \<leftarrow> peek lp p;
     if b = LP_EOF then Some (False, cached)
     else do {
       v \<leftarrow> lpGetWithBuf lp p;
       case v of
         LP_STR ofs n \<Rightarrow>
           if length s = n then do { bs \<leftarrow> get_bytes lp ofs n; Some (bs = s, cached) } else Some (False, cached)
       | LP_INT i \<Rightarrow>
           (case cached of
              Some c \<Rightarrow>
                let c = (case c of
                      VENC_UNKNOWN \<Rightarrow> (case lpStringToInt64 s of Some w \<Rightarrow> VENC_INT w | None \<Rightarrow> VENC_STRING)
                    | _ \<Rightarrow> c)
                in Some (c = VENC_INT i, Some c)
            | None \<Rightarrow> Some (lpStringToInt64 s = Some i, None))
     }
   }"

definition lpValidateFirst :: "byte list \<Rightarrow> nat option option" where
  "lpValidateFirst lp = do {
     b \<leftarrow> peek lp LP_HDR_SIZE;
     Some (if b = LP_EOF then None else Some LP_HDR_SIZE)
   }"

text \<open>The scan of \<open>lpValidateIntegrity\<close>; each round advances, so the fuel is the size of the block.  The inner result
  is \<open>None\<close> for a listpack that is rejected.\<close>

fun lpValidate_loop ::
  "nat \<Rightarrow> byte list \<Rightarrow> nat \<Rightarrow> (nat \<Rightarrow> nat \<Rightarrow> bool) option \<Rightarrow> nat \<Rightarrow> nat option \<Rightarrow> nat \<Rightarrow> (nat option \<times> nat) option option" where
  "lpValidate_loop fuel lp lpbytes cb numele None count = Some (Some (None, count))"
| "lpValidate_loop fuel lp lpbytes cb numele (Some p) count = do {
     b \<leftarrow> peek lp p;
     if b = LP_EOF then Some (Some (Some p, count))
     else (case fuel of
         0 \<Rightarrow> None
       | Suc fuel \<Rightarrow> do {
           (ok, q) \<leftarrow> lpValidateNext lp (Some p) lpbytes;
           if \<not> ok then Some None
           else if (case cb of None \<Rightarrow> False | Some f \<Rightarrow> \<not> f p numele) then Some None
           else lpValidate_loop fuel lp lpbytes cb numele q (count + 1)
         })
   }"

definition lpValidateIntegrity :: "byte list \<Rightarrow> nat \<Rightarrow> bool \<Rightarrow> (nat \<Rightarrow> nat \<Rightarrow> bool) option \<Rightarrow> bool option" where
  "lpValidateIntegrity lp sz deep cb =
     (if sz < LP_HDR_SIZE + 1 then Some False
      else do {
        lpbytes \<leftarrow> lpGetTotalBytes lp;
        if lpbytes \<noteq> sz then Some False
        else do {
          b \<leftarrow> peek lp (sz - 1);
          if b \<noteq> LP_EOF then Some False
          else if \<not> deep then Some True
          else do {
            numele \<leftarrow> lpGetNumElements lp;
            r \<leftarrow> lpValidate_loop sz lp lpbytes cb numele (Some LP_HDR_SIZE) 0;
            case r of
              None \<Rightarrow> Some False
            | Some (p, count) \<Rightarrow>
                Some (p = Some (sz - 1) \<and> (numele = LP_HDR_NUMELE_UNKNOWN \<or> numele = count))
          }
        }
      })"

section \<open>Seeking\<close>

lemma seek_forward_rep:
  "lp_rep lp (xs @ ys) \<Longrightarrow>
   lpSeek_forward lp n (at xs ys) = Some (if n < length ys then Some (off (xs @ take n ys)) else None)"
proof (induction n arbitrary: xs ys)
  case 0
  then show ?case by (simp add: at_def)
next
  case (Suc n)
  show ?case
  proof (cases ys)
    case Nil
    then show ?thesis by (simp add: at_def)
  next
    case (Cons e zs)
    then show ?thesis
      using Suc.IH [of "xs @ [e]" zs] Suc.prems lpNext_rep [of lp xs e zs] by (simp add: at_def)
  qed
qed

lemma seek_backward_none: "lpSeek_backward lp n None = Some None"
  by (cases n) simp_all

lemma seek_backward_rep:
  "lp_rep lp (xs @ e # ys) \<Longrightarrow>
   lpSeek_backward lp n (Some (off xs)) = Some (if n \<le> length xs then Some (off (take (length xs - n) xs)) else None)"
proof (induction n arbitrary: xs e ys)
  case (Suc n)
  show ?case
  proof (cases xs rule: rev_cases)
    case Nil
    then show ?thesis by (simp add: lpPrev_first seek_backward_none)
  next
    case (snoc zs f)
    then show ?thesis
      using Suc.IH [of zs f "e # ys"] Suc.prems lpPrev_rep [of lp zs f "e # ys"]
      by (simp add: Suc_diff_le)
  qed
qed simp

text \<open>The pointer to the element with the given index, where negative indexes count from the end.\<close>

definition norm_index :: "nat \<Rightarrow> int \<Rightarrow> int" where
  "norm_index n i = (if i < 0 then int n + i else i)"

definition nth_ptr :: "byte list list \<Rightarrow> int \<Rightarrow> nat option" where
  "nth_ptr es i = (let i = norm_index (length es) i in
     if 0 \<le> i \<and> i < int (length es) then Some (off (take (nat i) es)) else None)"

lemma scan_forward_rep:
  assumes "lp_rep lp es" "0 \<le> i"
  shows "lpSeek_scan lp True i = Some (if i < int (length es) then Some (off (take (nat i) es)) else None)"
  using seek_forward_rep [of lp "[]" es "nat i"] assms lpFirst_rep [OF assms(1)]
  by (auto simp: lpSeek_scan_def)

lemma scan_backward_rep:
  assumes "lp_rep lp es" "i < 0"
  shows "lpSeek_scan lp False i = Some (if 0 \<le> int (length es) + i then Some (off (take (nat (int (length es) + i)) es)) else None)"
proof (cases es rule: rev_cases)
  case Nil
  then show ?thesis using assms lpLast_rep [OF assms(1)] by (simp add: lpSeek_scan_def seek_backward_none)
next
  case (snoc xs e)
  have idx: "nat (- 1 - i) \<le> length xs \<longleftrightarrow> 0 \<le> int (length es) + i" "length xs - nat (- 1 - i) = nat (int (length es) + i)"
    using assms(2) snoc by auto
  have "nat (int (length es) + i) \<le> length xs" using assms(2) snoc by auto
  then have "take (nat (int (length es) + i)) es = take (nat (int (length es) + i)) xs" using snoc by simp
  then show ?thesis
    using seek_backward_rep [of lp xs e "[]" "nat (- 1 - i)"] assms(1) lpLast_rep [OF assms(1)] snoc idx
    by (simp add: lpSeek_scan_def)
qed

lemma lpSeek_rep:
  assumes "lp_rep lp es"
  shows "lpSeek lp i = Some (nth_ptr es i)"
proof -
  obtain num where num: "lpGetNumElements lp = Some num" "num = length es \<or> num = LP_HDR_NUMELE_UNKNOWN"
    using rep_num [OF assms] by metis
  show ?thesis
  proof (cases "num = LP_HDR_NUMELE_UNKNOWN")
    case True
    then show ?thesis
      using num(1) scan_forward_rep [OF assms, of i] scan_backward_rep [OF assms, of i]
      by (simp add: lpSeek_def nth_ptr_def norm_index_def Let_def)
  next
    case False
    then have n: "num = length es" using num(2) by simp
    define j where "j = norm_index num i"
    have "lpSeek lp i = (if j < 0 \<or> j \<ge> int num then Some None
        else if j > int num div 2 then lpSeek_scan lp False (j - int num) else lpSeek_scan lp True j)"
      using False num(1) by (simp add: lpSeek_def j_def norm_index_def Let_def)
    then show ?thesis
      using scan_forward_rep [OF assms, of j] scan_backward_rep [OF assms, of "j - int num"] n
      by (auto simp: nth_ptr_def Let_def j_def)
  qed
qed

section \<open>Ranges\<close>

lemma range_tail_rep:
  "lp_rep lp (xs @ ys) \<Longrightarrow> num = 0 \<or> ys \<noteq> [] \<Longrightarrow>
   lpDeleteRange_tail lp (off (xs @ ys) + 1) num d (off xs) = Some (off (xs @ take num ys), d + min num (length ys))"
proof (induction num arbitrary: xs ys d)
  case (Suc n)
  then obtain e zs where ys: "ys = e # zs" by (cases ys) auto
  have skip: "lpSkip lp (off xs) = Some (off (xs @ [e]))" using rep_skip Suc.prems(1) ys by simp
  show ?case
  proof (cases zs)
    case Nil
    then show ?thesis using Suc.prems(1) skip rep_eof [OF Suc.prems(1)] ys by simp
  next
    case (Cons f us)
    have rep: "lp_rep lp ((xs @ [e]) @ f # us)" using Suc.prems(1) ys Cons by simp
    show ?thesis
      using Suc.IH [of "xs @ [e]" zs "d + 1"] Suc.prems(1) skip rep_peek [OF rep] rep_assert [OF rep] ys Cons
      by simp
  qed
qed simp

lemma sub_count: "n \<le> m \<Longrightarrow> m \<le> LP_HDR_NUMELE_UNKNOWN \<Longrightarrow> nat ((int m - int n) mod 2 ^ 64) = m - n"
  by (simp add: LP_HDR_NUMELE_UNKNOWN_def of_nat_diff [symmetric] del: of_nat_diff)

text \<open>What is left after the elements \<open>ds\<close> are cut out and the header is updated.\<close>

lemma cut_rep:
  assumes rep: "lp_rep lp (xs @ ds @ ys)"
  shows "\<exists>lp'. do {
      lp \<leftarrow> memmove lp (off xs) (off (xs @ ds)) (length (body ys) + 1);
      lp \<leftarrow> lpSetTotalBytes lp (off (xs @ ys) + 1);
      numele \<leftarrow> lpGetNumElements lp;
      lp \<leftarrow> (if numele \<noteq> LP_HDR_NUMELE_UNKNOWN
            then lpSetNumElements lp (nat ((int numele - int (length ds)) mod 2 ^ 64)) else Some lp);
      lpShrinkToFit junk lp
    } = Some lp' \<and> lp_rep lp' (xs @ ys)"
proof -
  obtain num spare where lp: "lp = header (off (xs @ ds @ ys) + 1) num @ body xs @ body ds @ body ys @ LP_EOF # spare"
    and num: "num = length (xs @ ds @ ys) \<or> num = LP_HDR_NUMELE_UNKNOWN" "num \<le> LP_HDR_NUMELE_UNKNOWN"
    and valid: "\<forall>e \<in> set (xs @ ds @ ys). valid_enc e" and small: "off (xs @ ds @ ys) + 1 < 2 ^ 32"
    using rep by (rule lp_rep_split) simp
  define P where "P = header (off (xs @ ds @ ys) + 1) num @ body xs"
  define num' where "num' = (if num = LP_HDR_NUMELE_UNKNOWN then num else num - length ds)"
  have P: "length P = off xs" by (simp add: P_def off_def)
  have lp': "lp = P @ body ds @ (body ys @ [LP_EOF]) @ spare" by (simp add: lp P_def)
  have "length P + 0 + length (body ys @ [LP_EOF]) \<le> length (P @ body ds @ (body ys @ [LP_EOF]) @ spare)" by simp
  then obtain M spare' where "memmove lp (length P + 0) (length P + length (body ds)) (length (body ys @ [LP_EOF]))
      = Some (P @ M @ (body ys @ [LP_EOF]) @ spare')" "length M = 0"
    unfolding lp' by (rule memmove_tail)
  then have move: "memmove lp (off xs) (off (xs @ ds)) (length (body ys) + 1)
      = Some (header (off (xs @ ds @ ys) + 1) num @ body (xs @ ys) @ LP_EOF # spare')"
    unfolding P by (simp add: P_def off_append)
  have num_set: "num \<noteq> LP_HDR_NUMELE_UNKNOWN \<Longrightarrow> nat ((int num - int (length ds)) mod 2 ^ 64) = num'"
    using num sub_count [of "length ds" num] by (auto simp: num'_def)
  have "lp_rep (header (off (xs @ ys) + 1) num' @ body (xs @ ys) @ LP_EOF # spare') (xs @ ys)"
    by (rule lp_repI [of _ _ num' spare']) (use num valid small in \<open>auto simp: num'_def off_append\<close>)
  then obtain lp' where "lpShrinkToFit junk (header (off (xs @ ys) + 1) num' @ body (xs @ ys) @ LP_EOF # spare') = Some lp'"
    "lp_rep lp' (xs @ ys)"
    by (rule lpShrinkToFit_rep)
  then show ?thesis
    unfolding move bind.bind_lunit header_set_total header_body_num [OF num(2)]
    using num_set by (cases "num = LP_HDR_NUMELE_UNKNOWN") (simp_all add: header_set_num num'_def)
qed

lemma lpDeleteRangeWithEntry_rep:
  assumes rep: "lp_rep lp (xs @ ys)" and ne: "ys \<noteq> []"
  shows "\<exists>lp'. lpDeleteRangeWithEntry junk lp (off xs) num = Some (lp', at xs (drop num ys)) \<and> lp_rep lp' (xs @ drop num ys)"
proof (cases "num = 0")
  case True
  then show ?thesis using assms by (simp add: lpDeleteRangeWithEntry_def at_def)
next
  case False
  define ds where "ds = take num ys"
  define zs where "zs = drop num ys"
  have ys: "ys = ds @ zs" by (simp add: ds_def zs_def)
  have tail: "lpDeleteRange_tail lp (off (xs @ ys) + 1) num 0 (off xs) = Some (off (xs @ ds), length ds)"
    using range_tail_rep [OF rep, of num 0] ne by (simp add: ds_def min.commute)
  have lens: "off (xs @ ds) < off (xs @ ys) + 1" "off (xs @ ys) + 1 - off (xs @ ds) = length (body zs) + 1"
    "off (xs @ ys) + 1 - (off (xs @ ds) - off xs) = off (xs @ zs) + 1"
    by (simp_all add: ys off_append)
  obtain lp' where cut: "do {
      lp \<leftarrow> memmove lp (off xs) (off (xs @ ds)) (length (body zs) + 1);
      lp \<leftarrow> lpSetTotalBytes lp (off (xs @ zs) + 1);
      numele \<leftarrow> lpGetNumElements lp;
      lp \<leftarrow> (if numele \<noteq> LP_HDR_NUMELE_UNKNOWN
            then lpSetNumElements lp (nat ((int numele - int (length ds)) mod 2 ^ 64)) else Some lp);
      lpShrinkToFit junk lp
    } = Some lp'" and rep': "lp_rep lp' (xs @ zs)"
    using cut_rep [of lp xs ds zs junk] rep ys by auto
  have "\<exists>b. peek lp' (off xs) = Some b \<and> (b = LP_EOF \<longleftrightarrow> zs = [])"
    using rep' rep_eof [of lp' xs] rep_peek [of lp' xs] by (cases zs) auto
  then obtain b where b: "peek lp' (off xs) = Some b" "b = LP_EOF \<longleftrightarrow> zs = []" by blast
  have "lpDeleteRangeWithEntry junk lp (off xs) num =
      do { lp \<leftarrow> Some lp'; b \<leftarrow> peek lp (off xs); Some (lp, if b = LP_EOF then None else Some (off xs)) }"
    unfolding cut [symmetric] lpDeleteRangeWithEntry_def lpBytes_def rep_total [OF rep] bind.bind_lunit tail
      prod.case if_P [OF lens(1)] lens(2,3) if_not_P [OF False] Option.bind_assoc ..
  then have "lpDeleteRangeWithEntry junk lp (off xs) num = Some (lp', at xs zs)" using b by (simp add: at_def)
  then show ?thesis using rep' by (simp add: zs_def)
qed

lemma truncate_rep:
  assumes rep: "lp_rep lp (xs @ ys)" and n: "length xs < LP_HDR_NUMELE_UNKNOWN"
  shows "\<exists>lp'. do {
      lp \<leftarrow> put_bytes lp (off xs) [LP_EOF];
      lp \<leftarrow> lpSetTotalBytes lp (off xs + 1);
      lp \<leftarrow> lpSetNumElements lp (length xs);
      lpShrinkToFit junk lp
    } = Some lp' \<and> lp_rep lp' xs"
proof -
  obtain num spare where lp: "lp = (header (off (xs @ ys) + 1) num @ body xs) @ body ys @ LP_EOF # spare"
    and valid: "\<forall>e \<in> set (xs @ ys). valid_enc e" and small: "off (xs @ ys) + 1 < 2 ^ 32"
    using rep by (rule lp_rep_split) simp
  define spare' where "spare' = tl (body ys @ LP_EOF # spare)"
  have put: "put_bytes lp (off xs) [LP_EOF] = Some (header (off (xs @ ys) + 1) num @ body xs @ LP_EOF # spare')"
    unfolding lp by (cases "body ys") (simp_all add: put_bytes_def off_def spare'_def)
  have "lp_rep (header (off xs + 1) (length xs) @ body xs @ LP_EOF # spare') xs"
    by (rule lp_repI [of _ _ "length xs" spare']) (use valid small n in \<open>auto simp: off_append\<close>)
  then obtain lp' where "lpShrinkToFit junk (header (off xs + 1) (length xs) @ body xs @ LP_EOF # spare') = Some lp'"
    "lp_rep lp' xs"
    by (rule lpShrinkToFit_rep)
  then show ?thesis
    unfolding put bind.bind_lunit header_set_total header_set_num by blast
qed

definition cut_range :: "'a list \<Rightarrow> int \<Rightarrow> nat \<Rightarrow> 'a list" where
  "cut_range es i num = (let i = norm_index (length es) i in
     if 0 \<le> i \<and> i < int (length es) then take (nat i) es @ drop (nat i + num) es else es)"

lemma lpDeleteRange_rep:
  assumes rep: "lp_rep lp es" and num: "num < 2 ^ 64"
  shows "\<exists>lp'. lpDeleteRange junk lp i num = Some lp' \<and> lp_rep lp' (cut_range es i num)"
proof -
  obtain n where n: "lpGetNumElements lp = Some n" "n = length es \<or> n = LP_HDR_NUMELE_UNKNOWN" "n \<le> LP_HDR_NUMELE_UNKNOWN"
    using rep by (rule rep_num)
  define j where "j = norm_index (length es) i"
  show ?thesis
  proof (cases "num = 0 \<or> \<not> (0 \<le> j \<and> j < int (length es))")
    case True
    then have "lpDeleteRange junk lp i num = Some lp"
      using n(1) lpSeek_rep [OF rep, of i] by (auto simp: lpDeleteRange_def nth_ptr_def Let_def j_def)
    moreover have "cut_range es i num = es" using True by (auto simp: cut_range_def Let_def j_def)
    ultimately show ?thesis using rep by simp
  next
    case False
    define xs where "xs = take (nat j) es"
    define ys where "ys = drop (nat j) es"
    have es: "es = xs @ ys" by (simp add: xs_def ys_def)
    have ys: "ys \<noteq> []" "length xs = nat j" using False by (auto simp: xs_def ys_def)
    have cut: "cut_range es i num = xs @ drop num ys"
      using False by (simp add: cut_range_def Let_def j_def xs_def ys_def add.commute)
    have seek: "lpSeek lp i = Some (Some (off xs))"
      using lpSeek_rep [OF rep, of i] False by (simp add: nth_ptr_def Let_def j_def xs_def)
    show ?thesis
    proof (cases "n \<noteq> LP_HDR_NUMELE_UNKNOWN \<and> length ys \<le> num")
      case True
      then have nes: "n = length es" using n(2) by simp
      have idx: "(if n \<noteq> LP_HDR_NUMELE_UNKNOWN \<and> i < 0 then int n + i else i) = j" "nat j = length xs"
        using True nes ys(2) by (auto simp: j_def norm_index_def)
      have "(int n - j) mod 2 ^ 64 = int (length ys)"
        using False n(3) nes es ys(2) by (simp add: LP_HDR_NUMELE_UNKNOWN_def)
      then have le: "n \<noteq> LP_HDR_NUMELE_UNKNOWN \<and> (int n - j) mod 2 ^ 64 \<le> int num" using True by simp
      have "length xs < LP_HDR_NUMELE_UNKNOWN" using n(3) nes es ys(1) by (cases ys) auto
      then obtain lp' where "do {
          lp \<leftarrow> put_bytes lp (off xs) [LP_EOF];
          lp \<leftarrow> lpSetTotalBytes lp (off xs + 1);
          lp \<leftarrow> lpSetNumElements lp (length xs);
          lpShrinkToFit junk lp
        } = Some lp'" "lp_rep lp' xs"
        using truncate_rep [of lp xs ys junk] rep es by auto
      moreover have "drop num ys = []" using True by simp
      ultimately show ?thesis
        using False unfolding cut lpDeleteRange_def n(1) seek bind.bind_lunit option.case Let_def idx if_P [OF le]
        by simp
    next
      case notall: False
      obtain lp' where del: "lpDeleteRangeWithEntry junk lp (off xs) num = Some (lp', at xs (drop num ys))"
        "lp_rep lp' (xs @ drop num ys)"
        using lpDeleteRangeWithEntry_rep [of lp xs ys junk num] rep es ys(1) by auto
      define k where "k = (if n \<noteq> LP_HDR_NUMELE_UNKNOWN \<and> i < 0 then int n + i else i)"
      have nle: "\<not> (n \<noteq> LP_HDR_NUMELE_UNKNOWN \<and> (int n - k) mod 2 ^ 64 \<le> int num)"
      proof
        assume *: "n \<noteq> LP_HDR_NUMELE_UNKNOWN \<and> (int n - k) mod 2 ^ 64 \<le> int num"
        then have "n = length es" "k = j" using n(2) by (auto simp: k_def j_def norm_index_def)
        then have "(int n - k) mod 2 ^ 64 = int (length ys)"
          using False n(3) es ys(2) by (simp add: LP_HDR_NUMELE_UNKNOWN_def)
        then show False using * notall by simp
      qed
      show ?thesis
        using False del
        unfolding cut lpDeleteRange_def n(1) seek bind.bind_lunit option.case Let_def k_def [symmetric] if_not_P [OF nle]
        by simp
    qed
  qed
qed

section \<open>Merging and copying\<close>

lemma lp_rep_whole:
  assumes "lp_rep lp es"
  obtains num spare where "lp = header (off es + 1) num @ body es @ LP_EOF # spare"
    "num = length es \<or> num = LP_HDR_NUMELE_UNKNOWN" "num \<le> LP_HDR_NUMELE_UNKNOWN"
    "\<forall>e \<in> set es. valid_enc e" "off es + 1 < 2 ^ 32"
  using assms unfolding lp_rep_def off_def by blast

lemma realloc_prefix:
  assumes "length A \<le> n"
  obtains X where "realloc junk (A @ r) n = A @ X" "length A + length X = n"
  using assms by (intro that [of "take (n - length A) r @ map junk [length (A @ r)..<n]"]) (auto simp: realloc_def)

lemma merge_append:
  assumes first: "first = header t num @ body es @ LP_EOF # spare" and second: "second = header t' num' @ body fs @ LP_EOF # spare'"
    and n: "n = off (es @ fs) + 1"
  shows "do {
      bs \<leftarrow> get_bytes second LP_HDR_SIZE (off fs + 1 - LP_HDR_SIZE);
      put_bytes (realloc junk first n) (off es + 1 - 1) bs
    } = Some (header t num @ body (es @ fs) @ [LP_EOF])"
proof -
  have "length (header t num @ body es) \<le> n" by (simp add: n off_def)
  then obtain X where X: "realloc junk ((header t num @ body es) @ LP_EOF # spare) n = (header t num @ body es) @ X"
    "length (header t num @ body es) + length X = n"
    by (rule realloc_prefix)
  then have "put_bytes (realloc junk first n) (off es) (body fs @ [LP_EOF]) = Some (header t num @ body (es @ fs) @ [LP_EOF])"
    using first n by (simp add: put_bytes_def off_def)
  moreover have "get_bytes second LP_HDR_SIZE (off fs + 1 - LP_HDR_SIZE) = Some (body fs @ [LP_EOF])"
    by (simp add: second get_bytes_def off_def)
  ultimately show ?thesis by simp
qed

lemma merge_prepend:
  assumes first: "first = header t num @ body es @ LP_EOF # spare" and second: "second = header t' num' @ body fs @ LP_EOF # spare'"
    and n: "n = off (es @ fs) + 1"
  shows "do {
      target \<leftarrow> memmove (realloc junk second n) (off es + 1 - 1) LP_HDR_SIZE (off fs + 1 - LP_HDR_SIZE);
      bs \<leftarrow> get_bytes first 0 (off es + 1 - 1);
      put_bytes target 0 bs
    } = Some (header t num @ body (es @ fs) @ [LP_EOF])"
proof -
  define A where "A = header t' num' @ body fs @ [LP_EOF]"
  have A: "second = A @ spare'" "length A = off fs + 1" by (simp_all add: second A_def off_def)
  have "length A \<le> n" by (simp add: A n off_def)
  then obtain X where X: "realloc junk (A @ spare') n = A @ X" "length A + length X = n"
    by (rule realloc_prefix)
  have len: "length (A @ X) = off es + length (body fs) + 1" using X(2) by (simp add: n off_append)
  have "get_bytes (A @ X) LP_HDR_SIZE (length (body fs) + 1) = Some (body fs @ [LP_EOF])"
    by (simp add: A_def get_bytes_def)
  then have "memmove (A @ X) (off es) LP_HDR_SIZE (length (body fs) + 1) = Some (take (off es) (A @ X) @ body fs @ [LP_EOF])"
    using len by (simp add: memmove_def put_bytes_def del: take_append)
  moreover have "get_bytes first 0 (off es) = Some (header t num @ body es)"
    by (simp add: first get_bytes_def off_def)
  moreover have "length (take (off es) (A @ X)) = off es" using len by simp
  ultimately show ?thesis
    using X(1) A(1) by (simp add: put_bytes_def off_def del: take_append)
qed

lemma lpMerge_rep:
  assumes r1: "lp_rep first es" and r2: "lp_rep second fs" and small: "off (es @ fs) + 1 < 2 ^ 32 - 1"
  shows "\<exists>lp. lpMerge junk False (Some first) (Some second) =
      Some (Some (lp, if off es \<ge> off fs then (Some lp, None) else (None, Some lp))) \<and>
    lp_rep lp (es @ fs) \<and> length lp = off (es @ fs) + 1"
proof -
  obtain first' where l1: "lpLength first = Some (length es, first')" "lp_rep first' es" using r1 by (rule lpLength_rep)
  obtain second' where l2: "lpLength second = Some (length fs, second')" "lp_rep second' fs" using r2 by (rule lpLength_rep)
  obtain num spare where first: "first' = header (off es + 1) num @ body es @ LP_EOF # spare"
    and v1: "\<forall>e \<in> set es. valid_enc e"
    using l1(2) by (rule lp_rep_whole)
  obtain num' spare' where second: "second' = header (off fs + 1) num' @ body fs @ LP_EOF # spare'"
    and v2: "\<forall>e \<in> set fs. valid_enc e"
    using l2(2) by (rule lp_rep_whole)
  define n where "n = off (es @ fs) + 1"
  have bytes: "off es + 1 + (off fs + 1) - LP_HDR_SIZE - 1 = n" by (simp add: n_def off_def)
  have ok: "\<not> (off es + 1 + (off fs + 1) < LP_HDR_SIZE + 1 \<or> \<not> n < 2 ^ 32 - 1)"
    using small by (simp add: n_def off_def)
  define k where "k = (if length es + length fs < 65535 then length es + length fs else 65535)"
  define lp where "lp = header n k @ body (es @ fs) @ [LP_EOF]"
  have rep: "lp_rep lp (es @ fs)"
    by (rule lp_repI [of _ _ k "[]"])
      (use small v1 v2 in \<open>auto simp: lp_def k_def n_def LP_HDR_NUMELE_UNKNOWN_def off_append\<close>)
  note unf = lpMerge_def lpBytes_def rep_total [OF r1] rep_total [OF r2] l1(1) l2(1) bind.bind_lunit prod.case option.case
    Let_def if_False bytes if_not_P [OF ok]
  have "lpMerge junk False (Some first) (Some second) =
      Some (Some (lp, if off es \<ge> off fs then (Some lp, None) else (None, Some lp)))"
  proof (cases "off es \<ge> off fs")
    case True
    then have le: "off es + 1 \<ge> off fs + 1" by simp
    show ?thesis
      unfolding unf if_P [OF le] if_P [OF True] merge_append [OF first second n_def]
      by (simp add: header_set_num header_set_total lp_def k_def)
  next
    case False
    then have le: "\<not> off es + 1 \<ge> off fs + 1" by simp
    show ?thesis
      unfolding unf if_not_P [OF le] if_not_P [OF False] merge_prepend [OF first second n_def]
      by (simp add: header_set_num header_set_total lp_def k_def)
  qed
  then show ?thesis using rep by (auto simp: lp_def n_def off_def)
qed

lemma lpDup_rep:
  assumes "lp_rep lp es"
  shows "\<exists>lp'. lpDup lp = Some lp' \<and> lp_rep lp' es \<and> length lp' = off es + 1"
proof -
  obtain num spare where lp: "lp = header (off es + 1) num @ body es @ LP_EOF # spare"
    and ok: "num = length es \<or> num = LP_HDR_NUMELE_UNKNOWN" "num \<le> LP_HDR_NUMELE_UNKNOWN"
      "\<forall>e \<in> set es. valid_enc e" "off es + 1 < 2 ^ 32"
    using assms by (rule lp_rep_whole)
  define lp' where "lp' = header (off es + 1) num @ body es @ [LP_EOF]"
  have "lp_rep lp' es" by (rule lp_repI [of _ _ num "[]"]) (use ok in \<open>simp_all add: lp'_def\<close>)
  moreover have "lpDup lp = Some lp'"
    by (simp add: lpDup_def lpBytes_def rep_total [OF assms]) (simp add: lp lp'_def get_bytes_def off_def)
  ultimately show ?thesis by (simp add: lp'_def off_def)
qed

section \<open>Reading and searching\<close>

text \<open>\<open>lpGetWithSize\<close> agrees with the optimised \<open>lpGetWithBuf\<close> and gives the size of the whole entry.\<close>

lemma string_len_32:
  assumes "LP_ENCODING_32BIT_STR_LEN lp p = Some k" "5 \<le> (5 + k) mod 2 ^ 32"
  shows "(5 + k) mod 2 ^ 32 = 5 + k"
proof -
  obtain bs where bs: "get_bytes lp (p + 1) 4 = Some bs" "k = nat (le_unsigned bs)"
    using assms(1) by (auto simp: LP_ENCODING_32BIT_STR_LEN_def)
  have "length bs = 4" using length_get_bytes [OF bs(1)] .
  then have k: "k < 2 ^ 32" using le_unsigned_bounds [of bs] bs(2) by (simp add: nat_less_iff)
  show ?thesis
  proof (cases "5 + k < 2 ^ 32")
    case False
    then have "(5 + k) mod 2 ^ 32 = 5 + k - 2 ^ 32" using k by (simp add: mod_if)
    then show ?thesis using assms(2) k by simp
  qed simp
qed

lemma getsize_buf:
  assumes b: "peek lp p = Some b" and n: "lpCurrentEncodedSizeUnsafe lp p = Some n"
    and ok: "lpCurrentEncodedSizeBytes b \<noteq> 0" "b \<noteq> LP_EOF" "lpCurrentEncodedSizeBytes b \<le> n"
  shows "lpGetWithSize lp p = map_option (\<lambda>v. (v, Some (n + lpEncodeBacklenBytes n))) (lpGetWithBuf lp p)"
proof -
  note defs = lpGetWithSize_def lpGetWithBuf_def encoding_ranges map_option_bind_option lpEncodeBacklenBytes_def
  consider "unat b < 128" | "128 \<le> unat b" "unat b < 192" | "192 \<le> unat b" "unat b < 224" | "224 \<le> unat b" "unat b < 240"
    | "unat b = 240" | "unat b = 241" | "unat b = 242" | "unat b = 243" | "unat b = 244"
    using ok(1,2) by (force simp: lpCurrentEncodedSizeBytes_def encoding_ranges split: if_splits)
  then show ?thesis
  proof cases
    case 4
    then obtain k where "LP_ENCODING_12BIT_STR_LEN lp p = Some k" "n = 2 + k"
      using n b by (auto simp: lpCurrentEncodedSizeUnsafe_def encoding_ranges)
    then show ?thesis using 4 b by (simp add: lpGetWithSize_def lpGetWithBuf_def encoding_ranges add.commute)
  next
    case 5
    then obtain k where k: "LP_ENCODING_32BIT_STR_LEN lp p = Some k" "n = (5 + k) mod 2 ^ 32"
      using n b by (auto simp: lpCurrentEncodedSizeUnsafe_def encoding_ranges)
    moreover have "5 \<le> n" using ok(3) 5 by (simp add: lpCurrentEncodedSizeBytes_def encoding_ranges)
    ultimately have "n = 5 + k" using string_len_32 by simp
    then show ?thesis using 5 b k(1) by (simp add: lpGetWithSize_def lpGetWithBuf_def encoding_ranges add.commute)
  qed (use b n in \<open>simp_all add: defs lpCurrentEncodedSizeUnsafe_def Let_def\<close>)
qed

text \<open>A value read from the block stands for the string \<open>s\<close>.\<close>

definition stands_for :: "byte list \<Rightarrow> lp_value \<Rightarrow> byte list \<Rightarrow> bool" where
  "stands_for lp v s \<longleftrightarrow>
     (case v of
        LP_STR ofs n \<Rightarrow> n = length s \<and> get_bytes lp ofs n = Some s \<and> lpStringToInt64 s = None
      | LP_INT i \<Rightarrow> lpStringToInt64 s = Some i)"

lemma read_element:
  assumes "length s + 5 < 2 ^ 32"
  shows "\<exists>v. lpGetWithBuf (xs @ encode_element s @ ys) (length xs) = Some v \<and> stands_for (xs @ encode_element s @ ys) v s"
proof (cases "lpStringToInt64 s")
  case None
  then have e: "encode_element s = lpEncodeString s" by (simp add: encode_element_def lpEncodeGetType_def Let_def)
  then show ?thesis
    using lpEncodeString_correct(2,3) [OF assms(1), of ys] None
    by (simp add: get_local shift_value_def stands_for_def)
next
  case (Some v)
  then have e: "encode_element s = lpEncodeIntegerGetType v" by (simp add: encode_element_def lpEncodeGetType_def Let_def)
  have v: "- (2 ^ 63) \<le> v" "v < 2 ^ 63" "chars s = sdec v" using Some lpStringToInt64_exact by auto
  show ?thesis
    using lpEncodeInteger_correct(3) [OF v(1,2), of ys] e Some
    by (simp add: get_local shift_value_def stands_for_def)
qed

lemma stands_for_eq:
  assumes "stands_for lp (LP_INT i) t"
  shows "lpStringToInt64 s = Some i \<longleftrightarrow> t = s"
  using assms lpStringToInt64_exact [of s i] lpStringToInt64_exact [of t i] chars_inject [of s t]
  by (auto simp: stands_for_def)

text \<open>The block represents the strings \<open>ss\<close>.\<close>

abbreviation encs :: "byte list list \<Rightarrow> byte list list" where
  "encs ss \<equiv> map encode_element ss"

lemma rep_string_length:
  assumes "lp_rep lp (encs xs @ encode_element s # es)"
  shows "length s + 5 < 2 ^ 32"
  using rep_valid(3) [OF assms] encode_element_long [of s] by linarith

lemma rep_read:
  assumes rep: "lp_rep lp (encs xs @ encode_element s # es)"
  obtains v where "lpGetWithBuf lp (off (encs xs)) = Some v" "stands_for lp v s"
    "lpGetWithSize lp (off (encs xs)) = Some (v, Some (length (entry (encode_element s))))"
proof -
  obtain t num spare where lp: "lp = (header t num @ body (encs xs)) @ body (encode_element s # es) @ LP_EOF # spare"
    using rep by (rule lp_rep_split)
  have "\<exists>v. lpGetWithBuf lp (length (header t num @ body (encs xs))) = Some v \<and> stands_for lp v s"
    using read_element [OF rep_string_length [OF rep], of "header t num @ body (encs xs)"
        "lpEncodeBacklen (length (encode_element s)) @ body es @ LP_EOF # spare"]
    by (simp add: lp entry_def)
  then obtain v where v: "lpGetWithBuf lp (off (encs xs)) = Some v" "stands_for lp v s"
    unfolding prefix_length by blast
  have "valid_enc (encode_element s)" by (rule rep_valid(1) [OF rep])
  then have "lpGetWithSize lp (off (encs xs)) = Some (v, Some (length (entry (encode_element s))))"
    using getsize_buf [OF rep_peek(1) [OF rep] rep_size [OF rep]] v(1) by (simp add: valid_enc_def length_entry)
  then show thesis using v by (intro that)
qed

lemma lpGet_text_rep:
  assumes rep: "lp_rep lp (encs xs @ encode_element s # es)" and buf: "length intbuf = LP_INTBUF_SIZE"
  shows "lpGet_text intbuf lp (off (encs xs)) = Some (chars s)"
proof -
  obtain t num spare where lp: "lp = (header t num @ body (encs xs)) @ body (encode_element s # es) @ LP_EOF # spare"
    using rep by (rule lp_rep_split)
  have "lpGet_text intbuf lp (length (header t num @ body (encs xs))) = Some (chars s)"
    using lpGet_text_element [OF rep_string_length [OF rep] buf, of "header t num @ body (encs xs)"
        "lpEncodeBacklen (length (encode_element s)) @ body es @ LP_EOF # spare"]
    by (simp add: lp entry_def)
  then show ?thesis unfolding prefix_length .
qed

definition venc_of :: "byte list \<Rightarrow> vencoding" where
  "venc_of s = (case lpStringToInt64 s of None \<Rightarrow> VENC_STRING | Some w \<Rightarrow> VENC_INT w)"

lemma venc_of_int: "venc_of s = VENC_INT i \<longleftrightarrow> lpStringToInt64 s = Some i"
  by (simp add: venc_of_def split: option.splits)

lemma lpFindCmp_correct:
  assumes v: "stands_for lp v t" and venc: "venc = VENC_UNKNOWN \<or> venc = venc_of s"
  shows "\<exists>venc'. lpFindCmp lp s p v venc = Some (t = s, venc') \<and> (venc' = VENC_UNKNOWN \<or> venc' = venc_of s)"
proof (cases v)
  case (LP_STR ofs n)
  then show ?thesis using v venc by (auto simp: lpFindCmp_def stands_for_def)
next
  case (LP_INT i)
  have len: "length s \<ge> 32 \<or> length s = 0 \<Longrightarrow> lpStringToInt64 s = None"
    using lpStringToInt64_length [of s] by (cases "lpStringToInt64 s") (auto simp: LONG_STR_SIZE_def lpStringToInt64_def chars_def)
  have "(case venc of
      VENC_UNKNOWN \<Rightarrow>
        if length s \<ge> 32 \<or> length s = 0 then VENC_STRING
        else (case lpStringToInt64 s of None \<Rightarrow> VENC_STRING | Some w \<Rightarrow> VENC_INT w)
    | _ \<Rightarrow> venc) = venc_of s"
    using venc len by (auto simp: venc_of_def split: vencoding.splits option.splits)
  then show ?thesis
    using LP_INT v stands_for_eq [of lp i t s] by (simp add: lpFindCmp_def venc_of_int)
qed

text \<open>The position the search should return: only every \<open>skip + 1\<close>st element is compared.\<close>

fun find_index :: "nat \<Rightarrow> nat \<Rightarrow> 'a \<Rightarrow> 'a list \<Rightarrow> nat option" where
  "find_index skip cnt s [] = None"
| "find_index skip cnt s (t # ts) =
     (if cnt = 0 then if t = s then Some 0 else map_option Suc (find_index skip skip s ts)
      else map_option Suc (find_index skip (cnt - 1) s ts))"

lemma find_check_rep:
  assumes "lp_rep lp (xs @ ys)"
  shows "lpFind_check lp (off (xs @ ys) + 1) (off xs) = Some ()"
  using rep_assert [OF assms] off_bounds(1) [of xs] off_bounds(2) [of xs ys] by (simp add: lpFind_check_def)

text \<open>After an element the search stops at the terminator or goes on.\<close>

lemma find_continue:
  assumes rep: "lp_rep lp (encs (xs @ t # ts))"
  shows "do {
      _ \<leftarrow> lpFind_check lp (off (encs (xs @ t # ts)) + 1) (off (encs (xs @ [t])));
      b \<leftarrow> peek lp (off (encs (xs @ [t])));
      if b = LP_EOF then Some None else f (off (encs (xs @ [t])))
    } = (if ts = [] then Some None else f (off (encs (xs @ [t]))))"
proof (cases ts)
  case Nil
  then show ?thesis
    using find_check_rep [of lp "encs (xs @ [t])" "[]"] rep_eof [OF rep] rep by simp
next
  case (Cons u us)
  then have "lp_rep lp (encs (xs @ [t]) @ encode_element u # encs us)" using rep by simp
  from find_check_rep [OF this] rep_peek [OF this] show ?thesis using Cons by simp
qed

lemma lpFind_loop_rep:
  "lp_rep lp (encs (xs @ ts)) \<Longrightarrow> ts \<noteq> [] \<Longrightarrow> venc = VENC_UNKNOWN \<or> venc = venc_of s \<Longrightarrow>
   lpFindCb_loop lp (off (encs (xs @ ts)) + 1) (lpFindCmp lp s) skip venc cnt es (off (encs xs)) =
     Some (map_option (\<lambda>j. off (encs (xs @ take j ts))) (find_index skip cnt s ts))"
proof (induction ts arbitrary: xs venc cnt es)
  case (Cons t ts)
  let ?n = "off (encs (xs @ t # ts)) + 1"
  have rep: "lp_rep lp (encs xs @ encode_element t # encs ts)" using Cons.prems(1) by simp
  obtain v where get: "lpGetWithSize lp (off (encs xs)) = Some (v, Some (length (entry (encode_element t))))"
    "stands_for lp v t"
    using rep by (rule rep_read)
  have inside: "off (encs xs) \<ge> LP_HDR_SIZE \<and> off (encs xs) + length (entry (encode_element t)) < ?n"
    using off_bounds(1) rep_valid(4) [OF rep] by simp
  obtain venc' where cmp: "lpFindCmp lp s (off (encs xs)) v venc = Some (t = s, venc')"
    and venc': "venc' = VENC_UNKNOWN \<or> venc' = venc_of s"
    using lpFindCmp_correct [OF get(2) Cons.prems(3)] by blast
  have IH: "lpFindCb_loop lp ?n (lpFindCmp lp s) skip w cnt' es' (off (encs (xs @ [t]))) =
      Some (map_option (\<lambda>j. off (encs (xs @ t # take j ts))) (find_index skip cnt' s ts))"
    if "ts \<noteq> []" "w = VENC_UNKNOWN \<or> w = venc_of s" for w cnt' es'
    using Cons.IH [of "xs @ [t]" w cnt' es'] Cons.prems(1) that by simp
  have next_pos: "off (encs xs) + length (entry (encode_element t)) = off (encs (xs @ [t]))" by simp
  show ?case
  proof (cases "cnt = 0")
    case True
    have str: "\<not> (case v of LP_STR _ _ \<Rightarrow> \<not> (off (encs xs) \<ge> LP_HDR_SIZE \<and>
        off (encs (xs @ [t])) < ?n) | LP_INT _ \<Rightarrow> False)"
      using inside by (simp split: lp_value.split)
    show ?thesis
      unfolding lpFindCb_loop.simps [of lp ?n "lpFindCmp lp s" skip venc cnt es] if_P [OF True] get(1) bind.bind_lunit
        prod.case option.case Let_def if_not_P [OF str] cmp next_pos
        find_continue [OF Cons.prems(1), of "lpFindCb_loop lp ?n (lpFindCmp lp s) skip venc' skip
          (length (entry (encode_element t)))"]
      using IH [OF _ venc', of skip] True
      by (auto simp: option.map_comp comp_def)
  next
    case False
    have skip: "lpSkip lp (off (encs xs)) = Some (off (encs (xs @ [t])))" using rep_skip [OF rep] by simp
    show ?thesis
      unfolding lpFindCb_loop.simps [of lp ?n "lpFindCmp lp s" skip venc cnt es] if_not_P [OF False] skip bind.bind_lunit
        find_continue [OF Cons.prems(1), of "lpFindCb_loop lp ?n (lpFindCmp lp s) skip venc (cnt - 1) es"]
      using IH [OF _ Cons.prems(3), of "cnt - 1" es] False
      by (auto simp: option.map_comp comp_def)
  qed
qed simp

lemma lpFind_rep:
  assumes "lp_rep lp (encs ss)"
  shows "lpFind lp None s skip = Some (map_option (\<lambda>j. off (encs (take j ss))) (find_index skip 0 s ss))"
  using lpFirst_rep [OF assms] rep_total [OF assms] lpFind_loop_rep [of lp "[]" ss VENC_UNKNOWN s skip 0] assms
  by (cases ss) (auto simp: lpFind_def lpFindCb_def lpBytes_def at_def)

lemma lpCompare_rep:
  assumes rep: "lp_rep lp (encs xs @ encode_element t # es)"
    and cache: "cached = None \<or> cached = Some VENC_UNKNOWN \<or> cached = Some (venc_of s)"
  shows "\<exists>cached'. lpCompare lp (off (encs xs)) s cached = Some (t = s, cached') \<and>
    (cached' = None \<or> cached' = Some VENC_UNKNOWN \<or> cached' = Some (venc_of s))"
proof -
  obtain v where v: "lpGetWithBuf lp (off (encs xs)) = Some v" "stands_for lp v t"
    using rep by (rule rep_read)
  note peek = rep_peek [OF rep]
  show ?thesis
  proof (cases v)
    case (LP_STR ofs n)
    then show ?thesis using v peek cache by (auto simp: lpCompare_def stands_for_def)
  next
    case (LP_INT i)
    have eq: "lpStringToInt64 s = Some i \<longleftrightarrow> t = s" using stands_for_eq v(2) LP_INT by blast
    have upd: "(case c of
        VENC_UNKNOWN \<Rightarrow> (case lpStringToInt64 s of Some w \<Rightarrow> VENC_INT w | None \<Rightarrow> VENC_STRING)
      | _ \<Rightarrow> c) = venc_of s" if "c = VENC_UNKNOWN \<or> c = venc_of s" for c
      using that by (auto simp: venc_of_def split: vencoding.splits option.splits)
    show ?thesis
    proof (cases cached)
      case None
      then show ?thesis using v(1) peek LP_INT eq by (simp add: lpCompare_def)
    next
      case (Some c)
      then have c: "c = VENC_UNKNOWN \<or> c = venc_of s" using cache by auto
      show ?thesis
        unfolding lpCompare_def v(1) peek(1) bind.bind_lunit if_not_P [OF peek(2)] LP_INT lp_value.case Some option.case
          upd [OF c] Let_def venc_of_int eq
        by blast
    qed
  qed
qed

section \<open>Batches\<close>

definition entry_bytes :: "listpackEntry \<Rightarrow> byte list" where
  "entry_bytes ent = (case sval ent of Some s \<Rightarrow> encode_element s | None \<Rightarrow> lpEncodeIntegerGetType (lval ent))"

lemma lpBatch_encode_eq:
  "lpBatch_encode ent = (entry_bytes ent, length (entry_bytes ent), lpEncodeBacklen (length (entry_bytes ent)))"
  using encode_element_length [of "the (sval ent)"]
  by (auto simp: lpBatch_encode_def entry_bytes_def encode_element_def Let_def
      split: option.splits prod.splits lp_enctype.splits)

lemma batch_added:
  "sum_list (map (\<lambda>(bytes, enclen, backlen). enclen + length backlen) (map lpBatch_encode entries)) =
   length (body (map entry_bytes entries))"
  by (induction entries) (simp_all add: lpBatch_encode_eq length_entry)

lemma lpBatch_write_rep:
  "length M = length (body (map entry_bytes entries)) \<Longrightarrow>
   lpBatch_write (P @ M @ R) (length P) newp (map lpBatch_encode entries) =
     Some (P @ body (map entry_bytes entries) @ R,
       if entries = [] then newp else Some (length P + length (body (map entry_bytes (butlast entries)))))"
proof (induction entries arbitrary: P M newp)
  case (Cons ent entries)
  define e where "e = entry_bytes ent"
  have "length (entry e) \<le> length M" using Cons.prems by (simp add: e_def)
  then obtain M1 M2 where M: "M = M1 @ M2" "length M1 = length (entry e)"
    by (intro that [of "take (length (entry e)) M" "drop (length (entry e)) M"]) simp_all
  have put: "do { lp \<leftarrow> put_bytes (P @ M1 @ M2 @ R) (length P) e;
      put_bytes lp (length P + length e) (lpEncodeBacklen (length e)) } = Some ((P @ entry e) @ M2 @ R)"
    using put_entry [of M1 e "lpEncodeBacklen (length e)" P "M2 @ R"] M(2) by (simp add: length_entry entry_def)
  have len: "length M2 = length (body (map entry_bytes entries))" using Cons.prems M by (simp add: e_def)
  have pos: "length P + length e + lpEncodeBacklenBytes (length e) = length (P @ entry e)" by (simp add: length_entry)
  have "lpBatch_write (P @ M @ R) (length P) newp (map lpBatch_encode (ent # entries)) =
      do { lp \<leftarrow> Some ((P @ entry e) @ M2 @ R); lpBatch_write lp (length (P @ entry e)) (Some (length P)) (map lpBatch_encode entries) }"
    unfolding put [symmetric] M(1) pos [symmetric] by (simp add: lpBatch_encode_eq e_def)
  also have "\<dots> = Some ((P @ entry e) @ body (map entry_bytes entries) @ R,
      if entries = [] then Some (length P) else Some (length (P @ entry e) + length (body (map entry_bytes (butlast entries)))))"
    using Cons.IH [OF len, of "P @ entry e" "Some (length P)"] by simp
  finally show ?case by (auto simp: e_def)
qed simp

definition batch_ok :: "listpackEntry list \<Rightarrow> bool" where
  "batch_ok entries \<longleftrightarrow> entries \<noteq> [] \<and>
     (\<forall>ent \<in> set entries. sval ent = None \<longrightarrow> - (2 ^ 63) \<le> lval ent \<and> lval ent < 2 ^ 63)"

lemma batch_valid:
  assumes "batch_ok entries" "off (map entry_bytes entries) < 2 ^ 32" "e \<in> set (map entry_bytes entries)"
  shows "valid_enc e"
proof -
  obtain ent where ent: "ent \<in> set entries" "e = entry_bytes ent" using assms(3) by auto
  obtain as bs where "map entry_bytes entries = as @ e # bs" using assms(3) by (meson split_list)
  then have "length e < 2 ^ 32" using assms(2) by (simp add: off_append length_entry)
  then show ?thesis
    using ent assms(1) stores_string stores_integer by (fastforce simp: entry_bytes_def batch_ok_def stores_def split: option.splits)
qed

lemma batch_insert_core:
  assumes rep: "lp_rep lp (xs @ ys)" and ok: "batch_ok entries"
  shows "outcome (lpBatchInsert junk lp (off xs) LP_BEFORE entries) (xs @ map entry_bytes entries @ ys)
    (Some (off (xs @ map entry_bytes (butlast entries))))"
proof -
  define es where "es = map entry_bytes entries"
  define n where "n = off (xs @ ys) + 1 + length (body es)"
  have n: "n = off (xs @ es @ ys) + 1" by (simp add: n_def off_append)
  have ne: "\<not> (LP_BEFORE = LP_REPLACE \<or> entries = [])" "\<not> LP_BEFORE = LP_AFTER" using ok by (simp_all add: batch_ok_def)
  note unf = lpBatchInsert_def if_not_P [OF ne(1)] if_not_P [OF ne(2)] rep_total [OF rep] bind.bind_lunit batch_added
    es_def [symmetric] Let_def n_def [symmetric]
  show ?thesis
  proof (cases "n < 2 ^ 32")
    case False
    then have "n > 2 ^ 32 - 1" by simp
    then have "lpBatchInsert junk lp (off xs) LP_BEFORE entries = Some None" unfolding unf by simp
    then show ?thesis using False n by (simp add: outcome_def es_def)
  next
    case True
    then have small: "\<not> n > 2 ^ 32 - 1" by simp
    obtain num spare where lp: "lp = header (off (xs @ ys) + 1) num @ body xs @ body ys @ LP_EOF # spare"
      and num: "num = length (xs @ ys) \<or> num = LP_HDR_NUMELE_UNKNOWN" "num \<le> LP_HDR_NUMELE_UNKNOWN"
      and valid: "\<forall>e \<in> set (xs @ ys). valid_enc e"
      using rep by (rule lp_rep_split) simp
    define P where "P = header (off (xs @ ys) + 1) num @ body xs"
    define Q where "Q = body ys @ [LP_EOF]"
    have P: "length P = off xs" by (simp add: P_def off_def)
    have lp': "lp = P @ [] @ Q @ spare" by (simp add: lp P_def Q_def)
    have t: "off (xs @ ys) + 1 = length P + length ([] :: byte list) + length Q" by (simp add: P Q_def off_append)
    have n': "n = length P + length (body es) + length Q" by (simp add: n P Q_def off_append)
    obtain M spare' where "memmove (if n > off (xs @ ys) + 1 \<and> n > length lp then realloc junk lp n else lp)
        (length P + length (body es)) (length P + length ([] :: byte list)) (length Q) = Some (P @ M @ Q @ spare')" "length M = length (body es)"
      by (rule splice_room [where junk = junk, OF lp' t n'])
    then have move: "memmove (if n > off (xs @ ys) + 1 \<and> n > length lp then realloc junk lp n else lp)
        (off xs + length (body es)) (off xs) (off (xs @ ys) + 1 - off xs) = Some (P @ M @ Q @ spare')"
      and M: "length M = length (body es)"
      by (simp_all add: P Q_def off_append)
    have wr: "lpBatch_write (P @ M @ Q @ spare') (off xs) None (map lpBatch_encode entries) =
        Some (header (off (xs @ ys) + 1) num @ body xs @ body es @ Q @ spare', Some (off (xs @ map entry_bytes (butlast entries))))"
      using lpBatch_write_rep [of M entries P "Q @ spare'" None] M ne(1) P by (simp add: es_def P_def off_append)
    define num' where "num' = (if num \<noteq> LP_HDR_NUMELE_UNKNOWN
      then if int (length entries) > int LP_HDR_NUMELE_UNKNOWN - int num then LP_HDR_NUMELE_UNKNOWN else num + length entries
      else num)"
    have eq: "lpBatchInsert junk lp (off xs) LP_BEFORE entries =
        Some (Some (header n num' @ body xs @ body es @ Q @ spare', Some (off (xs @ map entry_bytes (butlast entries)))))"
      unfolding unf if_not_P [OF small] move wr prod.case header_body_num [OF num(2)]
      by (auto simp: num'_def header_set_num header_set_total)
    have "lp_rep (header n num' @ body xs @ body es @ Q @ spare') (xs @ es @ ys)"
    proof (rule lp_repI [of _ _ num' spare'])
      have "off es < 2 ^ 32" using True n by (simp add: off_append off_def)
      then show "\<forall>e \<in> set (xs @ es @ ys). valid_enc e"
        using valid batch_valid [OF ok] by (auto simp: es_def)
    qed (use num True n in \<open>auto simp: num'_def Q_def es_def\<close>)
    then show ?thesis using eq True n by (simp add: outcome_def es_def)
  qed
qed

lemma batch_insert_after:
  assumes rep: "lp_rep lp (xs @ f # ys)" and ok: "batch_ok entries"
  shows "outcome (lpBatchInsert junk lp (off xs) LP_AFTER entries) (xs @ f # map entry_bytes entries @ ys)
    (Some (off (xs @ f # map entry_bytes (butlast entries))))"
proof -
  have "lpBatchInsert junk lp (off xs) LP_AFTER entries = lpBatchInsert junk lp (off (xs @ [f])) LP_BEFORE entries"
    using rep_skip [OF rep] rep_total [OF rep] rep_replaced(2) [OF rep] off_bounds(1) [of "xs @ [f]"] ok
    by (simp add: lpBatchInsert_def batch_ok_def)
  then show ?thesis using batch_insert_core [of lp "xs @ [f]" ys entries junk] rep ok by simp
qed

lemma lpBatchAppend_rep:
  assumes "lp_rep lp es" "batch_ok entries"
  shows "outcome (lpBatchAppend junk lp entries) (es @ map entry_bytes entries)
    (Some (off (es @ map entry_bytes (butlast entries))))"
  using batch_insert_core [of lp es "[]" entries junk] assms rep_total [OF assms(1)] by (simp add: lpBatchAppend_def)

text \<open>The elements to delete split the rest of the list into groups: a deleted element and the elements kept after it.\<close>

type_synonym group = "byte list \<times> byte list list"

fun flat :: "group list \<Rightarrow> byte list list" where
  "flat [] = []"
| "flat ((d, ks) # gs) = d # ks @ flat gs"

definition kept :: "group list \<Rightarrow> byte list list" where
  "kept gs = concat (map snd gs)"

fun starts :: "nat \<Rightarrow> group list \<Rightarrow> nat list" where
  "starts p [] = []"
| "starts p ((d, ks) # gs) = p # starts (p + length (body (d # ks))) gs"

lemma starts_cases: "starts p gs = [] \<longleftrightarrow> gs = []" "gs \<noteq> [] \<Longrightarrow> \<exists>r. starts p gs = p # r"
  by (cases gs; force)+

lemma length_starts: "length (starts p gs) = length gs"
  by (induction p gs rule: starts.induct) simp_all

lemma memmove_left:
  "memmove (A @ Old @ Q @ S) (length A) (length A + length Old) (length Q) = Some (A @ Q @ drop (length Q) (Old @ Q) @ S)"
  by (simp add: memmove_def get_bytes_def put_bytes_def)

lemma batch_delete_loop_rep:
  "gs \<noteq> [] \<Longrightarrow> \<forall>e \<in> set (flat gs). valid_enc e \<Longrightarrow> lp_end = length A + length J + length (body (flat gs)) + 1 \<Longrightarrow>
   \<exists>J'. lpBatchDelete_loop lp_end (A @ J @ body (flat gs) @ LP_EOF # spare) (length A) (starts (length A + length J) gs) =
     Some (A @ body (kept gs) @ LP_EOF # J', length A + length (body (kept gs)) + 1)"
proof (induction gs arbitrary: A J spare)
  case (Cons g gs)
  obtain d ks where g: "g = (d, ks)" by (cases g)
  define R where "R = body (flat gs) @ LP_EOF # spare"
  define m where "m = A @ J @ entry d @ body ks @ R"
  have mem: "A @ J @ body (flat (g # gs)) @ LP_EOF # spare = m" by (simp add: m_def R_def g)
  have d: "valid_enc d" using Cons.prems(2) g by simp
  have hd: "peek m (length A + length J) = Some (hd d)" "hd d \<noteq> LP_EOF"
    using hd_entry [OF d, of "A @ J" "body ks @ R"] d by (simp_all add: m_def valid_enc_def)
  have skip: "lpSkip m (length A + length J) = Some (length A + length J + length (entry d))"
    using lpSkip_entry [OF d, of "A @ J" "body ks @ R"] by (simp add: m_def)
  define tgt where "tgt = length A + length J + length (entry d)"
  show ?case
  proof (cases "gs = []")
    case True
    have "memmove m (length A) (length A + length (J @ entry d)) (length (body ks @ [LP_EOF]))
        = Some (A @ (body ks @ [LP_EOF]) @ drop (length (body ks @ [LP_EOF])) ((J @ entry d) @ body ks @ [LP_EOF]) @ spare)"
      using memmove_left [of A "J @ entry d" "body ks @ [LP_EOF]" spare] True by (simp add: m_def R_def)
    then show ?thesis
      using Cons.prems(3) hd skip True unfolding mem by (simp add: g kept_def add.assoc)
  next
    case False
    obtain r where r: "starts (tgt + length (body ks)) gs = (tgt + length (body ks)) # r"
      using starts_cases(2) [OF False] by blast
    have loop: "lpBatchDelete_loop lp_end m (length A) (starts (length A + length J) (g # gs)) =
        (if ks = [] then lpBatchDelete_loop lp_end m (length A) (starts tgt gs)
         else do {
           lp \<leftarrow> memmove m (length A) tgt (length (body ks));
           lpBatchDelete_loop lp_end lp (length A + length (body ks)) (starts (tgt + length (body ks)) gs)
         })"
    proof -
      have "ks \<noteq> [] \<Longrightarrow> 0 < length (body ks)"
        using Cons.prems(2) g by (cases ks) (auto simp: entry_def valid_enc_def)
      moreover have "starts (length A + length J) (g # gs) = (length A + length J) # starts (tgt + length (body ks)) gs"
        by (simp add: g tgt_def add.assoc)
      ultimately show ?thesis
        using hd skip r by (cases "ks = []") (simp_all add: tgt_def [symmetric] Let_def)
    qed
    show ?thesis
    proof (cases "ks = []")
      case True
      then show ?thesis
        using Cons.IH [of A "J @ entry d" spare] Cons.prems False unfolding mem loop
        by (simp add: g kept_def m_def R_def tgt_def add.assoc)
    next
      case keep: False
      define J2 where "J2 = drop (length (body ks)) ((J @ entry d) @ body ks)"
      have "memmove m (length A) tgt (length (body ks)) = Some ((A @ body ks) @ J2 @ R)"
        using memmove_left [of A "J @ entry d" "body ks" R] by (simp add: m_def tgt_def J2_def add.assoc del: drop_append)
      moreover have "length J2 = length J + length (entry d)" by (simp add: J2_def)
      ultimately show ?thesis
        using Cons.IH [of "A @ body ks" J2 spare] Cons.prems False keep unfolding mem loop
        by (simp add: g kept_def R_def tgt_def ac_simps)
    qed
  qed
qed simp

lemma flat_count: "length (flat gs) = length (kept gs) + length gs" "set (kept gs) \<subseteq> set (flat gs)"
  "length (body (kept gs)) \<le> length (body (flat gs))"
  by (induction gs rule: flat.induct) (auto simp: kept_def)

lemma lpBatchDelete_rep:
  assumes rep: "lp_rep lp (xs @ flat gs)"
  shows "\<exists>lp'. lpBatchDelete junk lp (starts (off xs) gs) = Some lp' \<and> lp_rep lp' (xs @ kept gs)"
proof (cases "gs = []")
  case True
  then show ?thesis using rep by (simp add: lpBatchDelete_def kept_def)
next
  case False
  obtain r where r: "starts (off xs) gs = off xs # r" using starts_cases(2) [OF False] by blast
  obtain num spare where lp: "lp = (header (off (xs @ flat gs) + 1) num @ body xs) @ body (flat gs) @ LP_EOF # spare"
    and num: "num = length (xs @ flat gs) \<or> num = LP_HDR_NUMELE_UNKNOWN" "num \<le> LP_HDR_NUMELE_UNKNOWN"
    and valid: "\<forall>e \<in> set (xs @ flat gs). valid_enc e" and small: "off (xs @ flat gs) + 1 < 2 ^ 32"
    using rep by (rule lp_rep_split)
  define num' where "num' = (if num = LP_HDR_NUMELE_UNKNOWN then num else num - length gs)"
  have num_set: "num \<noteq> LP_HDR_NUMELE_UNKNOWN \<Longrightarrow> nat ((int num - int (length (starts (off xs) gs))) mod 2 ^ 64) = num'"
    using num sub_count [of "length gs" num] by (auto simp: num'_def length_starts flat_count)
  obtain J where loop: "lpBatchDelete_loop (off (xs @ flat gs) + 1) lp (off xs) (starts (off xs) gs) =
      Some (header (off (xs @ flat gs) + 1) num @ body (xs @ kept gs) @ LP_EOF # J, off (xs @ kept gs) + 1)"
    using batch_delete_loop_rep [of gs "off (xs @ flat gs) + 1" "header (off (xs @ flat gs) + 1) num @ body xs" "[]" spare]
      False valid lp by (auto simp: off_def add.assoc)
  have eof: "peek (header t k @ body es @ LP_EOF # J) (off es) = Some LP_EOF" for t k es
    by (simp add: off_def peek_def nth_append)
  have tot: "nat (int (off (xs @ flat gs) + 1) - (int (off (xs @ flat gs) + 1) - int (off (xs @ kept gs) + 1))) = off (xs @ kept gs) + 1"
    by simp
  have "lp_rep (header (off (xs @ kept gs) + 1) num' @ body (xs @ kept gs) @ LP_EOF # J) (xs @ kept gs)"
    by (rule lp_repI [of _ _ num' J])
      (use num valid small flat_count [of gs] in \<open>auto simp: num'_def off_append\<close>)
  then obtain lp' where shrink: "lpShrinkToFit junk (header (off (xs @ kept gs) + 1) num' @ body (xs @ kept gs) @ LP_EOF # J) = Some lp'"
    "lp_rep lp' (xs @ kept gs)"
    by (rule lpShrinkToFit_rep)
  have "lpBatchDelete junk lp (starts (off xs) gs) = Some lp'"
    unfolding lpBatchDelete_def r list.case unfolding r [symmetric] rep_total [OF rep] bind.bind_lunit loop prod.case Let_def tot
      header_set_total header_body_num [OF num(2)]
    using rep_eof [OF rep] shrink(1) num_set eof [of _ _ "xs @ kept gs"]
    by (cases "num = LP_HDR_NUMELE_UNKNOWN") (simp_all add: header_set_num num'_def)
  then show ?thesis using shrink(2) by blast
qed

end
