(* ===== verification/Listpack_Spec.thy ===== *)
theory Listpack_Spec
  imports Listpack_Ops
begin

text \<open>
  The listpack as a list of strings: the commands, their specification on plain lists, the simulation, and the
  properties of \<open>listpack.c\<close>.
\<close>

section \<open>Commands\<close>

text \<open>An element argument is a string or a 64-bit integer; the integer is stored as its decimal text would be.\<close>

datatype lp_arg = AStr "byte list" | AInt u64

definition arg_bytes :: "lp_arg \<Rightarrow> byte list" where
  "arg_bytes a = (case a of AStr s \<Rightarrow> s | AInt w \<Rightarrow> int_bytes (sint w))"

datatype lp_cmd =
    Lp_Append lp_arg | Lp_Prepend lp_arg | Lp_Insert int lp_arg bool | Lp_Replace int lp_arg | Lp_Delete int
  | Lp_DeleteRange int u64 | Lp_BatchAppend lp_arg "lp_arg list" | Lp_Get int | Lp_Find "byte list" nat | Lp_Length

datatype lp_reply = LR_Ok | LR_Full | LR_Missing | LR_Text string | LR_Pos "nat option" | LR_Count nat

definition lp_answer :: "byte list \<Rightarrow> (byte list \<times> nat option) option option \<Rightarrow> (byte list \<times> lp_reply) option" where
  "lp_answer lp r =
     (case r of None \<Rightarrow> None | Some None \<Rightarrow> Some (lp, LR_Full) | Some (Some (lp', _)) \<Rightarrow> Some (lp', LR_Ok))"

definition lp_entry_of :: "lp_arg \<Rightarrow> listpackEntry" where
  "lp_entry_of a = (case a of AStr s \<Rightarrow> \<lparr>sval = Some s, lval = 0\<rparr> | AInt w \<Rightarrow> \<lparr>sval = None, lval = sint w\<rparr>)"

fun lp_exec :: "(nat \<Rightarrow> byte) \<Rightarrow> string \<Rightarrow> byte list \<Rightarrow> lp_cmd \<Rightarrow> (byte list \<times> lp_reply) option" where
  "lp_exec junk buf lp (Lp_Append (AStr s)) = lp_answer lp (lpAppend junk lp s)"
| "lp_exec junk buf lp (Lp_Append (AInt w)) = lp_answer lp (lpAppendInteger junk lp (sint w))"
| "lp_exec junk buf lp (Lp_Prepend (AStr s)) = lp_answer lp (lpPrepend junk lp s)"
| "lp_exec junk buf lp (Lp_Prepend (AInt w)) = lp_answer lp (lpPrependInteger junk lp (sint w))"
| "lp_exec junk buf lp (Lp_Insert i a after) = do {
     p \<leftarrow> lpSeek lp i;
     case p of
       None \<Rightarrow> Some (lp, LR_Missing)
     | Some p \<Rightarrow>
         let place = (if after then LP_AFTER else LP_BEFORE) in
         lp_answer lp (case a of AStr s \<Rightarrow> lpInsert junk lp (ELE_STR s) p place | AInt w \<Rightarrow> lpInsertInteger junk lp (sint w) p place)
   }"
| "lp_exec junk buf lp (Lp_Replace i a) = do {
     p \<leftarrow> lpSeek lp i;
     case p of
       None \<Rightarrow> Some (lp, LR_Missing)
     | Some p \<Rightarrow> lp_answer lp (case a of AStr s \<Rightarrow> lpReplace junk lp p s | AInt w \<Rightarrow> lpReplaceInteger junk lp p (sint w))
   }"
| "lp_exec junk buf lp (Lp_Delete i) = do {
     p \<leftarrow> lpSeek lp i;
     case p of None \<Rightarrow> Some (lp, LR_Missing) | Some p \<Rightarrow> lp_answer lp (lpDelete junk lp p)
   }"
| "lp_exec junk buf lp (Lp_DeleteRange i n) = map_option (\<lambda>lp. (lp, LR_Ok)) (lpDeleteRange junk lp i (unat n))"
| "lp_exec junk buf lp (Lp_BatchAppend a as) = lp_answer lp (lpBatchAppend junk lp (map lp_entry_of (a # as)))"
| "lp_exec junk buf lp (Lp_Get i) = do {
     p \<leftarrow> lpSeek lp i;
     case p of None \<Rightarrow> Some (lp, LR_Missing) | Some p \<Rightarrow> map_option (\<lambda>t. (lp, LR_Text t)) (lpGet_text buf lp p)
   }"
| "lp_exec junk buf lp (Lp_Find s skip) = map_option (\<lambda>p. (lp, LR_Pos p)) (lpFind lp None s skip)"
| "lp_exec junk buf lp Lp_Length = map_option (\<lambda>(n, lp). (lp, LR_Count n)) (lpLength lp)"

section \<open>Specification\<close>

definition lp_size :: "byte list list \<Rightarrow> nat" where
  "lp_size ss = LP_HDR_SIZE + (\<Sum>s\<leftarrow>ss. length (encode_element s) + lpEncodeBacklenBytes (length (encode_element s))) + 1"

text \<open>A change is refused when the block would not fit a 32-bit size.\<close>

definition lp_put :: "byte list list \<Rightarrow> byte list list \<Rightarrow> byte list list \<times> lp_reply" where
  "lp_put ss' ss = (if lp_size ss' < 2 ^ 32 then (ss', LR_Ok) else (ss, LR_Full))"

definition sel :: "'a list \<Rightarrow> int \<Rightarrow> nat option" where
  "sel ss i = (let j = norm_index (length ss) i in if 0 \<le> j \<and> j < int (length ss) then Some (nat j) else None)"

fun lp_spec :: "byte list list \<Rightarrow> lp_cmd \<Rightarrow> byte list list \<times> lp_reply" where
  "lp_spec ss (Lp_Append a) = lp_put (ss @ [arg_bytes a]) ss"
| "lp_spec ss (Lp_Prepend a) = lp_put (arg_bytes a # ss) ss"
| "lp_spec ss (Lp_Insert i a after) =
     (case sel ss i of
        None \<Rightarrow> (ss, LR_Missing)
      | Some j \<Rightarrow> let j = (if after then Suc j else j) in lp_put (take j ss @ arg_bytes a # drop j ss) ss)"
| "lp_spec ss (Lp_Replace i a) = (case sel ss i of None \<Rightarrow> (ss, LR_Missing) | Some j \<Rightarrow> lp_put (ss[j := arg_bytes a]) ss)"
| "lp_spec ss (Lp_Delete i) =
     (case sel ss i of None \<Rightarrow> (ss, LR_Missing) | Some j \<Rightarrow> (take j ss @ drop (Suc j) ss, LR_Ok))"
| "lp_spec ss (Lp_DeleteRange i n) = (cut_range ss i (unat n), LR_Ok)"
| "lp_spec ss (Lp_BatchAppend a as) = lp_put (ss @ map arg_bytes (a # as)) ss"
| "lp_spec ss (Lp_Get i) = (ss, case sel ss i of None \<Rightarrow> LR_Missing | Some j \<Rightarrow> LR_Text (chars (ss ! j)))"
| "lp_spec ss (Lp_Find s skip) =
     (ss, LR_Pos (map_option (\<lambda>j. lp_size (take j ss) - 1) (find_index skip 0 s ss)))"
| "lp_spec ss Lp_Length = (ss, LR_Count (length ss))"

section \<open>Simulation\<close>

lemma encode_int_bytes:
  assumes "- (2 ^ 63) \<le> v" "v < 2 ^ 63"
  shows "encode_element (int_bytes v) = lpEncodeIntegerGetType v"
  using lpStringToInt64_exact [of "int_bytes v" v] chars_int_bytes [OF assms] assms
  by (simp add: encode_element_def lpEncodeGetType_def Let_def)

lemma sint_range: "- (2 ^ 63) \<le> sint w" "sint w < 2 ^ 63" for w :: u64
  using sint_range_size [of w] by (simp_all add: word_size)

lemma entry_bytes_arg: "entry_bytes (lp_entry_of a) = encode_element (arg_bytes a)"
  by (simp add: entry_bytes_def lp_entry_of_def arg_bytes_def encode_int_bytes [OF sint_range] split: lp_arg.split)

lemma lp_size_off: "lp_size ss = off (encs ss) + 1"
  by (induction ss) (simp_all add: lp_size_def off_def length_entry)

definition str_rep :: "string \<Rightarrow> byte list \<Rightarrow> byte list list \<Rightarrow> bool" where
  "str_rep buf lp ss \<longleftrightarrow> lp_rep lp (encs ss) \<and> length buf = LP_INTBUF_SIZE"

lemma answer_put:
  assumes "outcome r (encs ss') p" "str_rep buf lp ss"
  shows "\<exists>lp'. lp_answer lp r = Some (lp', snd (lp_put ss' ss)) \<and> str_rep buf lp' (fst (lp_put ss' ss))"
  using assms by (auto simp: outcome_def lp_answer_def lp_put_def lp_size_off str_rep_def)

lemma nth_ptr_sel: "nth_ptr (encs ss) i = map_option (\<lambda>j. off (encs (take j ss))) (sel ss i)"
  by (simp add: nth_ptr_def sel_def Let_def take_map)

lemma sel_split:
  assumes "sel ss i = Some j"
  shows "ss = take j ss @ ss ! j # drop (Suc j) ss" "j < length ss"
proof -
  show j: "j < length ss" using assms by (auto simp: sel_def Let_def split: if_splits)
  show "ss = take j ss @ ss ! j # drop (Suc j) ss" using id_take_nth_drop [OF j] .
qed

lemma seek_sel:
  assumes "str_rep buf lp ss"
  shows "lpSeek lp i = Some (map_option (\<lambda>j. off (encs (take j ss))) (sel ss i))"
  using assms lpSeek_rep [of lp "encs ss" i] by (simp add: str_rep_def nth_ptr_sel)

lemma encs_cut_range: "encs (cut_range ss i n) = cut_range (encs ss) i n"
  by (simp add: cut_range_def Let_def take_map drop_map)

text \<open>Inserting or replacing with either kind of argument.\<close>

definition insert_arg :: "(nat \<Rightarrow> byte) \<Rightarrow> byte list \<Rightarrow> lp_arg \<Rightarrow> nat \<Rightarrow> lp_where \<Rightarrow> (byte list \<times> nat option) option option" where
  "insert_arg junk lp a p place =
     (case a of AStr s \<Rightarrow> lpInsert junk lp (ELE_STR s) p place | AInt w \<Rightarrow> lpInsertInteger junk lp (sint w) p place)"

lemma stores_arg: "\<exists>ele. stores ele (encode_element (arg_bytes a)) \<and> insert_arg junk lp a p place = lpInsert junk lp ele p place"
proof (cases a)
  case (AStr s)
  then show ?thesis using stores_string [of s] by (auto simp: arg_bytes_def insert_arg_def)
next
  case (AInt w)
  then show ?thesis
    using stores_integer [OF sint_range, of w]
    by (auto simp: arg_bytes_def insert_arg_def lpInsertInteger_def encode_int_bytes [OF sint_range])
qed

lemma insert_arg_rep:
  assumes "str_rep buf lp ss" "sel ss i = Some j"
  shows "outcome (insert_arg junk lp a (off (encs (take j ss))) LP_BEFORE)
      (encs (take j ss @ arg_bytes a # drop j ss)) (Some (off (encs (take j ss))))"
    "outcome (insert_arg junk lp a (off (encs (take j ss))) LP_AFTER)
      (encs (take (Suc j) ss @ arg_bytes a # drop (Suc j) ss)) (Some (off (encs (take (Suc j) ss))))"
    "outcome (insert_arg junk lp a (off (encs (take j ss))) LP_REPLACE) (encs (ss[j := arg_bytes a])) (Some (off (encs (take j ss))))"
proof -
  have rep: "lp_rep lp (encs (take j ss) @ encode_element (ss ! j) # encs (drop (Suc j) ss))"
    using assms(1) sel_split(1) [OF assms(2)] by (metis list.simps(9) map_append str_rep_def)
  have rep': "lp_rep lp (encs (take j ss) @ encs (drop j ss))"
    using assms(1) by (metis append_take_drop_id map_append str_rep_def)
  have up: "take (Suc j) ss = take j ss @ [ss ! j]" using sel_split(2) [OF assms(2)] by (rule take_Suc_conv_app_nth)
  have upd: "ss[j := arg_bytes a] = take j ss @ arg_bytes a # drop (Suc j) ss"
    using sel_split(2) [OF assms(2)] by (rule upd_conv_take_nth_drop)
  obtain ele where b: "stores ele (encode_element (arg_bytes a))"
    "insert_arg junk lp a (off (encs (take j ss))) LP_BEFORE = lpInsert junk lp ele (off (encs (take j ss))) LP_BEFORE"
    using stores_arg by blast
  show "outcome (insert_arg junk lp a (off (encs (take j ss))) LP_BEFORE)
      (encs (take j ss @ arg_bytes a # drop j ss)) (Some (off (encs (take j ss))))"
    using lpInsert_before [OF rep' b(1)] b(2) by simp
  obtain ele where "stores ele (encode_element (arg_bytes a))"
    "insert_arg junk lp a (off (encs (take j ss))) LP_AFTER = lpInsert junk lp ele (off (encs (take j ss))) LP_AFTER"
    using stores_arg by blast
  then show "outcome (insert_arg junk lp a (off (encs (take j ss))) LP_AFTER)
      (encs (take (Suc j) ss @ arg_bytes a # drop (Suc j) ss)) (Some (off (encs (take (Suc j) ss))))"
    using lpInsert_after [OF rep] up by simp
  obtain ele where "stores ele (encode_element (arg_bytes a))"
    "insert_arg junk lp a (off (encs (take j ss))) LP_REPLACE = lpInsert junk lp ele (off (encs (take j ss))) LP_REPLACE"
    using stores_arg by blast
  then show "outcome (insert_arg junk lp a (off (encs (take j ss))) LP_REPLACE) (encs (ss[j := arg_bytes a]))
      (Some (off (encs (take j ss))))"
    using lpInsert_replace [OF rep] upd by simp
qed

text \<open>Each command answers as specified and keeps the representation.\<close>

definition matches :: "string \<Rightarrow> (byte list \<times> lp_reply) option \<Rightarrow> byte list list \<times> lp_reply \<Rightarrow> bool" where
  "matches buf r sp \<longleftrightarrow> (\<exists>lp'. r = Some (lp', snd sp) \<and> str_rep buf lp' (fst sp))"

lemma matches_put:
  "outcome r (encs ss') p \<Longrightarrow> str_rep buf lp ss \<Longrightarrow> matches buf (lp_answer lp r) (lp_put ss' ss)"
  unfolding matches_def by (rule answer_put)

lemma matches_same: "str_rep buf lp ss \<Longrightarrow> matches buf (Some (lp, r)) (ss, r)"
  by (simp add: matches_def)

lemma exec_append:
  assumes rep: "str_rep buf lp ss"
  shows "matches buf (lp_exec junk buf lp (Lp_Append a)) (lp_spec ss (Lp_Append a))"
proof -
  have "lp_rep lp (encs ss)" using rep by (simp add: str_rep_def)
  then have "outcome (case a of AStr s \<Rightarrow> lpAppend junk lp s | AInt w \<Rightarrow> lpAppendInteger junk lp (sint w))
      (encs (ss @ [arg_bytes a])) (Some (off (encs ss)))"
    using lpAppend_rep [of lp "encs ss" junk] lpAppendInteger_rep [of lp "encs ss" _ junk, OF _ sint_range]
    by (cases a) (simp_all add: arg_bytes_def encode_int_bytes [OF sint_range])
  from matches_put [OF this rep] show ?thesis by (cases a) simp_all
qed

lemma exec_prepend:
  assumes rep: "str_rep buf lp ss"
  shows "matches buf (lp_exec junk buf lp (Lp_Prepend a)) (lp_spec ss (Lp_Prepend a))"
proof -
  have "lp_rep lp (encs ss)" using rep by (simp add: str_rep_def)
  then have "outcome (case a of AStr s \<Rightarrow> lpPrepend junk lp s | AInt w \<Rightarrow> lpPrependInteger junk lp (sint w))
      (encs (arg_bytes a # ss)) (Some LP_HDR_SIZE)"
    using lpPrepend_rep [of lp "encs ss" junk] lpPrependInteger_rep [of lp "encs ss" _ junk, OF _ sint_range]
    by (cases a) (simp_all add: arg_bytes_def encode_int_bytes [OF sint_range])
  from matches_put [OF this rep] show ?thesis by (cases a) simp_all
qed

lemma exec_insert:
  assumes rep: "str_rep buf lp ss"
  shows "matches buf (lp_exec junk buf lp (Lp_Insert i a after)) (lp_spec ss (Lp_Insert i a after))"
proof (cases "sel ss i")
  case None
  then show ?thesis using matches_same [OF rep] by (simp add: seek_sel [OF rep])
next
  case (Some j)
  note ins = insert_arg_rep(1,2) [OF rep Some, of junk a]
  show ?thesis
    using matches_put [OF ins(1) rep] matches_put [OF ins(2) rep] Some
    by (simp add: seek_sel [OF rep] insert_arg_def Let_def)
qed

lemma exec_replace:
  assumes rep: "str_rep buf lp ss"
  shows "matches buf (lp_exec junk buf lp (Lp_Replace i a)) (lp_spec ss (Lp_Replace i a))"
proof (cases "sel ss i")
  case None
  then show ?thesis using matches_same [OF rep] by (simp add: seek_sel [OF rep])
next
  case (Some j)
  show ?thesis
    using matches_put [OF insert_arg_rep(3) [OF rep Some, of junk a] rep] Some
    by (cases a) (simp_all add: seek_sel [OF rep] insert_arg_def lpReplace_def lpReplaceInteger_def)
qed

lemma exec_delete:
  assumes rep: "str_rep buf lp ss"
  shows "matches buf (lp_exec junk buf lp (Lp_Delete i)) (lp_spec ss (Lp_Delete i))"
proof (cases "sel ss i")
  case None
  then show ?thesis using matches_same [OF rep] by (simp add: seek_sel [OF rep])
next
  case (Some j)
  have split: "encs ss = encs (take j ss) @ encode_element (ss ! j) # encs (drop (Suc j) ss)"
    using arg_cong [OF sel_split(1) [OF Some], of encs] by simp
  then have lp: "lp_rep lp (encs (take j ss) @ encode_element (ss ! j) # encs (drop (Suc j) ss))"
    using rep by (simp add: str_rep_def)
  have "off (encs (take j ss @ drop (Suc j) ss)) + 1 < 2 ^ 32"
    using lp by (simp add: lp_rep_def off_def)
  then have "lp_put (take j ss @ drop (Suc j) ss) ss = (take j ss @ drop (Suc j) ss, LR_Ok)"
    by (simp add: lp_put_def lp_size_off)
  moreover have "outcome (lpDelete junk lp (off (encs (take j ss)))) (encs (take j ss @ drop (Suc j) ss))
      (at (encs (take j ss)) (encs (drop (Suc j) ss)))"
    using lpDelete_rep [OF lp] by simp
  ultimately show ?thesis using matches_put [OF _ rep] Some by (fastforce simp: seek_sel [OF rep])
qed

lemma exec_delete_range:
  assumes "str_rep buf lp ss"
  shows "matches buf (lp_exec junk buf lp (Lp_DeleteRange i n)) (lp_spec ss (Lp_DeleteRange i n))"
  using lpDeleteRange_rep [of lp "encs ss" "unat n" junk i] assms unsigned_less [of n, where ?'a = nat]
  by (auto simp: matches_def str_rep_def encs_cut_range)

lemma exec_batch:
  assumes rep: "str_rep buf lp ss"
  shows "matches buf (lp_exec junk buf lp (Lp_BatchAppend a as)) (lp_spec ss (Lp_BatchAppend a as))"
proof -
  have "batch_ok (map lp_entry_of (a # as))"
    using sint_range by (auto simp: batch_ok_def lp_entry_of_def split: lp_arg.splits)
  moreover have "map entry_bytes (map lp_entry_of bs) = encs (map arg_bytes bs)" for bs
    by (simp add: entry_bytes_arg)
  ultimately have "outcome (lpBatchAppend junk lp (map lp_entry_of (a # as))) (encs (ss @ map arg_bytes (a # as)))
      (Some (off (encs ss @ map entry_bytes (butlast (map lp_entry_of (a # as))))))"
    using lpBatchAppend_rep [of lp "encs ss" "map lp_entry_of (a # as)" junk] rep by (simp only: str_rep_def map_append)
  from matches_put [OF this rep] show ?thesis by simp
qed

lemma exec_get:
  assumes rep: "str_rep buf lp ss"
  shows "matches buf (lp_exec junk buf lp (Lp_Get i)) (lp_spec ss (Lp_Get i))"
proof (cases "sel ss i")
  case None
  then show ?thesis using matches_same [OF rep] by (simp add: seek_sel [OF rep])
next
  case (Some j)
  have "encs ss = encs (take j ss) @ encode_element (ss ! j) # encs (drop (Suc j) ss)"
    using arg_cong [OF sel_split(1) [OF Some], of encs] by simp
  then have "lpGet_text buf lp (off (encs (take j ss))) = Some (chars (ss ! j))"
    using rep lpGet_text_rep [of lp "take j ss" "ss ! j" "encs (drop (Suc j) ss)" buf] by (simp add: str_rep_def)
  then show ?thesis using matches_same [OF rep] Some by (simp add: seek_sel [OF rep])
qed

lemma exec_find:
  assumes rep: "str_rep buf lp ss"
  shows "matches buf (lp_exec junk buf lp (Lp_Find s skip)) (lp_spec ss (Lp_Find s skip))"
  using lpFind_rep [of lp ss s skip] rep matches_same [OF rep] by (simp add: str_rep_def lp_size_off)

lemma exec_length:
  assumes rep: "str_rep buf lp ss"
  shows "matches buf (lp_exec junk buf lp Lp_Length) (lp_spec ss Lp_Length)"
proof -
  have "lp_rep lp (encs ss)" using rep by (simp add: str_rep_def)
  then obtain lp' where "lpLength lp = Some (length (encs ss), lp')" "lp_rep lp' (encs ss)" by (rule lpLength_rep)
  then show ?thesis using rep by (simp add: matches_def str_rep_def)
qed

interpretation lps: simulation "str_rep buf" "lp_exec junk buf" lp_spec for junk buf
proof
  fix lp :: "byte list" and ss c
  assume rep: "str_rep buf lp ss"
  have "matches buf (lp_exec junk buf lp c) (lp_spec ss c)"
    by (cases c) (simp_all only: exec_append [OF rep] exec_prepend [OF rep] exec_insert [OF rep] exec_replace [OF rep]
        exec_delete [OF rep] exec_delete_range [OF rep] exec_batch [OF rep] exec_get [OF rep] exec_find [OF rep]
        exec_length [OF rep])
  then show "\<exists>lp'. lp_exec junk buf lp c = Some (lp', snd (lp_spec ss c)) \<and> str_rep buf lp' (fst (lp_spec ss c))"
    by (simp add: matches_def)
qed

section \<open>Validation\<close>

text \<open>What is represented is accepted.\<close>

lemma validate_loop_rep:
  "lp_rep lp (xs @ ys) \<Longrightarrow> length ys \<le> fuel \<Longrightarrow>
   lpValidate_loop fuel lp (off (xs @ ys) + 1) None num (Some (off xs)) n = Some (Some (Some (off (xs @ ys)), n + length ys))"
proof (induction ys arbitrary: xs fuel n)
  case Nil
  then show ?case using rep_eof [of lp xs] by simp
next
  case (Cons e ys)
  obtain f where f: "fuel = Suc f" "length ys \<le> f" using Cons.prems(2) by (cases fuel) auto
  show ?case
    using Cons.IH [of "xs @ [e]" f "n + 1"] Cons.prems(1) rep_peek [OF Cons.prems(1)] rep_validate [OF Cons.prems(1)] f
    by simp
qed

lemma validate_rep:
  assumes rep: "lp_rep lp es" and len: "length lp = off es + 1"
  shows "lpValidateIntegrity lp (length lp) True None = Some True"
proof -
  obtain num where num: "lpGetNumElements lp = Some num" "num = length es \<or> num = LP_HDR_NUMELE_UNKNOWN"
    using rep by (rule rep_num)
  have "\<not> length lp < LP_HDR_SIZE + 1" using len off_bounds(1) [of es] by simp
  then show ?thesis
    using validate_loop_rep [of lp "[]" es "length lp" num 0] rep rep_count(1) [OF rep] rep_total [OF rep] rep_eof [OF rep]
      num len by (auto simp: lpValidateIntegrity_def simp del: lpValidate_loop.simps)
qed

text \<open>The decoding of a backward length is inside the block when at least four bytes precede it, and its low seven bits
  are those of the last byte.\<close>

lemma decode_defined:
  assumes "4 \<le> p" "p < length lp"
  shows "\<exists>v. lpDecodeBacklen lp p = Some v"
proof -
  have "peek_back lp p i = Some (lp ! (p - i))" if "i \<le> 4" for i
    using assms that by (simp add: peek_back_def peek_def)
  moreover have "peek lp p = Some (lp ! p)" using assms by (simp add: peek_def)
  ultimately show ?thesis unfolding lpDecodeBacklen_def by (simp add: Let_def)
qed

lemma low7_bound: "low7 b < 128"
  using unat_and_mask [of b 7] by (simp add: low7_def mask_eq_exp_minus_1)

lemma decode_low:
  assumes "lpDecodeBacklen lp p = Some v" "peek lp p = Some b"
  shows "v mod 128 = low7 b \<or> v = 2 ^ 64 - 1"
proof -
  have m: "(a + k * 16384) mod 128 = a mod 128" "(a + k * 2097152) mod 128 = a mod 128"
    "(a + k * 268435456) mod 128 = a mod 128" for a k :: nat
    using mod_mult_self1 [of a "k * 128" 128] mod_mult_self1 [of a "k * 16384" 128] mod_mult_self1 [of a "k * 2097152" 128]
    by (simp_all add: mult.commute)
  show ?thesis
    using assms low7_bound [of b] by (auto simp: lpDecodeBacklen_def Let_def m split: if_splits bind_splits)
qed

lemma decode_bound:
  assumes "lpDecodeBacklen lp p = Some v"
  shows "v < 2 ^ 35 \<or> v = 2 ^ 64 - 1"
proof -
  have g: "low7 a < 34359738368" "low7 a + low7 b * 128 < 34359738368" "low7 a + low7 b * 128 + low7 c * 16384 < 34359738368"
    "low7 a + low7 b * 128 + low7 c * 16384 + low7 d * 2097152 < 34359738368"
    "low7 a + low7 b * 128 + low7 c * 16384 + low7 d * 2097152 + low7 e * 268435456 < 34359738368" for a b c d e
    using low7_bound [of a] low7_bound [of b] low7_bound [of c] low7_bound [of d] low7_bound [of e] by linarith+
  show ?thesis
    using assms by (auto simp: lpDecodeBacklen_def Let_def g split: if_splits bind_splits)
qed

lemma size_defined:
  assumes "peek lp p = Some b" "p + lpCurrentEncodedSizeBytes b < length lp"
  shows "\<exists>n. lpCurrentEncodedSizeUnsafe lp p = Some n"
proof -
  have "unat b < 240 \<Longrightarrow> 224 \<le> unat b \<Longrightarrow> \<exists>k. LP_ENCODING_12BIT_STR_LEN lp p = Some k"
    using assms by (simp add: lpCurrentEncodedSizeBytes_def encoding_ranges LP_ENCODING_12BIT_STR_LEN_def peek_def)
  moreover have "unat b = 240 \<Longrightarrow> \<exists>k. LP_ENCODING_32BIT_STR_LEN lp p = Some k"
    using assms by (simp add: lpCurrentEncodedSizeBytes_def encoding_ranges LP_ENCODING_32BIT_STR_LEN_def get_bytes_def)
  ultimately show ?thesis
    using assms(1) by (force simp: lpCurrentEncodedSizeUnsafe_def encoding_ranges)
qed

text \<open>Validating an entry of any block stays inside the block.\<close>

lemma validate_next_defined: "lpValidateNext lp (Some p) (length lp) \<noteq> None"
proof (cases "out_of_range (length lp) p")
  case False
  then have p: "LP_HDR_SIZE \<le> p" "p < length lp" by (auto simp: out_of_range_def)
  obtain b where b: "peek lp p = Some b" using p by (simp add: peek_def)
  show ?thesis
  proof (cases "b = LP_EOF \<or> lpCurrentEncodedSizeBytes b = 0 \<or> out_of_range (length lp) (p + lpCurrentEncodedSizeBytes b)")
    case True
    then show ?thesis using False b by (auto simp: lpValidateNext_def Let_def)
  next
    case ok: False
    then obtain n where n: "lpCurrentEncodedSizeUnsafe lp p = Some n"
      using size_defined [OF b] by (auto simp: out_of_range_def)
    define q where "q = p + (n + lpEncodeBacklenBytes n)"
    have "p < q" using lpEncodeBacklenBytes_bounds(1) [of n] by (simp add: q_def)
    then have "\<exists>v. lpDecodeBacklen lp (q - 1) = Some v" if "\<not> out_of_range (length lp) q"
      using that p(1) by (intro decode_defined) (auto simp: out_of_range_def LP_HDR_SIZE_def)
    then consider "out_of_range (length lp) q" | v where "\<not> out_of_range (length lp) q" "lpDecodeBacklen lp (q - 1) = Some v"
      by blast
    then show ?thesis
      by cases (use False ok b n in \<open>simp_all add: lpValidateNext_def Let_def q_def [symmetric] del: not_None_eq\<close>)
  qed
qed (simp add: lpValidateNext_def)

lemma validate_next_cases:
  assumes "lpValidateNext lp (Some p) (length lp) = Some (True, Some q)"
  obtains b n v where "peek lp p = Some b" "b \<noteq> LP_EOF" "lpCurrentEncodedSizeBytes b \<noteq> 0" "LP_HDR_SIZE \<le> p"
    "p + lpCurrentEncodedSizeBytes b < length lp" "lpCurrentEncodedSizeUnsafe lp p = Some n"
    "q = p + n + lpEncodeBacklenBytes n" "q < length lp" "lpDecodeBacklen lp (q - 1) = Some v"
    "(v + lpEncodeBacklenBytes n) mod 2 ^ 64 = n + lpEncodeBacklenBytes n"
  using assms by (force simp: lpValidateNext_def out_of_range_def Let_def add.assoc not_less split: if_splits bind_splits)

lemma validate_next_advances:
  assumes "lpValidateNext lp (Some p) (length lp) = Some (True, Some q)"
  shows "p < q" "q < length lp" "lpSkip lp p = Some q"
proof -
  obtain b n v where "lpCurrentEncodedSizeUnsafe lp p = Some n" "q = p + n + lpEncodeBacklenBytes n" "q < length lp"
    using assms by (rule validate_next_cases)
  then show "p < q" "q < length lp" "lpSkip lp p = Some q"
    using lpEncodeBacklenBytes_bounds(1) [of n] by (simp_all add: lpSkip_def)
qed

lemma validate_next_not_eof:
  "lpValidateNext lp (Some p) n = Some (True, None) \<Longrightarrow> peek lp p = Some LP_EOF"
  by (auto simp: lpValidateNext_def Let_def split: if_splits bind_splits)

lemma validate_loop_defined:
  "p < length lp \<Longrightarrow> length lp \<le> p + fuel \<Longrightarrow> \<exists>r. lpValidate_loop fuel lp (length lp) cb num (Some p) n = Some r"
proof (induction fuel arbitrary: p n)
  case (Suc fuel)
  obtain b where b: "peek lp p = Some b" using Suc.prems by (simp add: peek_def)
  obtain ok q where vn: "lpValidateNext lp (Some p) (length lp) = Some (ok, q)"
    using validate_next_defined [of lp p] by auto
  show ?case
  proof (cases "ok \<and> b \<noteq> LP_EOF")
    case True
    then obtain q' where q': "q = Some q'" using validate_next_not_eof [of lp p "length lp"] vn b by (cases q) auto
    then have "p < q'" "q' < length lp" using validate_next_advances [of lp p q'] vn True by auto
    then show ?thesis using Suc.IH [of q' "n + 1"] Suc.prems b vn q' by auto
  next
    case False
    then show ?thesis using b vn by auto
  qed
qed simp

text \<open>The 32-bit length of a string cannot make the size wrap in a valid entry: the byte where the short backward length
  would have to be is part of the length itself.\<close>

lemma four_bytes:
  assumes "get_bytes lp p 4 = Some bs"
  shows "bs = [lp ! p, lp ! (p + 1), lp ! (p + 2), lp ! (p + 3)]"
proof -
  have "p + 4 \<le> length lp" using assms by (auto simp: get_bytes_def split: if_splits)
  then show ?thesis using assms
    by (simp add: get_bytes_def take_Suc_conv_app_nth numeral_eq_Suc)
qed

lemma near_max_bytes:
  fixes w :: "byte list"
  assumes "w = [b0, b1, b2, b3]" "2 ^ 32 \<le> 5 + nat (le_unsigned w)"
  shows "251 \<le> unat b0" "unat b1 = 255" "unat b2 = 255" "unat b3 = 255"
proof -
  have u: "le_unsigned w = int (unat b0 + 256 * unat b1 + 65536 * unat b2 + 16777216 * unat b3)"
    using assms(1) by simp
  have n: "nat (le_unsigned w) = unat b0 + 256 * unat b1 + 65536 * unat b2 + 16777216 * unat b3"
    unfolding u by (rule nat_int)
  have "unat b0 < 256" "unat b1 < 256" "unat b2 < 256" "unat b3 < 256" by (rule unat_byte)+
  moreover have "4294967291 \<le> unat b0 + 256 * unat b1 + 65536 * unat b2 + 16777216 * unat b3"
    using assms(2) unfolding n by simp
  ultimately show "251 \<le> unat b0" "unat b1 = 255" "unat b2 = 255" "unat b3 = 255"
    by linarith+
qed

lemma low7_unat: "low7 b = unat b mod 128"
  using unat_and_mask [of b 7] by (simp add: low7_def mask_eq_exp_minus_1)

lemma long_string_no_wrap:
  assumes v: "lpValidateNext lp (Some p) (length lp) = Some (True, Some q)" and b: "peek lp p = Some b" "unat b = 240"
    and k: "LP_ENCODING_32BIT_STR_LEN lp p = Some k"
  shows "5 + k < 2 ^ 32"
proof (rule ccontr)
  assume wrap: "\<not> 5 + k < 2 ^ 32"
  obtain bs where bs: "get_bytes lp (p + 1) 4 = Some bs" "k = nat (le_unsigned bs)"
    using k by (auto simp: LP_ENCODING_32BIT_STR_LEN_def)
  have w: "bs = [lp ! (p + 1), lp ! (p + 2), lp ! (p + 3), lp ! (p + 4)]"
    using four_bytes [OF bs(1)] by (simp add: eval_nat_numeral)
  have "length bs = 4" using length_get_bytes [OF bs(1)] .
  then have small: "k < 2 ^ 32" using le_unsigned_bounds [of bs] bs(2) by (simp add: nat_less_iff)
  obtain n x where n: "lpCurrentEncodedSizeUnsafe lp p = Some n" "q = p + n + lpEncodeBacklenBytes n" "q < length lp"
      "lpDecodeBacklen lp (q - 1) = Some x" "(x + lpEncodeBacklenBytes n) mod 2 ^ 64 = n + lpEncodeBacklenBytes n"
    using v by (rule validate_next_cases)
  have "n = (5 + k) mod 2 ^ 32" using n(1) b k by (simp add: lpCurrentEncodedSizeUnsafe_def encoding_ranges)
  then have n': "n = 5 + k - 2 ^ 32" using wrap small by (simp add: mod_if)
  then have "n \<le> 4" using small by simp
  then have bl: "lpEncodeBacklenBytes n = 1" by (simp add: lpEncodeBacklenBytes_def)
  have last: "q - 1 = p + n" using n(2) bl by simp
  have "peek lp (q - 1) = Some (lp ! (p + n))" using n(3) last by (simp add: peek_def)
  then have "x mod 128 = low7 (lp ! (p + n)) \<or> x = 2 ^ 64 - 1" using decode_low [OF n(4)] by simp
  moreover have "x \<noteq> 2 ^ 64 - 1" using n(5) bl by auto
  moreover have "x mod 128 = n"
    using decode_bound [OF n(4)] \<open>x \<noteq> 2 ^ 64 - 1\<close> n(5) bl \<open>n \<le> 4\<close> by simp
  ultimately have low: "unat (lp ! (p + n)) mod 128 = n" by (simp add: low7_unat)
  have hi: "251 \<le> unat (lp ! (p + 1))" "unat (lp ! (p + 2)) = 255" "unat (lp ! (p + 3)) = 255" "unat (lp ! (p + 4)) = 255"
    using near_max_bytes [OF w] wrap bs(2) by simp_all
  have "lp ! p = b" using b(1) by (simp add: peek_def split: if_splits)
  moreover have "n = 0 \<or> n = 1 \<or> n = 2 \<or> n = 3 \<or> n = 4" using \<open>n \<le> 4\<close> by auto
  moreover have "unat (lp ! (p + 1)) - 128 < 128" using unat_byte [of "lp ! (p + 1)"] by linarith
  then have "123 \<le> unat (lp ! (p + 1)) mod 128" using hi(1) by (simp add: le_mod_geq)
  ultimately show False using low b(2) hi(2-4) by auto
qed

text \<open>A value lies inside the block.\<close>

definition inside :: "byte list \<Rightarrow> lp_value \<Rightarrow> bool" where
  "inside lp v \<longleftrightarrow> (case v of LP_STR ofs n \<Rightarrow> ofs + n < length lp | LP_INT _ \<Rightarrow> True)"

lemma valid_entry_readable:
  assumes v: "lpValidateNext lp (Some p) (length lp) = Some (True, Some q)"
  shows "\<exists>x. lpGetWithBuf lp p = Some x \<and> inside lp x"
proof -
  obtain b n where b: "peek lp p = Some b" "b \<noteq> LP_EOF" "lpCurrentEncodedSizeBytes b \<noteq> 0"
    and n: "p + lpCurrentEncodedSizeBytes b < length lp" "lpCurrentEncodedSizeUnsafe lp p = Some n"
      "q = p + n + lpEncodeBacklenBytes n" "q < length lp"
    using v by (rule validate_next_cases)
  have q: "p + n < length lp" using n(3,4) by simp
  note defs = lpGetWithBuf_def encoding_ranges inside_def
  consider "unat b < 128" | "128 \<le> unat b" "unat b < 192" | "192 \<le> unat b" "unat b < 224" | "224 \<le> unat b" "unat b < 240"
    | "unat b = 240" | "unat b = 241" | "unat b = 242" | "unat b = 243" | "unat b = 244"
    using b(2,3) by (force simp: lpCurrentEncodedSizeBytes_def encoding_ranges split: if_splits)
  then show ?thesis
  proof cases
    case 4
    then obtain k where "LP_ENCODING_12BIT_STR_LEN lp p = Some k" "n = 2 + k"
      using n(2) b by (auto simp: lpCurrentEncodedSizeUnsafe_def encoding_ranges)
    then show ?thesis using 4 b q by (simp add: defs)
  next
    case 5
    then obtain k where k: "LP_ENCODING_32BIT_STR_LEN lp p = Some k" "n = (5 + k) mod 2 ^ 32"
      using n(2) b by (auto simp: lpCurrentEncodedSizeUnsafe_def encoding_ranges)
    then have "n = 5 + k" using long_string_no_wrap [OF v b(1) 5 k(1)] by simp
    then show ?thesis using 5 b q k(1) by (simp add: defs)
  qed (use b n(2) q in \<open>simp_all add: defs lpCurrentEncodedSizeUnsafe_def load_def get_bytes_def peek_def\<close>)
qed

text \<open>A client that reads every element from the first to the last.\<close>

fun lp_walk :: "nat \<Rightarrow> byte list \<Rightarrow> nat option \<Rightarrow> lp_value list option" where
  "lp_walk fuel lp None = Some []"
| "lp_walk 0 lp (Some p) = None"
| "lp_walk (Suc fuel) lp (Some p) = do {
     v \<leftarrow> lpGetWithBuf lp p;
     q \<leftarrow> lpNext lp p;
     vs \<leftarrow> lp_walk fuel lp q;
     Some (v # vs)
   }"

lemma validated_walk:
  "lpValidate_loop fuel lp (length lp) cb num (Some p) n = Some (Some (e, m)) \<Longrightarrow> lpBytes lp = Some (length lp) \<Longrightarrow>
   p < length lp \<Longrightarrow> \<exists>vs. lp_walk fuel lp (if lp ! p = LP_EOF then None else Some p) = Some vs \<and>
     m = n + length vs \<and> (\<forall>v \<in> set vs. inside lp v) \<and>
     (lp ! p \<noteq> LP_EOF \<longrightarrow> lpAssertValidEntry lp (length lp) p = Some ())"
proof (induction fuel arbitrary: p n)
  case 0
  then show ?case by (auto simp: peek_def split: if_splits)
next
  case (Suc fuel)
  have b: "peek lp p = Some (lp ! p)" using Suc.prems(3) by (simp add: peek_def)
  show ?case
  proof (cases "lp ! p = LP_EOF")
    case True
    then show ?thesis using Suc.prems b by auto
  next
    case False
    then obtain q where v: "lpValidateNext lp (Some p) (length lp) = Some (True, q)"
      and rest: "lpValidate_loop fuel lp (length lp) cb num q (n + 1) = Some (Some (e, m))"
      using Suc.prems(1) b by (auto split: if_splits bind_splits)
    obtain q' where q': "q = Some q'" using validate_next_not_eof [of lp p "length lp"] v b False by (cases q) auto
    note adv = validate_next_advances [OF v [unfolded q']]
    obtain vs where vs: "lp_walk fuel lp (if lp ! q' = LP_EOF then None else Some q') = Some vs" "m = n + 1 + length vs"
      "\<forall>v \<in> set vs. inside lp v" "lp ! q' \<noteq> LP_EOF \<longrightarrow> lpAssertValidEntry lp (length lp) q' = Some ()"
      using Suc.IH [of q' "n + 1"] rest q' adv(2) Suc.prems(2) by blast
    have nxt: "lpNext lp p = Some (if lp ! q' = LP_EOF then None else Some q')"
      using adv vs(4) Suc.prems(2) by (simp add: lpNext_def peek_def)
    obtain x where "lpGetWithBuf lp p = Some x" "inside lp x" using valid_entry_readable [OF v [unfolded q']] by blast
    then show ?thesis using False nxt vs v by (simp add: lpAssertValidEntry_def)
  qed
qed

section \<open>Properties\<close>

text \<open>C4. Any sequence of insertions, replacements, deletions, range deletions, batches, searches and reads on a new
  listpack behaves as on a plain list of strings: no assertion fails, no byte outside the block is touched, integers are
  read back as their decimal text, and a change that would exceed the 32-bit size is refused and leaves the contents.\<close>

theorem listpack_run_refines:
  assumes "length buf = LP_INTBUF_SIZE"
  shows "\<exists>lp0 lp. lpNew junk capacity = Some lp0 \<and>
    run_cmds (lp_exec junk buf) lp0 cs = Some (lp, snd (run_spec lp_spec [] cs)) \<and>
    lp_rep lp (encs (fst (run_spec lp_spec [] cs)))"
proof -
  obtain lp0 where new: "lpNew junk capacity = Some lp0" "lp_rep lp0 []" using lpNew_rep by blast
  then have "str_rep buf lp0 []" using assms by (simp add: str_rep_def)
  from lps.run_simulates [OF this, of junk cs] show ?thesis using new(1) by (auto simp: str_rep_def)
qed

lemma encode_element_bound: "length (encode_element s) \<le> length s + 9"
proof (cases "lpStringToInt64 s")
  case None
  then show ?thesis by (simp add: encode_element_def lpEncodeGetType_def Let_def length_lpEncodeString str_header_def)
next
  case (Some v)
  then have "- (2 ^ 63) \<le> v" "v < 2 ^ 63" using lpStringToInt64_exact by auto
  from lpEncodeInteger_correct(2) [OF this] show ?thesis
    using Some by (simp add: encode_element_def lpEncodeGetType_def Let_def)
qed

lemma lp_put_small:
  assumes "(\<Sum>s\<leftarrow>ss'. length s + 14) < 2 ^ 31"
  shows "lp_put ss' ss = (ss', LR_Ok)"
proof -
  have "(\<Sum>s\<leftarrow>ss'. length (encode_element s) + lpEncodeBacklenBytes (length (encode_element s))) \<le> (\<Sum>s\<leftarrow>ss'. length s + 14)"
  proof (rule sum_list_mono)
    fix s
    show "length (encode_element s) + lpEncodeBacklenBytes (length (encode_element s)) \<le> length s + 14"
      using encode_element_bound [of s] lpEncodeBacklenBytes_bounds(2) [of "length (encode_element s)"] by simp
  qed
  then show ?thesis using assms by (simp add: lp_put_def lp_size_def LP_HDR_SIZE_def)
qed

theorem listpack_run_refines_witness:
  "\<exists>lp0 lp. lpNew (\<lambda>_. 0) 0 = Some lp0 \<and>
     run_cmds (lp_exec (\<lambda>_. 0) (replicate 21 CHR 0x00)) lp0
       [Lp_Append (AStr [97]), Lp_Prepend (AInt 5), Lp_Get (- 1), Lp_Delete 0, Lp_Length, Lp_Get 4] =
     Some (lp, [LR_Ok, LR_Ok, LR_Text ''a'', LR_Ok, LR_Count 1, LR_Missing])"
proof -
  have "arg_bytes (AInt 5) = [53]" "arg_bytes (AStr [97]) = [97]" "chars [97] = ''a''" by code_simp+
  then show ?thesis
    using listpack_run_refines [of "replicate 21 CHR 0x00" "\<lambda>_. 0" 0
        "[Lp_Append (AStr [97]), Lp_Prepend (AInt 5), Lp_Get (- 1), Lp_Delete 0, Lp_Length, Lp_Get 4]"]
    by (auto simp: LP_INTBUF_SIZE_def lp_put_small sel_def norm_index_def simp del: run_cmds.simps lp_exec.simps)
qed

text \<open>C5. Every listpack a sequence of commands builds is well formed in the sense of the code itself: shrunk to fit, it
  passes the deep integrity check.\<close>

theorem listpack_run_validates:
  assumes "length buf = LP_INTBUF_SIZE" "lpNew junk capacity = Some lp0" "run_cmds (lp_exec junk buf) lp0 cs = Some (lp, rs)"
  shows "\<exists>lp'. lpShrinkToFit junk lp = Some lp' \<and> lpValidateIntegrity lp' (length lp') True None = Some True"
proof -
  obtain lp0' where new: "lpNew junk capacity = Some lp0'" "lp_rep lp0' []" using lpNew_rep by blast
  then have "str_rep buf lp0 []" using assms(1,2) by (simp add: str_rep_def)
  from lps.run_simulates [OF this, of junk cs] obtain ss where "lp_rep lp (encs ss)"
    using assms(3) by (auto simp: str_rep_def)
  then obtain lp' where "lpShrinkToFit junk lp = Some lp'" "lp_rep lp' (encs ss)" "length lp' = off (encs ss) + 1"
    by (rule lpShrinkToFit_rep)
  then show ?thesis using validate_rep by blast
qed

text \<open>C7. The integrity check itself is safe on arbitrary bytes: whatever the block holds and whatever the callback
  answers, it ends without reading outside the block.\<close>

theorem lpValidateIntegrity_safe: "\<exists>r. lpValidateIntegrity lp (length lp) deep cb = Some r"
proof (cases "length lp < LP_HDR_SIZE + 1")
  case False
  then have len: "7 \<le> length lp" by (simp add: LP_HDR_SIZE_def)
  then obtain t num where "lpGetTotalBytes lp = Some t" "lpGetNumElements lp = Some num"
    by (auto simp: lpGetTotalBytes_def lpGetNumElements_def get_bytes_def)
  moreover have "peek lp (length lp - 1) = Some (lp ! (length lp - 1))" using len by (simp add: peek_def)
  moreover have "\<exists>r. lpValidate_loop (length lp) lp (length lp) cb num (Some LP_HDR_SIZE) 0 = Some r"
    using len by (intro validate_loop_defined) (simp_all add: LP_HDR_SIZE_def)
  ultimately show ?thesis
    using False by (auto simp: lpValidateIntegrity_def simp del: lpValidate_loop.simps split: option.splits)
qed (rule exI [of _ False], simp add: lpValidateIntegrity_def)

text \<open>C6. A listpack that passes the deep check can be read from its first to its last element: no step fails an
  assertion or leaves the block, every string lies inside the block, the walk ends, and it visits as many elements as
  the header says.\<close>

theorem lpValidateIntegrity_sound:
  assumes "lpValidateIntegrity lp (length lp) True cb = Some True"
  shows "\<exists>p vs num. lpFirst lp = Some p \<and> lp_walk (length lp) lp p = Some vs \<and> (\<forall>v \<in> set vs. inside lp v) \<and>
    lpGetNumElements lp = Some num \<and> (num = LP_HDR_NUMELE_UNKNOWN \<or> num = length vs)"
proof -
  obtain num e m where tot: "lpGetTotalBytes lp = Some (length lp)" "LP_HDR_SIZE < length lp"
    and num: "lpGetNumElements lp = Some num" "num = LP_HDR_NUMELE_UNKNOWN \<or> num = m"
    and loop: "lpValidate_loop (length lp) lp (length lp) cb num (Some LP_HDR_SIZE) 0 = Some (Some (e, m))"
    using assms
    by (auto simp: lpValidateIntegrity_def simp del: lpValidate_loop.simps split: if_splits bind_splits option.splits)
  obtain vs where vs: "lp_walk (length lp) lp (if lp ! LP_HDR_SIZE = LP_EOF then None else Some LP_HDR_SIZE) = Some vs"
    "m = length vs" "\<forall>v \<in> set vs. inside lp v"
    "lp ! LP_HDR_SIZE \<noteq> LP_EOF \<longrightarrow> lpAssertValidEntry lp (length lp) LP_HDR_SIZE = Some ()"
    using validated_walk [OF loop] tot by (auto simp: lpBytes_def)
  have "lpFirst lp = Some (if lp ! LP_HDR_SIZE = LP_EOF then None else Some LP_HDR_SIZE)"
    using tot vs(4) by (simp add: lpFirst_def lpBytes_def peek_def)
  then show ?thesis using vs num by blast
qed

definition two_entries :: "byte list" where
  "two_entries = [12, 0, 0, 0, 2, 0, 0x81, 97, 2, 7, 1, 0xFF]"

theorem listpack_run_validates_witness:
  "\<exists>lp'. lpShrinkToFit (\<lambda>_. 0) (header 7 0 @ [LP_EOF, 0, 0]) = Some lp' \<and> lpValidateIntegrity lp' (length lp') True None = Some True"
proof -
  have "lpNew (\<lambda>_. 0) 9 = Some (header 7 0 @ [LP_EOF, 0, 0])" by code_simp
  from listpack_run_validates [OF _ this, of "replicate 21 CHR 0x00" "[]"] show ?thesis
    by (simp add: LP_INTBUF_SIZE_def)
qed

theorem lpValidateIntegrity_sound_witness:
  "\<exists>p vs num. lpFirst two_entries = Some p \<and> lp_walk (length two_entries) two_entries p = Some vs \<and>
     (\<forall>v \<in> set vs. inside two_entries v) \<and> lpGetNumElements two_entries = Some num \<and>
     (num = LP_HDR_NUMELE_UNKNOWN \<or> num = length vs)"
proof -
  have "header 12 2 = [12, 0, 0, 0, 2, 0]" by code_simp
  moreover have "body [[0x81, 97], [7]] = [0x81, 97, 2, 7, 1]" by (simp add: entry_def lpEncodeBacklen_def)
  moreover have "valid_enc [0x81, 97]" "valid_enc [7]" by (simp_all add: size_defs peek_def LP_ENCODING_6BIT_STR_LEN_def)
  ultimately have "lp_rep two_entries [[0x81, 97], [7]]"
    by (intro lp_repI [of _ _ 2 "[]"]) (simp_all add: two_entries_def off_def LP_HDR_SIZE_def LP_HDR_NUMELE_UNKNOWN_def LP_EOF_def)
  then have "lpValidateIntegrity two_entries (length two_entries) True None = Some True"
    by (rule validate_rep) (simp add: two_entries_def off_def entry_def lpEncodeBacklen_def LP_HDR_SIZE_def)
  then show ?thesis by (rule lpValidateIntegrity_sound)
qed

text \<open>C8. Reading an element that was inserted as a string gives the string back, whichever of the encodings the code
  chose for it.\<close>

theorem listpack_text_roundtrip:
  assumes "lp_rep lp (encs ss)" "lpAppend junk lp s = Some (Some (lp', Some p))" "length buf = LP_INTBUF_SIZE"
  shows "lpGet_text buf lp' p = Some (chars s)"
proof -
  have out: "outcome (lpAppend junk lp s) (encs ss @ [encode_element s]) (Some (off (encs ss)))"
    using lpAppend_rep [OF assms(1)] .
  then have "lp_rep lp' (encs ss @ encode_element s # [])" "p = off (encs ss)"
    using assms(2) by (auto simp: outcome_def split: if_splits)
  then show ?thesis using lpGet_text_rep [of lp' ss s "[]"] assms(3) by simp
qed

theorem listpack_text_roundtrip_witness:
  "\<exists>lp' p. lpAppend (\<lambda>_. 0) (header 7 0 @ [LP_EOF]) [97] = Some (Some (lp', Some p)) \<and>
     lpGet_text (replicate 21 CHR 0x00) lp' p = Some ''a''"
proof -
  have rep: "lp_rep (header 7 0 @ [LP_EOF]) (encs [])"
    by (rule lp_repI [of _ _ 0 "[]"]) (simp_all add: LP_HDR_SIZE_def)
  have "off (encs [] @ [encode_element [97]]) + 1 < 2 ^ 32"
    using encode_element_bound [of "[97]"] lpEncodeBacklenBytes_bounds(2) [of "length (encode_element [97])"]
    by (simp add: off_def LP_HDR_SIZE_def length_entry)
  then obtain lp' p where "lpAppend (\<lambda>_. 0) (header 7 0 @ [LP_EOF]) [97] = Some (Some (lp', Some p))"
    using lpAppend_rep [OF rep, of "\<lambda>_. 0" "[97]"] by (auto simp: outcome_def)
  moreover have "chars [97] = ''a''" by code_simp
  ultimately show ?thesis
    using listpack_text_roundtrip [OF rep, of "\<lambda>_. 0" "[97]" lp' p "replicate 21 CHR 0x00"] by (simp add: LP_INTBUF_SIZE_def)
qed

definition run_on_backlen :: "byte list" where
  "run_on_backlen = [9, 0, 0, 0, 1, 0, 0x80, 0x81, 0xFF]"

lemma run_on_backlen_next:
  "peek run_on_backlen 6 = Some 0x80" "peek run_on_backlen 8 = Some LP_EOF"
  "lpGetTotalBytes run_on_backlen = Some 9" "lpGetNumElements run_on_backlen = Some 1"
  "lpValidateNext run_on_backlen (Some 6) 9 = Some (True, Some 8)"
proof -
  have peek: "peek run_on_backlen 6 = Some 0x80" "peek run_on_backlen 8 = Some LP_EOF"
    by (simp_all add: peek_def run_on_backlen_def LP_EOF_def)
  have hdr: "lpGetTotalBytes run_on_backlen = Some 9" "lpGetNumElements run_on_backlen = Some 1" by code_simp+
  have sz: "lpCurrentEncodedSizeUnsafe run_on_backlen 6 = Some 1" "lpCurrentEncodedSizeBytes 0x80 = 1"
    using peek by (simp_all add: lpCurrentEncodedSizeUnsafe_def lpCurrentEncodedSizeBytes_def encoding_ranges LP_ENCODING_6BIT_STR_LEN_def)
  have dec: "lpDecodeBacklen run_on_backlen 7 = Some 1"
    by (simp add: lpDecodeBacklen_def peek_back_def peek_def run_on_backlen_def low7_def Listpack_Codec.more_def)
  have bl: "lpEncodeBacklenBytes 1 = 1" by (simp add: lpEncodeBacklenBytes_def)
  have nxt: "lpValidateNext run_on_backlen (Some 6) 9 = Some (True, Some 8)"
    using peek sz dec bl by (simp add: lpValidateNext_def out_of_range_def LP_HDR_SIZE_def LP_EOF_def)
  show "peek run_on_backlen 6 = Some 0x80" "peek run_on_backlen 8 = Some LP_EOF"
    "lpGetTotalBytes run_on_backlen = Some 9" "lpGetNumElements run_on_backlen = Some 1"
    "lpValidateNext run_on_backlen (Some 6) 9 = Some (True, Some 8)"
    by (rule peek hdr nxt)+
qed

lemma run_on_backlen_valid: "lpValidateIntegrity run_on_backlen (length run_on_backlen) True None = Some True"
proof -
  have "length run_on_backlen = Suc (Suc 7)" by (simp add: run_on_backlen_def)
  moreover have "lpValidate_loop (Suc (Suc 7)) run_on_backlen 9 None 1 (Some 6) 0 = Some (Some (Some 8, 1))"
    using run_on_backlen_next by (simp add: LP_EOF_def)
  ultimately show ?thesis
    using run_on_backlen_next by (simp add: lpValidateIntegrity_def LP_HDR_SIZE_def del: lpValidate_loop.simps)
qed

text \<open>C38. The deep check accepts a listpack whose backward length runs into the bytes before its entry; the listpack is
  then not safe to edit: after one insertion at the front, asking for the last element fails an assertion.\<close>

theorem lpValidate_misses_backlen:
  "lpValidateIntegrity run_on_backlen (length run_on_backlen) True None = Some True \<and>
   (\<exists>lp. lpPrepend (\<lambda>_. 0) run_on_backlen [97] = Some (Some (lp, Some LP_HDR_SIZE)) \<and> lpLast lp = None)"
proof -
  note hdr = run_on_backlen_next(3,4) and peek = run_on_backlen_next(1,2) and nxt = run_on_backlen_next(5)
  define lp where "lp = [12, 0, 0, 0, 2, 0, 0x81, 97, 2, 0x80, 0x81, 0xFF :: byte]"
  have enc: "lpInsert_bytes (ELE_STR [97]) = ([0x81, 97], 2)" by code_simp
  have le: "le_bytes 4 12 = [12, 0, 0, 0]" "le_bytes 2 2 = [2, 0]" "le_unsigned [1, 0] = 1" by code_simp+
  have "lpInsert_splice (\<lambda>_. 0) run_on_backlen False LP_BEFORE 6 [0x81, 97] 2 [2] 0 9 = Some (Some (lp, Some 6))"
    by (simp add: lpInsert_splice_def memmove_def get_bytes_def put_bytes_def run_on_backlen_def realloc_def peek_def
        lpGetNumElements_def lpSetNumElements_def lpSetTotalBytes_def LP_HDR_NUMELE_UNKNOWN_def le lp_def)
  then have "lpInsert (\<lambda>_. 0) run_on_backlen (ELE_STR [97]) 6 LP_BEFORE = Some (Some (lp, Some 6))"
    using hdr enc by (simp add: lpInsert_def lpEncodeBacklen_def)
  then have "lpPrepend (\<lambda>_. 0) run_on_backlen [97] = Some (Some (lp, Some LP_HDR_SIZE))"
    using hdr peek nxt by (simp add: lpPrepend_def lpFirst_def lpBytes_def lpAssertValidEntry_def LP_HDR_SIZE_def LP_EOF_def)
  moreover have "lpLast lp = None"
  proof -
    have "lpDecodeBacklen lp 10 = Some 32769"
      by (simp add: lpDecodeBacklen_def peek_back_def peek_def lp_def low7_def Listpack_Codec.more_def)
    moreover have "lpGetTotalBytes lp = Some 12" unfolding lp_def by code_simp
    ultimately show ?thesis by (simp add: lpLast_def lpPrev_def LP_HDR_SIZE_def lpEncodeBacklenBytes_def)
  qed
  ultimately show ?thesis using run_on_backlen_valid by blast
qed

end
