(* ===== verification/Lzf.thy ===== *)
theory Lzf
  imports Redis_Prelude
begin

text \<open>
  The LZF compressor and decompressor of \<open>lzf_c.c\<close> and \<open>lzf_d.c\<close>, with the configuration of \<open>lzfP.h\<close>
  (\<open>HLOG\<close> 16, \<open>VERY_FAST\<close>, no initialisation of the hash table, input checks).  Pointers are offsets from the start of
  their buffer.  The table of the compressor is not initialised, so its contents are a parameter: every slot holds the
  null pointer or any address, given as a signed distance from the input.  A read or write outside a buffer makes the
  result \<open>None\<close>.
\<close>

section \<open>Compression\<close>

definition HLOG :: nat where "HLOG = 16"
definition MAX_LIT :: nat where "MAX_LIT = 32"
definition MAX_OFF :: nat where "MAX_OFF = 8192"
definition MAX_REF :: nat where "MAX_REF = 264"

definition rd_byte :: "byte list \<Rightarrow> nat \<Rightarrow> byte option" where
  "rd_byte m p = (if p < length m then Some (m ! p) else None)"

definition wr_byte :: "byte list \<Rightarrow> nat \<Rightarrow> byte \<Rightarrow> byte list option" where
  "wr_byte m p b = (if p < length m then Some (m[p := b]) else None)"

definition FRST :: "byte list \<Rightarrow> nat \<Rightarrow> u32 option" where
  "FRST inp p = do { b0 \<leftarrow> rd_byte inp p; b1 \<leftarrow> rd_byte inp (p + 1); Some (push_bit 8 (ucast b0) OR ucast b1) }"

definition NEXT :: "u32 \<Rightarrow> byte list \<Rightarrow> nat \<Rightarrow> u32 option" where
  "NEXT v inp p = do { b2 \<leftarrow> rd_byte inp (p + 2); Some (push_bit 8 v OR ucast b2) }"

definition IDX :: "u32 \<Rightarrow> nat" where
  "IDX h = unat ((drop_bit (3 * 8 - HLOG) h - h * 5) AND (push_bit HLOG 1 - 1))"

record lzf_state =
  lz_ip :: nat
  lz_op :: nat
  lz_lit :: nat
  lz_hval :: u32
  lz_htab :: "nat \<Rightarrow> int option"
  lz_out :: "byte list"

definition lzf_store :: "byte list \<Rightarrow> lzf_state \<Rightarrow> (lzf_state \<times> int option) option" where
  "lzf_store inp s = do {
     h \<leftarrow> NEXT (lz_hval s) inp (lz_ip s);
     Some (s\<lparr>lz_hval := h, lz_htab := (lz_htab s)(IDX h := Some (int (lz_ip s)))\<rparr>, lz_htab s (IDX h))
   }"

text \<open>The test for a match.  The offset is a \<open>size_t\<close>, so a reference at or after \<open>ip\<close> gives a large value.\<close>

definition lzf_off :: "nat \<Rightarrow> int \<Rightarrow> nat" where
  "lzf_off p ref = nat ((int p - ref - 1) mod 2 ^ 64)"

definition lzf_match :: "byte list \<Rightarrow> nat \<Rightarrow> int option \<Rightarrow> bool option" where
  "lzf_match inp p ref =
     (case ref of
        None \<Rightarrow> Some False
      | Some r \<Rightarrow>
          if lzf_off p r < MAX_OFF \<and> r > 0
          then do {
            r2 \<leftarrow> rd_byte inp (nat r + 2); p2 \<leftarrow> rd_byte inp (p + 2);
            if r2 \<noteq> p2 then Some False
            else do {
              r0 \<leftarrow> rd_byte inp (nat r); r1 \<leftarrow> rd_byte inp (nat r + 1); p0 \<leftarrow> rd_byte inp p; p1 \<leftarrow> rd_byte inp (p + 1);
              Some (r0 = p0 \<and> r1 = p1)
            }
          }
          else Some False)"

text \<open>The unrolled comparisons: the result says whether all of them succeeded.\<close>

fun lzf_probe :: "nat \<Rightarrow> byte list \<Rightarrow> nat \<Rightarrow> nat \<Rightarrow> nat \<Rightarrow> (nat \<times> bool) option" where
  "lzf_probe 0 inp ref p len = Some (len, True)"
| "lzf_probe (Suc n) inp ref p len = do {
     a \<leftarrow> rd_byte inp (ref + (len + 1)); b \<leftarrow> rd_byte inp (p + (len + 1));
     if a \<noteq> b then Some (len + 1, False) else lzf_probe n inp ref p (len + 1)
   }"

partial_function (option) lzf_scan :: "byte list \<Rightarrow> nat \<Rightarrow> nat \<Rightarrow> nat \<Rightarrow> nat \<Rightarrow> nat option" where
  "lzf_scan inp ref p maxlen len =
     (if len + 1 < maxlen
      then do {
        a \<leftarrow> rd_byte inp (ref + (len + 1)); b \<leftarrow> rd_byte inp (p + (len + 1));
        if a = b then lzf_scan inp ref p maxlen (len + 1) else Some (len + 1)
      }
      else Some (len + 1))"

definition lzf_length :: "byte list \<Rightarrow> nat \<Rightarrow> nat \<Rightarrow> nat option" where
  "lzf_length inp ref p = do {
     let maxlen = length inp - p - 2;
     let maxlen = (if maxlen > MAX_REF then MAX_REF else maxlen);
     (len, go) \<leftarrow> (if maxlen > 16 then lzf_probe 16 inp ref p 2 else Some (2, True));
     if go then lzf_scan inp ref p maxlen len else Some len
   }"

text \<open>A match: close the literal run, write the reference and open a new run.  \<open>Inl\<close> is the return of 0 when the
  output is full.\<close>

definition lzf_emit :: "byte list \<Rightarrow> lzf_state \<Rightarrow> nat \<Rightarrow> nat \<Rightarrow> (byte list + lzf_state) option" where
  "lzf_emit inp s ref ofs =
     (let undo = (if lz_lit s = 0 then 1 else 0) in
      if lz_op s + 3 + 1 \<ge> length (lz_out s) \<and> lz_op s - undo + 3 + 1 \<ge> length (lz_out s) then Some (Inl (lz_out s))
      else do {
        m \<leftarrow> (if lz_op s \<ge> lz_lit s + 1 then wr_byte (lz_out s) (lz_op s - lz_lit s - 1) (of_int (int (lz_lit s) - 1)) else None);
        let p = lz_op s - undo;
        len \<leftarrow> lzf_length inp ref (lz_ip s);
        let len = len - 2;
        (m, p) \<leftarrow>
          (if len < 7
           then do { m \<leftarrow> wr_byte m p (of_nat (ofs div 256 + len * 32)); Some (m, p + 1) }
           else do {
             m \<leftarrow> wr_byte m p (of_nat (ofs div 256 + 7 * 32));
             m \<leftarrow> wr_byte m (p + 1) (of_nat (len - 7));
             Some (m, p + 2)
           });
        m \<leftarrow> wr_byte m p (of_nat ofs);
        Some (Inr (s\<lparr>lz_out := m, lz_lit := 0, lz_op := p + 2, lz_ip := lz_ip s + 1 + (len + 1)\<rparr>))
      })"

text \<open>After a match, two positions are entered into the table.\<close>

definition lzf_rehash :: "byte list \<Rightarrow> lzf_state \<Rightarrow> lzf_state option" where
  "lzf_rehash inp s =
     (if lz_ip s < 2 then None
      else do {
        let s = s\<lparr>lz_ip := lz_ip s - 2\<rparr>;
        h \<leftarrow> FRST inp (lz_ip s);
        (s, _) \<leftarrow> lzf_store inp (s\<lparr>lz_hval := h\<rparr>);
        let s = s\<lparr>lz_ip := lz_ip s + 1\<rparr>;
        (s, _) \<leftarrow> lzf_store inp s;
        Some (s\<lparr>lz_ip := lz_ip s + 1\<rparr>)
      })"

text \<open>Copy one literal byte; a full run is closed.\<close>

definition lzf_literal :: "byte list \<Rightarrow> lzf_state \<Rightarrow> lzf_state option" where
  "lzf_literal inp s = do {
     b \<leftarrow> rd_byte inp (lz_ip s);
     m \<leftarrow> wr_byte (lz_out s) (lz_op s) b;
     let s = s\<lparr>lz_lit := lz_lit s + 1, lz_op := lz_op s + 1, lz_ip := lz_ip s + 1, lz_out := m\<rparr>;
     if lz_lit s = MAX_LIT
     then do {
       m \<leftarrow> (if lz_op s \<ge> lz_lit s + 1 then wr_byte (lz_out s) (lz_op s - lz_lit s - 1) (of_int (int (lz_lit s) - 1)) else None);
       Some (s\<lparr>lz_out := m, lz_lit := 0, lz_op := lz_op s + 1\<rparr>)
     }
     else Some s
   }"

partial_function (option) lzf_loop :: "byte list \<Rightarrow> lzf_state \<Rightarrow> (byte list + lzf_state) option" where
  "lzf_loop inp s =
     (if \<not> lz_ip s + 2 < length inp then Some (Inr s)
      else do {
        (s, ref) \<leftarrow> lzf_store inp s;
        m \<leftarrow> lzf_match inp (lz_ip s) ref;
        if m
        then do {
          r \<leftarrow> lzf_emit inp s (nat (the ref)) (lzf_off (lz_ip s) (the ref));
          case r of
            Inl buf \<Rightarrow> Some (Inl buf)
          | Inr s \<Rightarrow>
              if lz_ip s + 2 \<ge> length inp then Some (Inr s)
              else do { s \<leftarrow> lzf_rehash inp s; lzf_loop inp s }
        }
        else if lz_op s \<ge> length (lz_out s) then Some (Inl (lz_out s))
        else do { s \<leftarrow> lzf_literal inp s; lzf_loop inp s }
      })"

partial_function (option) lzf_tail :: "byte list \<Rightarrow> lzf_state \<Rightarrow> lzf_state option" where
  "lzf_tail inp s = (if lz_ip s < length inp then do { s \<leftarrow> lzf_literal inp s; lzf_tail inp s } else Some s)"

text \<open>The result is the output buffer and the number of bytes used, 0 when the output does not fit.\<close>

definition lzf_compress :: "(nat \<Rightarrow> int option) \<Rightarrow> byte list \<Rightarrow> byte list \<Rightarrow> (byte list \<times> nat) option" where
  "lzf_compress tab inp buf =
     (if inp = [] \<or> buf = [] then Some (buf, 0)
      else do {
        h \<leftarrow> FRST inp 0;
        r \<leftarrow> lzf_loop inp \<lparr>lz_ip = 0, lz_op = 1, lz_lit = 0, lz_hval = h, lz_htab = tab, lz_out = buf\<rparr>;
        case r of
          Inl buf \<Rightarrow> Some (buf, 0)
        | Inr s \<Rightarrow>
            if lz_op s + 3 > length (lz_out s) then Some (lz_out s, 0)
            else do {
              s \<leftarrow> lzf_tail inp s;
              m \<leftarrow> (if lz_op s \<ge> lz_lit s + 1 then wr_byte (lz_out s) (lz_op s - lz_lit s - 1) (of_int (int (lz_lit s) - 1)) else None);
              Some (m, lz_op s - (if lz_lit s = 0 then 1 else 0))
            }
      })"

section \<open>Decompression\<close>

datatype lzf_result = LZF_E2BIG | LZF_EINVAL | LZF_DONE "byte list" nat

text \<open>Copying byte by byte inside the output.\<close>

fun lzf_copy :: "nat \<Rightarrow> byte list \<Rightarrow> nat \<Rightarrow> nat \<Rightarrow> byte list option" where
  "lzf_copy 0 m p ref = Some m"
| "lzf_copy (Suc n) m p ref = do { b \<leftarrow> rd_byte m ref; m \<leftarrow> wr_byte m p b; lzf_copy n m (p + 1) (ref + 1) }"

text \<open>The end of a back reference, from its last byte: the check of the room and of the start, and the copy.\<close>

definition lzf_backref ::
  "byte list \<Rightarrow> nat \<Rightarrow> byte list \<Rightarrow> nat \<Rightarrow> int \<Rightarrow> nat \<Rightarrow> (lzf_result + nat \<times> byte list \<times> nat) option" where
  "lzf_backref inp i m p ref len = do {
     b \<leftarrow> rd_byte inp i;
     let ref = ref - int (unat b);
     if p + len + 2 > length m then Some (Inl LZF_E2BIG)
     else if ref < 0 then Some (Inl LZF_EINVAL)
     else do {
       m \<leftarrow> (if len > 9 \<and> int p \<ge> ref + int (len + 2)
            then do { bs \<leftarrow> get_bytes m (nat ref) (len + 2); put_bytes m p bs }
            else lzf_copy (len + 2) m p (nat ref));
       Some (Inr (i + 1, m, p + len + 2))
     }
   }"

partial_function (option) lzf_decompress_loop :: "byte list \<Rightarrow> nat \<Rightarrow> byte list \<Rightarrow> nat \<Rightarrow> lzf_result option" where
  "lzf_decompress_loop inp i m p =
     (if \<not> i < length inp then Some (LZF_DONE m p)
      else do {
        c \<leftarrow> rd_byte inp i;
        let ctrl = unat c;
        let i = i + 1;
        if ctrl < 32
        then do {
          let ctrl = ctrl + 1;
          if p + ctrl > length m then Some LZF_E2BIG
          else if i + ctrl > length inp then Some LZF_EINVAL
          else do {
            bs \<leftarrow> get_bytes inp i ctrl;
            m \<leftarrow> put_bytes m p bs;
            lzf_decompress_loop inp (i + ctrl) m (p + ctrl)
          }
        }
        else do {
          let len = ctrl div 32;
          let ref = int p - int (ctrl mod 32) * 256 - 1;
          if i \<ge> length inp then Some LZF_EINVAL
          else do {
            (len, i) \<leftarrow> (if len = 7 then do { b \<leftarrow> rd_byte inp i; Some (len + unat b, i + 1) } else Some (len, i));
            if ctrl div 32 = 7 \<and> i \<ge> length inp then Some LZF_EINVAL
            else do {
              r \<leftarrow> lzf_backref inp i m p ref len;
              case r of
                Inl err \<Rightarrow> Some err
              | Inr (i, m, p) \<Rightarrow> lzf_decompress_loop inp i m p
            }
          }
        }
      })"

definition lzf_decompress :: "byte list \<Rightarrow> byte list \<Rightarrow> lzf_result option" where
  "lzf_decompress inp buf = lzf_decompress_loop inp 0 buf 0"

section \<open>The format\<close>

text \<open>A compressed stream is a sequence of literal runs and references; a reference repeats \<open>n\<close> bytes that start
  \<open>ofs + 1\<close> bytes before the end of what was written so far, and may overlap itself.\<close>

datatype tok = Lit "byte list" | Ref nat nat

fun ext :: "nat \<Rightarrow> nat \<Rightarrow> byte list \<Rightarrow> byte list" where
  "ext 0 ofs acc = acc"
| "ext (Suc n) ofs acc = ext n ofs (acc @ [acc ! (length acc - ofs - 1)])"

fun apply_tok :: "byte list \<Rightarrow> tok \<Rightarrow> byte list" where
  "apply_tok acc (Lit bs) = acc @ bs"
| "apply_tok acc (Ref ofs n) = ext n ofs acc"

fun tok_ok :: "byte list \<Rightarrow> tok \<Rightarrow> bool" where
  "tok_ok acc (Lit bs) \<longleftrightarrow> 1 \<le> length bs \<and> length bs \<le> 32"
| "tok_ok acc (Ref ofs n) \<longleftrightarrow> ofs < 8192 \<and> ofs < length acc \<and> 3 \<le> n \<and> n \<le> 264"

fun enc_tok :: "tok \<Rightarrow> byte list" where
  "enc_tok (Lit bs) = of_nat (length bs - 1) # bs"
| "enc_tok (Ref ofs n) =
     (if n < 9 then [of_nat (ofs div 256 + (n - 2) * 32), of_nat ofs]
      else [of_nat (ofs div 256 + 7 * 32), of_nat (n - 9), of_nat ofs])"

fun expand :: "tok list \<Rightarrow> byte list \<Rightarrow> byte list option" where
  "expand [] acc = Some acc"
| "expand (t # ts) acc = (if tok_ok acc t then expand ts (apply_tok acc t) else None)"

definition stream :: "tok list \<Rightarrow> byte list" where
  "stream ts = concat (map enc_tok ts)"

lemma expand_append: "expand (ts @ us) acc = do { acc \<leftarrow> expand ts acc; expand us acc }"
  by (induction ts arbitrary: acc) auto

lemma stream_simps [simp]: "stream [] = []" "stream (t # ts) = enc_tok t @ stream ts" "stream (ts @ us) = stream ts @ stream us"
  by (simp_all add: stream_def)

lemma length_ext [simp]: "length (ext n ofs acc) = length acc + n"
  by (induction n ofs acc rule: ext.induct) simp_all

lemma expand_length: "expand ts acc = Some xs \<Longrightarrow> length acc \<le> length xs"
proof (induction ts arbitrary: acc)
  case (Cons t ts)
  then have "expand ts (apply_tok acc t) = Some xs" by (auto split: if_splits)
  then have "length (apply_tok acc t) \<le> length xs" by (rule Cons.IH)
  then show ?case by (cases t) simp_all
qed simp

section \<open>Decompression follows the format\<close>

lemma lzf_copy_ext:
  "n \<le> length rest \<Longrightarrow> ofs < length acc \<Longrightarrow>
   lzf_copy n (acc @ rest) (length acc) (length acc - ofs - 1) = Some (ext n ofs acc @ drop n rest)"
proof (induction n arbitrary: acc rest)
  case (Suc n)
  then obtain r rs where rest: "rest = r # rs" by (cases rest) auto
  define b where "b = acc ! (length acc - ofs - 1)"
  have "rd_byte (acc @ rest) (length acc - ofs - 1) = Some b"
    using Suc.prems(2) by (auto simp: rd_byte_def b_def nth_append)
  moreover have "wr_byte (acc @ rest) (length acc) b = Some ((acc @ [b]) @ rs)" by (simp add: wr_byte_def rest)
  moreover have "length acc - ofs - 1 + 1 = length (acc @ [b]) - ofs - 1" using Suc.prems(2) by simp
  ultimately show ?case
    using Suc.IH [of rs "acc @ [b]"] Suc.prems by (simp add: rest b_def)
qed simp

lemma ext_disjoint:
  "n \<le> ofs + 1 \<Longrightarrow> ofs < length acc \<Longrightarrow> ext n ofs acc = acc @ take n (drop (length acc - ofs - 1) acc)"
proof (induction n arbitrary: acc ofs)
  case (Suc n)
  define b where "b = acc ! (length acc - ofs - 1)"
  have i: "length acc - ofs - 1 < length acc" using Suc.prems(2) by simp
  have "ext n ofs (acc @ [b]) = (acc @ [b]) @ take n (drop (length (acc @ [b]) - ofs - 1) (acc @ [b]))"
    using Suc.prems by (intro Suc.IH) simp_all
  also have "drop (length (acc @ [b]) - ofs - 1) (acc @ [b]) = drop (Suc (length acc - ofs - 1)) acc @ [b]"
    using Suc.prems(2) by (simp add: Suc_diff_Suc)
  also have "take n (drop (Suc (length acc - ofs - 1)) acc @ [b]) = take n (drop (Suc (length acc - ofs - 1)) acc)"
    using Suc.prems by simp
  also have "(acc @ [b]) @ take n (drop (Suc (length acc - ofs - 1)) acc) = acc @ take (Suc n) (drop (length acc - ofs - 1) acc)"
    using Cons_nth_drop_Suc [OF i] by (metis append.assoc append_Cons append_Nil b_def take_Suc_Cons)
  finally show ?case by (simp add: b_def)
qed simp

text \<open>Both ways of copying a reference give its expansion.\<close>

lemma lzf_copy_ref:
  assumes "n \<le> length rest" "ofs < length acc" and ref: "ref = int (length acc) - int ofs - 1"
  shows "(if c \<and> int (length acc) \<ge> ref + int n
      then do { bs \<leftarrow> get_bytes (acc @ rest) (nat ref) n; put_bytes (acc @ rest) (length acc) bs }
      else lzf_copy n (acc @ rest) (length acc) (nat ref)) = Some (ext n ofs acc @ drop n rest)"
proof -
  have r: "nat ref = length acc - ofs - 1" using assms by auto
  show ?thesis
  proof (cases "int (length acc) \<ge> ref + int n")
    case True
    then have n: "n \<le> ofs + 1" using ref by simp
    then have "get_bytes (acc @ rest) (nat ref) n = Some (take n (drop (length acc - ofs - 1) acc))"
      using assms(2) unfolding r by (auto simp: get_bytes_def)
    moreover have "length (take n (drop (length acc - ofs - 1) acc)) = n" using n assms(2) by simp
    ultimately have "do { bs \<leftarrow> get_bytes (acc @ rest) (nat ref) n; put_bytes (acc @ rest) (length acc) bs }
        = Some (ext n ofs acc @ drop n rest)"
      using assms(1) n assms(2) by (simp add: put_bytes_def ext_disjoint)
    then show ?thesis using lzf_copy_ext [OF assms(1,2)] r by simp
  next
    case False
    then show ?thesis using lzf_copy_ext [OF assms(1,2)] r by simp
  qed
qed

lemma unat_byte_small: "n < 256 \<Longrightarrow> unat (of_nat n :: byte) = n"
  by (simp add: unat_of_nat)

lemma unat_byte_mod: "unat (of_nat n :: byte) = n mod 256"
  by (simp add: unat_of_nat)

lemma rd_at: "rd_byte (pre @ b # post) (length pre) = Some b"
  by (simp add: rd_byte_def)

lemma decompress_lit:
  assumes "tok_ok acc (Lit bs)" "length bs \<le> length rest"
  shows "lzf_decompress_loop (pre @ enc_tok (Lit bs) @ post) (length pre) (acc @ rest) (length acc) =
    lzf_decompress_loop (pre @ enc_tok (Lit bs) @ post) (length (pre @ enc_tok (Lit bs)))
      ((acc @ bs) @ drop (length bs) rest) (length (acc @ bs))"
proof -
  define c where "c = (of_nat (length bs - 1) :: byte)"
  have c: "unat c = length bs - 1" "unat c < 32" "unat c + 1 = length bs"
    using assms(1) unat_byte_small [of "length bs - 1"] by (auto simp: c_def)
  have get: "get_bytes (pre @ c # bs @ post) (length pre + 1) (length bs) = Some bs" by (simp add: get_bytes_def)
  have put: "put_bytes (acc @ rest) (length acc) bs = Some ((acc @ bs) @ drop (length bs) rest)"
    using assms(2) by (simp add: put_bytes_def)
  have e: "enc_tok (Lit bs) = c # bs" by (simp only: enc_tok.simps c_def)
  show ?thesis
    unfolding e using c(2,3) get put assms(2)
    by (subst lzf_decompress_loop.simps) (simp add: rd_at Let_def)
qed

lemma ctrl_byte:
  assumes "ofs < 8192" "k \<le> 7"
  shows "unat (of_nat (ofs div 256 + k * 32) :: byte) div 32 = k" "unat (of_nat (ofs div 256 + k * 32) :: byte) mod 32 = ofs div 256"
proof -
  have d: "ofs div 256 < 32" using assms(1) by auto
  have "ofs div 256 + k * 32 < 256" using d assms(2) by linarith
  then have u: "unat (of_nat (ofs div 256 + k * 32) :: byte) = ofs div 256 + k * 32" by (rule unat_byte_small)
  show "unat (of_nat (ofs div 256 + k * 32) :: byte) div 32 = k"
    unfolding u using d by (simp add: div_mult_self3)
  show "unat (of_nat (ofs div 256 + k * 32) :: byte) mod 32 = ofs div 256"
    unfolding u using d by simp
qed

lemma lzf_backref_ext:
  assumes ok: "tok_ok acc (Ref ofs n)" and room: "n \<le> length rest" and len: "len + 2 = n"
    and i: "rd_byte inp i = Some (of_nat ofs)"
  shows "lzf_backref inp i (acc @ rest) (length acc) (int (length acc) - int (ofs div 256) * 256 - 1) len =
    Some (Inr (i + 1, ext n ofs acc @ drop n rest, length (ext n ofs acc)))"
proof -
  define ref where "ref = int (length acc) - int (ofs div 256) * 256 - 1 - int (unat (of_nat ofs :: byte))"
  have ofs: "ofs < length acc" using ok by simp
  have "int (ofs div 256) * 256 + int (ofs mod 256) = int ofs"
    by (metis div_mult_mod_eq of_nat_add of_nat_mult of_nat_numeral)
  then have ref: "ref = int (length acc) - int ofs - 1" by (simp add: ref_def unat_byte_mod)
  have nonneg: "\<not> ref < 0" using ref ofs by simp
  have fits: "\<not> length (ext n ofs acc) > length (acc @ rest)" "length acc + len + 2 = length (ext n ofs acc)"
    using room len by simp_all
  show ?thesis
    unfolding lzf_backref_def i bind.bind_lunit Let_def ref_def [symmetric] if_not_P [OF fits(1)] if_not_P [OF nonneg]
      len lzf_copy_ref [OF room ofs ref] fits(2) ..
qed

lemma decompress_ref:
  assumes ok: "tok_ok acc (Ref ofs n)" and room: "n \<le> length rest"
  shows "lzf_decompress_loop (pre @ enc_tok (Ref ofs n) @ post) (length pre) (acc @ rest) (length acc) =
    lzf_decompress_loop (pre @ enc_tok (Ref ofs n) @ post) (length (pre @ enc_tok (Ref ofs n)))
      (ext n ofs acc @ drop n rest) (length (ext n ofs acc))"
proof -
  have ofs: "ofs < 8192" "3 \<le> n" "n \<le> 264" using ok by simp_all
  show ?thesis
  proof (cases "n < 9")
    case True
    define c where "c = (of_nat (ofs div 256 + (n - 2) * 32) :: byte)"
    have c: "unat c div 32 = n - 2" "unat c mod 32 = ofs div 256" using ctrl_byte [of ofs "n - 2"] ofs True by (simp_all add: c_def)
    have big: "\<not> unat c < 32" using c(1) ofs(2) by (auto simp: div_eq_0_iff)
    define b where "b = (of_nat ofs :: byte)"
    have e: "enc_tok (Ref ofs n) = [c, b]" using True by (simp only: enc_tok.simps c_def b_def if_True)
    have "rd_byte (pre @ c # b # post) (length pre + 1) = Some b" by (simp add: rd_byte_def nth_append)
    then have "lzf_backref (pre @ c # b # post) (length pre + 1) (acc @ rest) (length acc)
        (int (length acc) - int (ofs div 256) * 256 - 1) (n - 2) =
        Some (Inr (length pre + 1 + 1, ext n ofs acc @ drop n rest, length (ext n ofs acc)))"
      unfolding b_def using ofs(2) by (intro lzf_backref_ext [OF ok room]) simp_all
    moreover have "n - 2 \<noteq> 7" using True by simp
    ultimately show ?thesis
      unfolding e using big c by (subst lzf_decompress_loop.simps) (simp add: rd_at Let_def)
  next
    case False
    define c where "c = (of_nat (ofs div 256 + 7 * 32) :: byte)"
    have c: "unat c div 32 = 7" "unat c mod 32 = ofs div 256" using ctrl_byte [of ofs 7] ofs by (simp_all add: c_def)
    have big: "\<not> unat c < 32" using c(1) by (auto simp: div_eq_0_iff)
    define d where "d = (of_nat (n - 9) :: byte)"
    define b where "b = (of_nat ofs :: byte)"
    have d: "7 + unat d + 2 = n" using False ofs(3) unat_byte_small [of "n - 9"] by (simp add: d_def)
    have e: "enc_tok (Ref ofs n) = [c, d, b]" using False by (simp only: enc_tok.simps c_def d_def b_def if_False)
    have r: "rd_byte (pre @ c # d # b # post) (length pre + 1) = Some d"
      "rd_byte (pre @ c # d # b # post) (length pre + 1 + 1) = Some b" by (simp_all add: rd_byte_def nth_append)
    then have "lzf_backref (pre @ c # d # b # post) (length pre + 1 + 1) (acc @ rest) (length acc)
        (int (length acc) - int (ofs div 256) * 256 - 1) (7 + unat d) =
        Some (Inr (length pre + 1 + 1 + 1, ext n ofs acc @ drop n rest, length (ext n ofs acc)))"
      unfolding b_def using d by (intro lzf_backref_ext [OF ok room]) simp_all
    then show ?thesis
      unfolding e using big c r by (subst lzf_decompress_loop.simps) (simp add: rd_at Let_def)
  qed
qed

lemma decompress_expand:
  "expand ts acc = Some xs \<Longrightarrow> length xs \<le> length (acc @ rest) \<Longrightarrow>
   lzf_decompress_loop (pre @ stream ts) (length pre) (acc @ rest) (length acc) =
     Some (LZF_DONE (xs @ drop (length xs - length acc) rest) (length xs))"
proof (induction ts arbitrary: acc rest pre)
  case Nil
  then show ?case by (subst lzf_decompress_loop.simps) simp
next
  case (Cons t ts)
  have ok: "tok_ok acc t" and ex: "expand ts (apply_tok acc t) = Some xs" using Cons.prems(1) by (auto split: if_splits)
  have len: "length (apply_tok acc t) \<le> length xs" by (rule expand_length [OF ex])
  have step: "lzf_decompress_loop (pre @ enc_tok t @ stream ts) (length pre) (acc @ rest) (length acc) =
      lzf_decompress_loop ((pre @ enc_tok t) @ stream ts) (length (pre @ enc_tok t))
        (apply_tok acc t @ drop (length (apply_tok acc t) - length acc) rest) (length (apply_tok acc t))"
  proof (cases t)
    case (Lit bs)
    then show ?thesis using decompress_lit [of acc bs rest pre "stream ts"] ok len Cons.prems(2) by simp
  next
    case (Ref ofs n)
    then show ?thesis using decompress_ref [of acc ofs n rest pre "stream ts"] ok len Cons.prems(2) by simp
  qed
  have grow: "length acc \<le> length (apply_tok acc t)" by (cases t) simp_all
  have "length xs \<le> length (apply_tok acc t @ drop (length (apply_tok acc t) - length acc) rest)"
    using Cons.prems(2) len grow by simp
  from Cons.IH [OF ex this, of "pre @ enc_tok t"] show ?case
    using step len grow by (simp add: add.commute)
qed

section \<open>Decompression of arbitrary bytes\<close>

lemma lzf_copy_defined:
  "p + n \<le> length m \<Longrightarrow> ref < p \<Longrightarrow> \<exists>m'. lzf_copy n m p ref = Some m' \<and> length m' = length m"
proof (induction n arbitrary: m p ref)
  case (Suc n)
  have "\<exists>m'. lzf_copy n (m[p := m ! ref]) (p + 1) (ref + 1) = Some m' \<and> length m' = length (m[p := m ! ref])"
    using Suc.prems by (intro Suc.IH) simp_all
  then show ?case using Suc.prems by (simp add: rd_byte_def wr_byte_def)
qed simp

lemma lzf_backref_defined:
  assumes "i < length inp" "ref < int p"
  shows "\<exists>r. lzf_backref inp i m p ref len = Some r \<and>
    (\<forall>i' m' p'. r = Inr (i', m', p') \<longrightarrow> i' = i + 1 \<and> length m' = length m \<and> p' \<le> length m)"
proof -
  define b where "b = inp ! i"
  have b: "rd_byte inp i = Some b" using assms(1) by (simp add: rd_byte_def b_def)
  define ref' where "ref' = ref - int (unat b)"
  show ?thesis
  proof (cases "p + len + 2 > length m \<or> ref' < 0")
    case True
    then show ?thesis using b by (auto simp: lzf_backref_def Let_def ref'_def)
  next
    case False
    have "ref' \<le> ref" by (simp add: ref'_def)
    then have ok: "p + (len + 2) \<le> length m" "nat ref' < p" using False assms(2) by linarith+
    have "\<exists>m'. (if len > 9 \<and> int p \<ge> ref' + int (len + 2)
        then do { bs \<leftarrow> get_bytes m (nat ref') (len + 2); put_bytes m p bs }
        else lzf_copy (len + 2) m p (nat ref')) = Some m' \<and> length m' = length m"
      using lzf_copy_defined [OF ok] ok by (auto simp: get_bytes_def put_bytes_def)
    then obtain m' where "(if len > 9 \<and> int p \<ge> ref' + int (len + 2)
        then do { bs \<leftarrow> get_bytes m (nat ref') (len + 2); put_bytes m p bs }
        else lzf_copy (len + 2) m p (nat ref')) = Some m'" "length m' = length m" by blast
    then show ?thesis
      using False b unfolding lzf_backref_def b bind.bind_lunit Let_def ref'_def [symmetric] by simp
  qed
qed

text \<open>One round of the decompression ends or goes on further in the input.\<close>

definition goes_on :: "byte list \<Rightarrow> nat \<Rightarrow> byte list \<Rightarrow> nat \<Rightarrow> bool" where
  "goes_on inp i m p \<longleftrightarrow> (\<exists>e. lzf_decompress_loop inp i m p = Some e) \<or>
     (\<exists>i' m' p'. i < i' \<and> p' \<le> length m' \<and> lzf_decompress_loop inp i m p = lzf_decompress_loop inp i' m' p')"

lemma decompress_lit_step:
  assumes i: "i < length inp" and c: "c = unat (inp ! i)" "c < 32"
  shows "goes_on inp i m p"
proof -
  have rd: "rd_byte inp i = Some (inp ! i)" using i by (simp add: rd_byte_def)
  note unf = lzf_decompress_loop.simps [of inp i m p]
  show ?thesis
  proof (cases "p + (c + 1) > length m \<or> i + 1 + (c + 1) > length inp")
    case True
    then have "\<exists>e. lzf_decompress_loop inp i m p = Some e"
      using i rd c(2) unfolding unf by (auto simp: c(1) [symmetric] Let_def)
    then show ?thesis by (simp add: goes_on_def)
  next
    case room: False
    define bs where "bs = take (c + 1) (drop (i + 1) inp)"
    have "i + 1 + (c + 1) \<le> length inp" using room by linarith
    then have bs: "get_bytes inp (i + 1) (c + 1) = Some bs" "length bs = c + 1" by (simp_all add: bs_def get_bytes_def)
    then obtain m' where m': "put_bytes m p bs = Some m'" using room by (auto simp: put_bytes_def)
    then have "length m' = length m" by (rule length_put_bytes)
    moreover have "lzf_decompress_loop inp i m p = lzf_decompress_loop inp (i + 1 + (c + 1)) m' (p + (c + 1))"
      using i rd c(2) room bs(1) m' unfolding unf by (simp add: c(1) [symmetric] Let_def)
    moreover have "i < i + 1 + (c + 1)" "p + (c + 1) \<le> length m" using room by linarith+
    ultimately show ?thesis unfolding goes_on_def by metis
  qed
qed

lemma decompress_ref_step:
  assumes i: "i < length inp" and c: "c = unat (inp ! i)" "\<not> c < 32"
  shows "goes_on inp i m p"
proof -
  have rd: "rd_byte inp i = Some (inp ! i)" using i by (simp add: rd_byte_def)
  note unf = lzf_decompress_loop.simps [of inp i m p]
  show ?thesis
  proof (cases "i + 1 < length inp")
    case False
    then show ?thesis using i rd c(2) unfolding goes_on_def unf by (simp add: c(1) [symmetric] Let_def)
  next
    case True
    then obtain len j where lj: "(if c div 32 = 7 then do { b \<leftarrow> rd_byte inp (i + 1); Some (c div 32 + unat b, i + 1 + 1) }
        else Some (c div 32, i + 1)) = Some (len, j)" "i < j" "c div 32 \<noteq> 7 \<longrightarrow> j = i + 1"
      by (cases "c div 32 = 7") (simp_all add: rd_byte_def)
    show ?thesis
    proof (cases "c div 32 = 7 \<and> j \<ge> length inp")
      case atend: True
      then show ?thesis
        using i c(2) True unfolding goes_on_def unf rd bind.bind_lunit Let_def c(1) [symmetric] lj(1) by simp
    next
      case more: False
      then have "j < length inp" using True lj(3) by auto
      then obtain r where r: "lzf_backref inp j m p (int p - int (c mod 32) * 256 - 1) len = Some r"
        "\<forall>i' m' p'. r = Inr (i', m', p') \<longrightarrow> i' = j + 1 \<and> length m' = length m \<and> p' \<le> length m"
        using lzf_backref_defined [of j inp "int p - int (c mod 32) * 256 - 1" p m len] by auto
      have loop: "lzf_decompress_loop inp i m p = (case r of Inl err \<Rightarrow> Some err | Inr (i, m, p) \<Rightarrow> lzf_decompress_loop inp i m p)"
        using i c(2) True more r(1) unfolding unf rd bind.bind_lunit Let_def c(1) [symmetric] lj(1) by auto
      show ?thesis
      proof (cases r)
        case (Inr x)
        then obtain i' m' p' where x: "r = Inr (i', m', p')" by (cases x) auto
        then have "i < i'" "p' \<le> length m'" using r(2) lj(2) by auto
        then show ?thesis using loop x unfolding goes_on_def by auto
      qed (simp add: loop goes_on_def)
    qed
  qed
qed

lemma decompress_defined: "p \<le> length m \<Longrightarrow> \<exists>r. lzf_decompress_loop inp i m p = Some r"
proof (induction "length inp - i" arbitrary: i m p rule: less_induct)
  case less
  show ?case
  proof (cases "i < length inp")
    case False
    then show ?thesis by (subst lzf_decompress_loop.simps) simp
  next
    case True
    then have "goes_on inp i m p" using decompress_lit_step decompress_ref_step by blast
    then show ?thesis
    proof (cases "\<exists>e. lzf_decompress_loop inp i m p = Some e")
      case False
      then obtain i' m' p' where "i < i'" "p' \<le> length m'"
        "lzf_decompress_loop inp i m p = lzf_decompress_loop inp i' m' p'"
        using \<open>goes_on inp i m p\<close> by (auto simp: goes_on_def)
      then show ?thesis using less.hyps [of i' p' m'] True by simp
    qed
  qed
qed

section \<open>Matches\<close>

lemma ext_match:
  assumes "ref < p" "p + n \<le> length inp" "\<forall>k<n. inp ! (ref + k) = inp ! (p + k)"
  shows "ext n (p - ref - 1) (take p inp) = take (p + n) inp"
  using assms
proof (induction n arbitrary: p ref)
  case (Suc n)
  have len: "length (take p inp) = p" using Suc.prems by simp
  have idx: "p - (p - ref - 1) - 1 = ref" using Suc.prems(1) by simp
  have "inp ! ref = inp ! p" using Suc.prems(3) [rule_format, of 0] by simp
  then have "take p inp @ [take p inp ! ref] = take (Suc p) inp"
    using Suc.prems(1,2) by (simp add: take_Suc_conv_app_nth)
  then have "ext (Suc n) (p - ref - 1) (take p inp) = ext n (p - ref - 1) (take (Suc p) inp)"
    unfolding ext.simps len idx by simp
  also have "\<dots> = ext n (Suc p - Suc ref - 1) (take (Suc p) inp)" by simp
  also have "\<dots> = take (Suc p + n) inp"
  proof (rule Suc.IH)
    show "\<forall>k<n. inp ! (Suc ref + k) = inp ! (Suc p + k)"
      using Suc.prems(3) by (metis add_Suc_shift Suc_less_eq add_Suc)
  qed (use Suc.prems in simp_all)
  finally show ?case by simp
qed simp

text \<open>The positions \<open>ref\<close> and \<open>p\<close> agree on \<open>n\<close> bytes, all of them inside the input.\<close>

definition agree :: "byte list \<Rightarrow> nat \<Rightarrow> nat \<Rightarrow> nat \<Rightarrow> bool" where
  "agree inp ref p n \<longleftrightarrow> ref < p \<and> p + n \<le> length inp \<and> (\<forall>k<n. inp ! (ref + k) = inp ! (p + k))"

lemma agree_Suc: "agree inp ref p (Suc n) \<longleftrightarrow> agree inp ref p n \<and> p + n < length inp \<and> inp ! (ref + n) = inp ! (p + n)"
  by (auto simp: agree_def less_Suc_eq)

lemma agree_reads:
  assumes "agree inp ref p n" "p + n < length inp"
  shows "rd_byte inp (ref + n) = Some (inp ! (ref + n))" "rd_byte inp (p + n) = Some (inp ! (p + n))"
  using assms by (simp_all add: agree_def rd_byte_def)

lemma lzf_probe_agree:
  assumes "agree inp ref p (len + 1)" "p + len + n < length inp"
  shows "\<exists>l go. lzf_probe n inp ref p len = Some (l, go) \<and> len \<le> l \<and> l \<le> len + n \<and> (\<not> go \<longrightarrow> len < l) \<and>
           agree inp ref p (if go then l + 1 else l)"
  using assms
proof (induction n arbitrary: len)
  case 0
  then show ?case by (intro exI [of _ len] exI [of _ True]) simp
next
  case (Suc n)
  note rd = agree_reads [OF Suc.prems(1)]
  show ?case
  proof (cases "inp ! (ref + (len + 1)) = inp ! (p + (len + 1))")
    case True
    then have "agree inp ref p (len + 1 + 1)" using Suc.prems by (simp add: agree_Suc)
    then obtain l go where "lzf_probe n inp ref p (len + 1) = Some (l, go)" "len + 1 \<le> l" "l \<le> len + 1 + n"
      "\<not> go \<longrightarrow> len + 1 < l" "agree inp ref p (if go then l + 1 else l)"
      using Suc.IH [of "len + 1"] Suc.prems(2) by auto
    then show ?thesis using rd Suc.prems True by auto
  next
    case False
    then show ?thesis using rd Suc.prems by (intro exI [of _ "len + 1"] exI [of _ False]) simp
  qed
qed

lemma lzf_scan_agree:
  assumes "agree inp ref p (len + 1)" "p + maxlen \<le> length inp"
  shows "\<exists>l. lzf_scan inp ref p maxlen len = Some l \<and> len < l \<and> l \<le> max (len + 1) maxlen \<and> agree inp ref p l"
  using assms
proof (induction "maxlen - len" arbitrary: len)
  case 0
  then show ?case by (subst lzf_scan.simps) simp
next
  case (Suc n)
  show ?case
  proof (cases "len + 1 < maxlen")
    case False
    then show ?thesis using Suc.prems by (subst lzf_scan.simps) simp
  next
    case True
    then have rd: "rd_byte inp (ref + (len + 1)) = Some (inp ! (ref + (len + 1)))"
      "rd_byte inp (p + (len + 1)) = Some (inp ! (p + (len + 1)))"
      using agree_reads [OF Suc.prems(1)] Suc.prems(2) by simp_all
    show ?thesis
    proof (cases "inp ! (ref + (len + 1)) = inp ! (p + (len + 1))")
      case eq: True
      then have "agree inp ref p (len + 1 + 1)" using Suc.prems True by (simp add: agree_Suc)
      moreover have "n = maxlen - (len + 1)" using Suc.hyps(2) by simp
      ultimately obtain l where "lzf_scan inp ref p maxlen (len + 1) = Some l" "len + 1 < l"
        "l \<le> max (len + 1 + 1) maxlen" "agree inp ref p l"
        using Suc.hyps(1) [of "len + 1"] Suc.prems(2) by auto
      then show ?thesis using True rd eq by (subst lzf_scan.simps) auto
    next
      case False
      then show ?thesis using True rd Suc.prems(1) by (subst lzf_scan.simps) auto
    qed
  qed
qed

lemma lzf_length_agree:
  assumes ag: "agree inp ref p 3"
  shows "\<exists>n. lzf_length inp ref p = Some n \<and> 3 \<le> n \<and> n \<le> 264 \<and> agree inp ref p n"
proof -
  define maxlen where "maxlen = (if length inp - p - 2 > MAX_REF then MAX_REF else length inp - p - 2)"
  have ml: "maxlen \<le> 264" "p + maxlen \<le> length inp" "p + maxlen + 2 \<le> length inp"
    using ag by (auto simp: maxlen_def MAX_REF_def agree_def)
  have ag': "agree inp ref p (2 + 1)" using ag by simp
  have unf: "lzf_length inp ref p = do {
     (len, go) \<leftarrow> (if maxlen > 16 then lzf_probe 16 inp ref p 2 else Some (2, True));
     if go then lzf_scan inp ref p maxlen len else Some len }"
    unfolding lzf_length_def Let_def maxlen_def ..
  obtain l go where pr: "(if maxlen > 16 then lzf_probe 16 inp ref p 2 else Some (2, True)) = Some (l, go)"
    "2 \<le> l" "l \<le> (if maxlen > 16 then 18 else 2)" "\<not> go \<longrightarrow> 2 < l" "agree inp ref p (if go then l + 1 else l)"
  proof (cases "maxlen > 16")
    case True
    then show ?thesis using lzf_probe_agree [OF ag', of 16] ml(3) that by auto
  next
    case False
    then show ?thesis using ag' that [of 2 True] by simp
  qed
  show ?thesis
  proof (cases go)
    case True
    then have "agree inp ref p (l + 1)" using pr(5) by simp
    from lzf_scan_agree [OF this ml(2)] obtain n where n: "lzf_scan inp ref p maxlen l = Some n" "l < n"
      "n \<le> max (l + 1) maxlen" "agree inp ref p n" by auto
    have "n \<le> 264" using n(3) pr(3) ml(1) by (auto split: if_splits)
    then show ?thesis using n pr(1,2) True unfolding unf by simp
  next
    case False
    then show ?thesis using pr unfolding unf by (auto split: if_splits)
  qed
qed

text \<open>Slots hold signed 64-bit distances; then a match is inside the input, before the current position.\<close>

definition slot_ok :: "int option \<Rightarrow> bool" where
  "slot_ok r \<longleftrightarrow> (case r of None \<Rightarrow> True | Some v \<Rightarrow> - (2 ^ 63) \<le> v \<and> v < 2 ^ 63)"

definition slots_ok :: "(nat \<Rightarrow> int option) \<Rightarrow> bool" where
  "slots_ok tab \<longleftrightarrow> (\<forall>i. slot_ok (tab i))"

lemma lzf_off_small:
  assumes "slot_ok (Some r)" "int p < 2 ^ 63" "lzf_off p r < MAX_OFF"
  shows "r < int p" "int (lzf_off p r) = int p - r - 1"
proof -
  define x where "x = int p - r - 1"
  have x: "- (2 ^ 63) \<le> x" "x < 2 ^ 64" using assms(1,2) by (auto simp: slot_ok_def x_def)
  have off: "int (lzf_off p r) = x mod 2 ^ 64" by (simp add: lzf_off_def x_def)
  have "0 \<le> x"
  proof (rule ccontr)
    assume "\<not> 0 \<le> x"
    then have "x mod 2 ^ 64 = x + 2 ^ 64" using x(1) by (intro int_mod_pos_eq [of _ _ "-1"]) simp_all
    then have "(2::int) ^ 63 \<le> int (lzf_off p r)" using off x(1) by simp
    then show False using assms(3) by (simp add: MAX_OFF_def)
  qed
  then show "r < int p" "int (lzf_off p r) = int p - r - 1" using off x(2) by (simp_all add: x_def)
qed

lemma lzf_match_agree:
  assumes "slot_ok ref" "int p < 2 ^ 63" "p + 2 < length inp"
  shows "\<exists>b. lzf_match inp p ref = Some b \<and>
    (b \<longrightarrow> agree inp (nat (the ref)) p 3 \<and> lzf_off p (the ref) = p - nat (the ref) - 1 \<and> lzf_off p (the ref) < 8192)"
proof (cases "\<exists>r. ref = Some r \<and> lzf_off p r < MAX_OFF \<and> r > 0")
  case False
  then show ?thesis by (intro exI [of _ False]) (auto simp: lzf_match_def split: option.splits)
next
  case True
  then obtain r where r: "ref = Some r" "lzf_off p r < MAX_OFF" "r > 0" by auto
  note off = lzf_off_small [OF _ assms(2) r(2)]
  define q where "q = nat r"
  have q: "q < p" "lzf_off p r = p - q - 1" using off assms(1) r(1,3) by (simp_all add: q_def)
  have three: "agree inp q p 3 \<longleftrightarrow> inp ! q = inp ! p \<and> inp ! (q + 1) = inp ! (p + 1) \<and> inp ! (q + 2) = inp ! (p + 2)"
    using q(1) assms(3) by (auto simp: agree_def numeral_3_eq_3 less_Suc_eq)
  have "lzf_match inp p ref = Some (agree inp q p 3)"
    using r q(1) assms(3) unfolding three by (simp add: lzf_match_def rd_byte_def q_def [symmetric])
  then show ?thesis using q(2) r(1,2) by (simp add: q_def MAX_OFF_def)
qed

section \<open>The compressor writes the format\<close>

text \<open>What the output holds: the tokens written so far, the byte reserved for the head of the open run, and the run.\<close>

definition layout :: "byte list \<Rightarrow> tok list \<Rightarrow> byte list \<Rightarrow> bool" where
  "layout buf ts lits \<longleftrightarrow> (lits = [] \<and> buf = stream ts) \<or> (\<exists>h r. buf = stream ts @ h # lits @ r)"

definition written :: "byte list \<Rightarrow> nat \<Rightarrow> tok list \<Rightarrow> byte list \<Rightarrow> bool" where
  "written inp p ts lits \<longleftrightarrow> (\<exists>xs. expand ts [] = Some xs \<and> take p inp = xs @ lits \<and> 32 * length (stream ts) \<le> 33 * length xs)"

definition lz_inv :: "byte list \<Rightarrow> lzf_state \<Rightarrow> tok list \<Rightarrow> byte list \<Rightarrow> bool" where
  "lz_inv inp s ts lits \<longleftrightarrow>
     slots_ok (lz_htab s) \<and> lz_ip s \<le> length inp \<and> length lits = lz_lit s \<and> lz_lit s < 32 \<and>
     lz_op s = length (stream ts) + 1 + lz_lit s \<and> layout (lz_out s) ts lits \<and> written inp (lz_ip s) ts lits"

lemma lz_inv_op: "lz_inv inp s ts lits \<Longrightarrow> 32 * lz_op s \<le> 33 * lz_ip s + 32"
  by (auto simp: lz_inv_def written_def dest!: arg_cong [of _ "_ @ _" length])

lemma layout_open:
  assumes "layout buf ts lits" "length (stream ts) + 1 + length lits \<le> length buf"
  obtains h r where "buf = stream ts @ h # lits @ r"
  using assms by (auto simp: layout_def)

lemma wr_byte_at: "wr_byte (xs @ y # ys) (length xs) b = Some (xs @ b # ys)"
  by (simp add: wr_byte_def)

lemma lzf_store_step:
  assumes "lz_ip s + 2 < length inp"
  shows "\<exists>h. lzf_store inp s = Some (s\<lparr>lz_hval := h, lz_htab := (lz_htab s)(IDX h := Some (int (lz_ip s)))\<rparr>, lz_htab s (IDX h))"
proof -
  obtain h where "NEXT (lz_hval s) inp (lz_ip s) = Some h" using assms by (simp add: NEXT_def rd_byte_def)
  then show ?thesis by (intro exI [of _ h]) (simp add: lzf_store_def)
qed

lemma slots_ok_upd: "slots_ok tab \<Longrightarrow> int p < 2 ^ 63 \<Longrightarrow> slots_ok (tab(i := Some (int p)))"
  by (simp add: slots_ok_def slot_ok_def)

lemma lzf_rehash_step:
  assumes "2 \<le> lz_ip s" "lz_ip s + 2 < length inp" "int (lz_ip s) < 2 ^ 63" "slots_ok (lz_htab s)"
  shows "\<exists>h tab. lzf_rehash inp s = Some (s\<lparr>lz_hval := h, lz_htab := tab\<rparr>) \<and> slots_ok tab"
proof -
  define q where "q = lz_ip s - 2"
  have q: "lz_ip s = q + 2" using assms(1) by (simp add: q_def)
  obtain h0 where h0: "FRST inp q = Some h0" using assms(2) by (simp add: q FRST_def rd_byte_def)
  obtain h1 where h1: "lzf_store inp (s\<lparr>lz_ip := q, lz_hval := h0\<rparr>) =
      Some (s\<lparr>lz_ip := q, lz_hval := h1, lz_htab := (lz_htab s)(IDX h1 := Some (int q))\<rparr>, lz_htab s (IDX h1))"
    using lzf_store_step [of "s\<lparr>lz_ip := q, lz_hval := h0\<rparr>" inp] assms(2) by (auto simp: q)
  define tab where "tab = (lz_htab s)(IDX h1 := Some (int q))"
  obtain h2 where h2: "lzf_store inp (s\<lparr>lz_hval := h1, lz_htab := tab, lz_ip := q + 1\<rparr>) =
      Some (s\<lparr>lz_ip := q + 1, lz_hval := h2, lz_htab := tab(IDX h2 := Some (int (q + 1)))\<rparr>, tab (IDX h2))"
    using lzf_store_step [of "s\<lparr>lz_hval := h1, lz_htab := tab, lz_ip := q + 1\<rparr>" inp] assms(2) by (auto simp: q)
  have "slots_ok (tab(IDX h2 := Some (int (q + 1))))"
    unfolding tab_def using assms(3,4) q by (intro slots_ok_upd) simp_all
  moreover have "lzf_rehash inp s = Some (s\<lparr>lz_hval := h2, lz_htab := tab(IDX h2 := Some (int (q + 1)))\<rparr>)"
    using assms(1) h0 h1 h2 by (simp add: lzf_rehash_def Let_def q tab_def)
  ultimately show ?thesis by blast
qed

abbreviation close_run :: "lzf_state \<Rightarrow> byte list option" where
  "close_run s \<equiv> (if lz_op s \<ge> lz_lit s + 1
                  then wr_byte (lz_out s) (lz_op s - lz_lit s - 1) (of_int (int (lz_lit s) - 1)) else None)"

lemma close_run_lit:
  assumes "lz_op s = length (stream ts) + 1 + length lits" "lz_lit s = length lits" "lits \<noteq> []"
    "lz_out s = stream ts @ h # lits @ r"
  shows "close_run s = Some (stream (ts @ [Lit lits]) @ r)"
proof -
  have "(of_int (int (length lits) - 1) :: byte) = of_nat (length lits - 1)"
    using assms(3) by (cases lits) simp_all
  then show ?thesis using assms by (simp add: wr_byte_at)
qed

lemma written_lit:
  assumes "written inp p ts lits" "lits \<noteq> []" "length lits \<le> 32"
  shows "expand (ts @ [Lit lits]) [] = Some (take p inp)"
  using assms by (cases lits) (auto simp: written_def expand_append)

text \<open>Closing the open run leaves a stream for the bytes read so far.\<close>

lemma close_run_stream:
  assumes inv: "lz_inv inp s ts lits" and op: "lz_op s - (if lz_lit s = 0 then 1 else 0) < length (lz_out s) \<or> lz_op s \<le> length (lz_out s)"
  obtains ts1 r where "close_run s = Some (stream ts1 @ r)" "lz_op s - (if lz_lit s = 0 then 1 else 0) = length (stream ts1)"
    "expand ts1 [] = Some (take (lz_ip s) inp)" "length (stream ts1 @ r) = length (lz_out s)"
    "32 * length (stream ts1) \<le> 33 * lz_ip s + 32"
proof -
  have i: "length lits = lz_lit s" "lz_op s = length (stream ts) + 1 + lz_lit s" "layout (lz_out s) ts lits"
    "written inp (lz_ip s) ts lits" "lz_lit s < 32" "lz_ip s \<le> length inp"
    using inv by (simp_all add: lz_inv_def)
  have "length (stream ts) + 1 + length lits \<le> length (lz_out s)" using op i(1,2) by (auto split: if_splits)
  from layout_open [OF i(3) this] obtain h r where out: "lz_out s = stream ts @ h # lits @ r" .
  show ?thesis
  proof (cases "lits = []")
    case True
    then have "close_run s = Some (stream ts @ of_int (-1) # r)" using i(1,2) out by (simp add: wr_byte_at)
    moreover have "expand ts [] = Some (take (lz_ip s) inp)" "32 * length (stream ts) \<le> 33 * lz_ip s"
      using i(4,6) True by (auto simp: written_def dest!: arg_cong [of "take _ _" _ length])
    ultimately show ?thesis using that [of ts "of_int (-1) # r"] i(1,2) out True by simp
  next
    case False
    have "close_run s = Some (stream (ts @ [Lit lits]) @ r)"
      using i out False by (intro close_run_lit) simp_all
    moreover have "expand (ts @ [Lit lits]) [] = Some (take (lz_ip s) inp)"
      using i(1,4,5) False by (intro written_lit) simp_all
    moreover have "32 * length (stream (ts @ [Lit lits])) \<le> 33 * lz_ip s + 32"
      using lz_inv_op [OF inv] i(1,2) by simp
    moreover have "lz_lit s \<noteq> 0" using False by (simp flip: i(1))
    ultimately show ?thesis using that [of "ts @ [Lit lits]" r] i(1,2) out by simp
  qed
qed

lemma written_snoc:
  assumes "written inp p ts lits" "p < length inp"
  shows "written inp (p + 1) ts (lits @ [inp ! p])"
  using assms by (auto simp: written_def take_Suc_conv_app_nth)

text \<open>A literal byte extends the run, or fills it up and closes it.\<close>

lemma lzf_literal_step:
  assumes inv: "lz_inv inp s ts lits" and p: "lz_ip s < length inp" and room: "lz_op s < length (lz_out s)"
  shows "\<exists>s' ts' lits'. lzf_literal inp s = Some s' \<and> lz_inv inp s' ts' lits' \<and> lz_ip s' = lz_ip s + 1 \<and>
    length (lz_out s') = length (lz_out s) \<and>
    (if lz_lit s = 31 then lz_lit s' = 0 \<and> lz_op s' = lz_op s + 2 else lz_lit s' = lz_lit s + 1 \<and> lz_op s' = lz_op s + 1)"
proof -
  have i: "length lits = lz_lit s" "lz_op s = length (stream ts) + 1 + lz_lit s" "layout (lz_out s) ts lits"
    "written inp (lz_ip s) ts lits" "lz_lit s < 32" "slots_ok (lz_htab s)"
    using inv by (simp_all add: lz_inv_def)
  have "length (stream ts) + 1 + length lits \<le> length (lz_out s)" using room i(1,2) by simp
  from layout_open [OF i(3) this] obtain h r where out: "lz_out s = stream ts @ h # lits @ r" .
  then obtain y r' where r: "r = y # r'" using room i(1,2) by (cases r) auto
  define b where "b = inp ! lz_ip s"
  define lits' where "lits' = lits @ [b]"
  define s1 where "s1 = s\<lparr>lz_lit := lz_lit s + 1, lz_op := lz_op s + 1, lz_ip := lz_ip s + 1, lz_out := stream ts @ h # lits' @ r'\<rparr>"
  have "wr_byte (lz_out s) (lz_op s) b = Some (stream ts @ h # lits' @ r')"
    using wr_byte_at [of "stream ts @ h # lits" y r' b] i(1,2) by (simp add: out r lits'_def)
  then have lit: "lzf_literal inp s = (if lz_lit s = 31 then do { m \<leftarrow> close_run s1; Some (s1\<lparr>lz_out := m, lz_lit := 0, lz_op := lz_op s1 + 1\<rparr>) } else Some s1)"
    using p by (simp add: lzf_literal_def rd_byte_def b_def [symmetric] s1_def MAX_LIT_def Let_def)
  have w: "written inp (lz_ip s + 1) ts lits'" unfolding lits'_def b_def using i(4) p by (rule written_snoc)
  have len: "length lits' = lz_lit s + 1" "length (lz_out s) = length (stream ts @ h # lits' @ r')"
    using i(1) by (simp_all add: lits'_def out r)
  show ?thesis
  proof (cases "lz_lit s = 31")
    case False
    then have "lz_inv inp s1 ts lits'" using i w len(1) p by (auto simp: lz_inv_def s1_def layout_def)
    then show ?thesis using False lit len(2) by (auto simp: s1_def)
  next
    case True
    define ts' where "ts' = ts @ [Lit lits']"
    define s2 where "s2 = s1\<lparr>lz_out := stream ts' @ r', lz_lit := 0, lz_op := lz_op s1 + 1\<rparr>"
    have ne: "lits' \<noteq> []" by (simp add: lits'_def)
    have cr: "close_run s1 = Some (stream ts' @ r')"
      unfolding ts'_def using i len(1) by (intro close_run_lit [OF _ _ ne]) (simp_all add: s1_def)
    have "expand ts' [] = Some (take (lz_ip s + 1) inp)"
      unfolding ts'_def using w ne True len(1) by (intro written_lit) simp_all
    moreover have "32 * length (stream ts') \<le> 33 * (lz_ip s + 1)"
      using w True len(1) p by (auto simp: written_def ts'_def dest!: arg_cong [of "take _ _" _ length])
    ultimately have "written inp (lz_ip s + 1) ts' []" using p by (simp add: written_def)
    then have "lz_inv inp s2 ts' []"
      using i True len(1) p by (cases r') (auto simp: lz_inv_def s2_def s1_def layout_def ts'_def)
    then show ?thesis using True lit cr len(2) by (auto simp: s2_def s1_def ts'_def)
  qed
qed

text \<open>The bytes of a reference.\<close>

lemma write_ref:
  assumes "3 \<le> n" "4 \<le> length r"
  obtains h r' m p where
    "(if n - 2 < 7
      then do { m \<leftarrow> wr_byte (xs @ r) (length xs) (of_nat (ofs div 256 + (n - 2) * 32)); Some (m, length xs + 1) }
      else do {
        m \<leftarrow> wr_byte (xs @ r) (length xs) (of_nat (ofs div 256 + 7 * 32));
        m \<leftarrow> wr_byte m (length xs + 1) (of_nat (n - 2 - 7));
        Some (m, length xs + 2)
      }) = Some (m, p)"
    "wr_byte m p (of_nat ofs) = Some (xs @ enc_tok (Ref ofs n) @ h # r')"
    "p + 1 = length (xs @ enc_tok (Ref ofs n))" "length r = length (enc_tok (Ref ofs n) @ h # r')"
proof -
  obtain a b c d r' where r: "r = a # b # c # d # r'"
    using assms(2) by (auto simp: numeral_eq_Suc Suc_le_length_iff)
  have [simp]: "\<And>y ys b. wr_byte (xs @ y # ys) (length xs) b = Some (xs @ b # ys)" by (rule wr_byte_at)
  have [simp]: "\<And>x y ys b. wr_byte (xs @ x # y # ys) (Suc (length xs)) b = Some (xs @ x # b # ys)"
    by (simp add: wr_byte_def nth_append list_update_append)
  have [simp]: "\<And>x y z ys b. wr_byte (xs @ x # y # z # ys) (Suc (Suc (length xs))) b = Some (xs @ x # y # b # ys)"
    by (simp add: wr_byte_def nth_append list_update_append)
  show ?thesis
  proof (cases "n < 9")
    case True
    then show ?thesis
      using assms(1) that [of "xs @ of_nat (ofs div 256 + (n - 2) * 32) # b # c # d # r'" "length xs + 1" c "d # r'"] by (simp add: r)
  next
    case False
    then show ?thesis
      using that [of "xs @ of_nat (ofs div 256 + 7 * 32) # of_nat (n - 2 - 7) # c # d # r'" "length xs + 2" d r'] by (simp add: r)
  qed
qed

lemma written_ref:
  assumes "expand ts [] = Some (take p inp)" "agree inp ref p n" "3 \<le> n" "n \<le> 264" "p - ref - 1 < 8192"
    "32 * length (stream ts) \<le> 33 * p + 32"
  shows "written inp (p + n) (ts @ [Ref (p - ref - 1) n]) []"
proof -
  have ag: "ref < p" "p + n \<le> length inp" "\<forall>k<n. inp ! (ref + k) = inp ! (p + k)" using assms(2) by (simp_all add: agree_def)
  have "expand (ts @ [Ref (p - ref - 1) n]) [] = Some (take (p + n) inp)"
    using assms(1,3,4,5) ag(1,2) ext_match [OF ag] by (simp add: expand_append)
  moreover have "32 * length (stream (ts @ [Ref (p - ref - 1) n])) \<le> 33 * (p + n)" using assms(3,6) by simp
  ultimately show ?thesis using ag(2) by (simp add: written_def)
qed

lemma lzf_emit_step:
  assumes inv: "lz_inv inp s ts lits" and ag: "agree inp ref (lz_ip s) 3"
    and ofs: "ofs = lz_ip s - ref - 1" "ofs < 8192"
  shows "(lzf_emit inp s ref ofs = Some (Inl (lz_out s)) \<and> length (lz_out s) \<le> lz_op s + 4) \<or>
    (\<exists>s' ts'. lzf_emit inp s ref ofs = Some (Inr s') \<and> lz_inv inp s' ts' [] \<and> lz_ip s + 3 \<le> lz_ip s' \<and>
       length (lz_out s') = length (lz_out s))"
proof -
  define undo :: nat where "undo = (if lz_lit s = 0 then 1 else 0)"
  define full where "full \<longleftrightarrow> lz_op s + 3 + 1 \<ge> length (lz_out s) \<and> lz_op s - undo + 3 + 1 \<ge> length (lz_out s)"
  show ?thesis
  proof (cases full)
    case True
    then show ?thesis by (simp add: lzf_emit_def full_def undo_def Let_def)
  next
    case False
    then have room: "lz_op s - undo + 4 < length (lz_out s)" by (auto simp: full_def)
    then have "lz_op s - (if lz_lit s = 0 then 1 else 0) < length (lz_out s) \<or> lz_op s \<le> length (lz_out s)"
      by (simp add: undo_def)
    from close_run_stream [OF inv this] obtain ts1 r where cr: "close_run s = Some (stream ts1 @ r)"
      "lz_op s - undo = length (stream ts1)" "expand ts1 [] = Some (take (lz_ip s) inp)"
      "length (stream ts1 @ r) = length (lz_out s)" "32 * length (stream ts1) \<le> 33 * lz_ip s + 32"
      unfolding undo_def [symmetric] .
    from lzf_length_agree [OF ag] obtain n where n: "lzf_length inp ref (lz_ip s) = Some n" "3 \<le> n" "n \<le> 264" "agree inp ref (lz_ip s) n"
      by auto
    have "4 \<le> length r" using room cr(2,4) by simp
    from write_ref [OF n(2) this, of "stream ts1" ofs] obtain h r' m p where w:
      "(if n - 2 < 7
        then do { m \<leftarrow> wr_byte (stream ts1 @ r) (length (stream ts1)) (of_nat (ofs div 256 + (n - 2) * 32)); Some (m, length (stream ts1) + 1) }
        else do {
          m \<leftarrow> wr_byte (stream ts1 @ r) (length (stream ts1)) (of_nat (ofs div 256 + 7 * 32));
          m \<leftarrow> wr_byte m (length (stream ts1) + 1) (of_nat (n - 2 - 7));
          Some (m, length (stream ts1) + 2)
        }) = Some (m, p)"
      "wr_byte m p (of_nat ofs) = Some (stream ts1 @ enc_tok (Ref ofs n) @ h # r')"
      "p + 1 = length (stream ts1 @ enc_tok (Ref ofs n))" "length r = length (enc_tok (Ref ofs n) @ h # r')" .
    define ts' where "ts' = ts1 @ [Ref ofs n]"
    define s' where "s' = s\<lparr>lz_out := stream ts' @ h # r', lz_lit := 0, lz_op := p + 2, lz_ip := lz_ip s + 1 + (n - 2 + 1)\<rparr>"
    have emit: "lzf_emit inp s ref ofs = Some (Inr s')"
      using False unfolding lzf_emit_def Let_def undo_def [symmetric] full_def [symmetric]
      unfolding cr(1,2) n(1) bind.bind_lunit w(1) prod.case w(2)
      by (simp add: s'_def ts'_def)
    have ip: "lz_ip s' = lz_ip s + n" using n(2) by (simp add: s'_def)
    have "written inp (lz_ip s + n) ts' []"
      unfolding ts'_def ofs(1) using cr(3) n(4,2,3) _ cr(5) by (rule written_ref) (use ofs in simp)
    moreover have "lz_ip s + n \<le> length inp" using n(4) by (simp add: agree_def)
    moreover have "p + 2 = length (stream ts') + 1" using w(3) by (simp add: ts'_def)
    moreover have "slots_ok (lz_htab s')" using inv by (simp add: lz_inv_def s'_def)
    ultimately have "lz_inv inp s' ts' []" unfolding lz_inv_def ip by (simp add: s'_def layout_def)
    moreover have "length (lz_out s') = length (lz_out s)" using cr(4) w(4) by (simp add: s'_def ts'_def)
    ultimately show ?thesis using emit ip n(2) by auto
  qed
qed

section \<open>The loops of the compressor\<close>

definition loop_post :: "byte list \<Rightarrow> nat \<Rightarrow> byte list + lzf_state \<Rightarrow> bool" where
  "loop_post inp n r \<longleftrightarrow> (case r of
     Inl buf \<Rightarrow> length buf = n \<and> 32 * n \<le> 33 * length inp + 160
   | Inr s \<Rightarrow> length (lz_out s) = n \<and> length inp \<le> lz_ip s + 2 \<and> (\<exists>ts lits. lz_inv inp s ts lits))"

definition loop_next :: "byte list \<Rightarrow> lzf_state \<Rightarrow> bool" where
  "loop_next inp s \<longleftrightarrow> (\<exists>r. lzf_loop inp s = Some r \<and> loop_post inp (length (lz_out s)) r) \<or>
     (\<exists>s' ts lits. lzf_loop inp s = lzf_loop inp s' \<and> lz_inv inp s' ts lits \<and> lz_ip s < lz_ip s' \<and>
        length (lz_out s') = length (lz_out s))"

lemma lzf_loop_match:
  assumes inv: "lz_inv inp s1 ts lits" and p: "lz_ip s + 2 < length inp" and big: "length inp < 2 ^ 63"
    and st: "lzf_store inp s = Some (s1, ref)" "lz_ip s1 = lz_ip s" "length (lz_out s1) = length (lz_out s)"
    and m: "lzf_match inp (lz_ip s) ref = Some True" "agree inp (nat (the ref)) (lz_ip s) 3"
      "lzf_off (lz_ip s) (the ref) = lz_ip s - nat (the ref) - 1" "lzf_off (lz_ip s) (the ref) < 8192"
  shows "loop_next inp s"
proof -
  note unf = lzf_loop.simps [of inp s]
  have ag: "agree inp (nat (the ref)) (lz_ip s1) 3" using m(2) st(2) by simp
  consider (full) "lzf_emit inp s1 (nat (the ref)) (lzf_off (lz_ip s) (the ref)) = Some (Inl (lz_out s1))" "length (lz_out s1) \<le> lz_op s1 + 4"
    | (emit) s2 ts2 where "lzf_emit inp s1 (nat (the ref)) (lzf_off (lz_ip s) (the ref)) = Some (Inr s2)" "lz_inv inp s2 ts2 []"
        "lz_ip s1 + 3 \<le> lz_ip s2" "length (lz_out s2) = length (lz_out s1)"
    using lzf_emit_step [OF inv ag, of "lzf_off (lz_ip s) (the ref)"] m(3,4) st(2) by auto
  then show ?thesis
  proof cases
    case full
    then have "lzf_loop inp s = Some (Inl (lz_out s1))" using p st(1,2) m(1) unfolding unf by simp
    moreover have "32 * length (lz_out s1) \<le> 33 * length inp + 160" using lz_inv_op [OF inv] full(2) p st(2) by simp
    ultimately show ?thesis using st(3) by (simp add: loop_next_def loop_post_def)
  next
    case emit
    have len: "length (lz_out s2) = length (lz_out s)" using emit(4) st(3) by simp
    show ?thesis
    proof (cases "lz_ip s2 + 2 \<ge> length inp")
      case True
      then have "lzf_loop inp s = Some (Inr s2)" using p st(1,2) m(1) emit(1) unfolding unf by simp
      then show ?thesis using True len emit(2) by (auto simp: loop_next_def loop_post_def)
    next
      case False
      have s2: "slots_ok (lz_htab s2)" using emit(2) by (simp add: lz_inv_def)
      have "int (lz_ip s2) < 2 ^ 63" "2 \<le> lz_ip s2" "lz_ip s2 + 2 < length inp" using False big emit(3) by simp_all
      from lzf_rehash_step [OF this(2,3,1) s2] obtain h tab where
        h: "lzf_rehash inp s2 = Some (s2\<lparr>lz_hval := h, lz_htab := tab\<rparr>)" "slots_ok tab" by auto
      define s3 where "s3 = s2\<lparr>lz_hval := h, lz_htab := tab\<rparr>"
      have "lzf_loop inp s = lzf_loop inp s3" using p st(1,2) m(1) emit(1) h(1) False unfolding unf by (simp add: s3_def)
      moreover have "lz_inv inp s3 ts2 []" using emit(2) h(2) by (simp add: lz_inv_def s3_def)
      moreover have "lz_ip s < lz_ip s3" "length (lz_out s3) = length (lz_out s)"
        using emit(3) st(2) len by (simp_all add: s3_def)
      ultimately show ?thesis unfolding loop_next_def by blast
    qed
  qed
qed

lemma lzf_loop_lit:
  assumes inv: "lz_inv inp s1 ts lits" and p: "lz_ip s + 2 < length inp"
    and st: "lzf_store inp s = Some (s1, ref)" "lz_ip s1 = lz_ip s" "length (lz_out s1) = length (lz_out s)"
    and m: "lzf_match inp (lz_ip s) ref = Some False"
  shows "loop_next inp s"
proof (cases "lz_op s1 \<ge> length (lz_out s1)")
  case True
  then have "lzf_loop inp s = Some (Inl (lz_out s1))" using p st(1,2) m by (subst lzf_loop.simps) simp
  moreover have "32 * length (lz_out s1) \<le> 33 * length inp + 160" using lz_inv_op [OF inv] True p st(2) by simp
  ultimately show ?thesis using st(3) by (simp add: loop_next_def loop_post_def)
next
  case False
  have "lz_ip s1 < length inp" "lz_op s1 < length (lz_out s1)" using False p st(2) by simp_all
  from lzf_literal_step [OF inv this] obtain s2 ts2 lits2 where s2: "lzf_literal inp s1 = Some s2" "lz_inv inp s2 ts2 lits2"
    "lz_ip s2 = lz_ip s1 + 1" "length (lz_out s2) = length (lz_out s1)" by blast
  have "lzf_loop inp s = lzf_loop inp s2" using p st(1,2) m False s2(1) by (subst lzf_loop.simps) simp
  then show ?thesis using s2 st(2,3) unfolding loop_next_def by (metis less_add_one)
qed

lemma lzf_loop_runs:
  assumes "lz_inv inp s ts lits" "length inp < 2 ^ 63"
  shows "\<exists>r. lzf_loop inp s = Some r \<and> loop_post inp (length (lz_out s)) r"
  using assms(1)
proof (induction "length inp - lz_ip s" arbitrary: s ts lits rule: less_induct)
  case less
  show ?case
  proof (cases "lz_ip s + 2 < length inp")
    case False
    then show ?thesis using less.prems by (subst lzf_loop.simps) (auto simp: loop_post_def)
  next
    case True
    from lzf_store_step [OF True] obtain h where h: "lzf_store inp s =
        Some (s\<lparr>lz_hval := h, lz_htab := (lz_htab s)(IDX h := Some (int (lz_ip s)))\<rparr>, lz_htab s (IDX h))" by blast
    define s1 where "s1 = s\<lparr>lz_hval := h, lz_htab := (lz_htab s)(IDX h := Some (int (lz_ip s)))\<rparr>"
    define ref where "ref = lz_htab s (IDX h)"
    have st: "lzf_store inp s = Some (s1, ref)" "lz_ip s1 = lz_ip s" "length (lz_out s1) = length (lz_out s)"
      using h by (simp_all add: s1_def ref_def)
    have big: "int (lz_ip s) < 2 ^ 63" using True assms(2) by simp
    have tab: "slots_ok (lz_htab s)" using less.prems by (simp add: lz_inv_def)
    then have "slot_ok ref" by (simp add: slots_ok_def ref_def)
    from lzf_match_agree [OF this big True] obtain b where b: "lzf_match inp (lz_ip s) ref = Some b"
      "b \<Longrightarrow> agree inp (nat (the ref)) (lz_ip s) 3" "b \<Longrightarrow> lzf_off (lz_ip s) (the ref) = lz_ip s - nat (the ref) - 1"
      "b \<Longrightarrow> lzf_off (lz_ip s) (the ref) < 8192" by auto
    have inv: "lz_inv inp s1 ts lits"
      using less.prems slots_ok_upd [OF tab big] by (simp add: lz_inv_def s1_def)
    have "loop_next inp s"
    proof (cases b)
      case True
      then show ?thesis
        using lzf_loop_match [OF inv \<open>lz_ip s + 2 < length inp\<close> assms(2) st] b by simp
    next
      case False
      then show ?thesis using lzf_loop_lit [OF inv True st] b(1) by simp
    qed
    then show ?thesis
    proof (unfold loop_next_def, elim disjE exE conjE)
      fix s' ts' lits'
      assume s': "lzf_loop inp s = lzf_loop inp s'" "lz_inv inp s' ts' lits'" "lz_ip s < lz_ip s'" "length (lz_out s') = length (lz_out s)"
      have "length inp - lz_ip s' < length inp - lz_ip s" using s'(3) True by simp
      from less.hyps [OF this s'(2)] show ?thesis using s'(1,4) by simp
    qed blast
  qed
qed

text \<open>The last bytes: the check before the loop leaves room for two of them and the head of one more run.\<close>

lemma lzf_tail_runs:
  assumes "lz_inv inp s ts lits" "lz_op s + (length inp - lz_ip s) + (if lz_lit s + (length inp - lz_ip s) \<ge> 32 then 1 else 0) \<le> length (lz_out s)"
    "length inp \<le> lz_ip s + 2"
  shows "\<exists>s' ts' lits'. lzf_tail inp s = Some s' \<and> lz_inv inp s' ts' lits' \<and> lz_ip s' = length inp \<and>
    length (lz_out s') = length (lz_out s) \<and> lz_op s' \<le> length (lz_out s')"
  using assms
proof (induction "length inp - lz_ip s" arbitrary: s ts lits)
  case 0
  then have "\<not> lz_ip s < length inp" "lz_ip s \<le> length inp" by (simp_all add: lz_inv_def)
  moreover from this have "lz_ip s = length inp" by simp
  ultimately show ?case using "0.prems"(1,2) by (subst lzf_tail.simps) (auto split: if_splits)
next
  case (Suc n)
  have p: "lz_ip s < length inp" "lz_op s < length (lz_out s)" using Suc.hyps(2) Suc.prems(2) by simp_all
  have l: "lz_lit s < 32" using Suc.prems(1) by (simp add: lz_inv_def)
  from lzf_literal_step [OF Suc.prems(1) p] obtain s1 ts1 lits1 where s1: "lzf_literal inp s = Some s1" "lz_inv inp s1 ts1 lits1"
    "lz_ip s1 = lz_ip s + 1" "length (lz_out s1) = length (lz_out s)"
    "if lz_lit s = 31 then lz_lit s1 = 0 \<and> lz_op s1 = lz_op s + 2 else lz_lit s1 = lz_lit s + 1 \<and> lz_op s1 = lz_op s + 1" by blast
  have n: "n = length inp - lz_ip s1" "length inp \<le> lz_ip s1 + 2" using Suc.hyps(2) Suc.prems(3) s1(3) by simp_all
  have b: "lz_op s1 + (length inp - lz_ip s1) + (if lz_lit s1 + (length inp - lz_ip s1) \<ge> 32 then 1 else 0) \<le> length (lz_out s1)"
    using Suc.prems(2,3) Suc.hyps(2) s1(3,4,5) n l by (auto split: if_splits)
  from Suc.hyps(1) [OF n(1) s1(2) b n(2)] show ?case using p(1) s1(1,4) by (subst lzf_tail.simps) simp
qed

lemma lz_inv_init: "slots_ok tab \<Longrightarrow> buf \<noteq> [] \<Longrightarrow>
  lz_inv inp \<lparr>lz_ip = 0, lz_op = 1, lz_lit = 0, lz_hval = h, lz_htab = tab, lz_out = buf\<rparr> [] []"
  by (cases buf) (simp_all add: lz_inv_def layout_def written_def)

text \<open>The compressor returns, and what it returns is a stream for the input unless the output is too small.\<close>

lemma lzf_compress_stream:
  assumes len: "2 \<le> length inp" "length inp < 2 ^ 63" and tab: "slots_ok tab"
  shows "\<exists>m k. lzf_compress tab inp buf = Some (m, k) \<and> length m = length buf \<and> k \<le> length buf \<and>
    (k = 0 \<and> 32 * length buf \<le> 33 * length inp + 160 \<or>
     0 < k \<and> 32 * k \<le> 33 * length inp + 32 \<and> (\<exists>ts. take k m = stream ts \<and> expand ts [] = Some inp))"
proof (cases "buf = []")
  case True
  then show ?thesis by (simp add: lzf_compress_def)
next
  case False
  have ne: "inp \<noteq> []" using len(1) by auto
  obtain h where h: "FRST inp 0 = Some h" using len(1) ne by (simp add: FRST_def rd_byte_def)
  define s0 where "s0 = \<lparr>lz_ip = 0, lz_op = 1, lz_lit = 0, lz_hval = h, lz_htab = tab, lz_out = buf\<rparr>"
  have out0: "lz_out s0 = buf" by (simp add: s0_def)
  have inv0: "lz_inv inp s0 [] []" unfolding s0_def using tab False by (rule lz_inv_init)
  from lzf_loop_runs [OF this len(2)] obtain r where r: "lzf_loop inp s0 = Some r" "loop_post inp (length buf) r"
    unfolding out0 by blast
  note unf = lzf_compress_def [of tab inp buf] h bind.bind_lunit s0_def [symmetric] r(1)
  show ?thesis
  proof (cases r)
    case (Inl m)
    then show ?thesis using r(2) False ne unfolding unf by (simp add: loop_post_def)
  next
    case (Inr s)
    then obtain ts lits where s: "length (lz_out s) = length buf" "length inp \<le> lz_ip s + 2" "lz_inv inp s ts lits"
      using r(2) by (auto simp: loop_post_def)
    show ?thesis
    proof (cases "lz_op s + 3 > length (lz_out s)")
      case True
      moreover have "lz_ip s \<le> length inp" using s(3) by (simp add: lz_inv_def)
      ultimately show ?thesis using lz_inv_op [OF s(3)] s(1) False ne Inr unfolding unf by simp
    next
      case room: False
      have "lz_op s + (length inp - lz_ip s) + (if lz_lit s + (length inp - lz_ip s) \<ge> 32 then 1 else 0) \<le> length (lz_out s)"
        using room s(2) by (simp; linarith)
      from lzf_tail_runs [OF s(3) this s(2)] obtain s1 ts1 lits1 where s1: "lzf_tail inp s = Some s1" "lz_inv inp s1 ts1 lits1"
        "lz_ip s1 = length inp" "length (lz_out s1) = length (lz_out s)" "lz_op s1 \<le> length (lz_out s1)" by blast
      obtain ts2 r2 where c: "close_run s1 = Some (stream ts2 @ r2)" "lz_op s1 - (if lz_lit s1 = 0 then 1 else 0) = length (stream ts2)"
        "expand ts2 [] = Some (take (lz_ip s1) inp)" "length (stream ts2 @ r2) = length (lz_out s1)"
        "32 * length (stream ts2) \<le> 33 * lz_ip s1 + 32"
        using close_run_stream [OF s1(2)] s1(5) by blast
      have "lzf_compress tab inp buf = Some (stream ts2 @ r2, length (stream ts2))"
        using False ne Inr room s1(1) c(1,2) unfolding unf by simp
      moreover have "ts2 \<noteq> []" using c(3) s1(3) ne by auto
      then have "0 < length (stream ts2)" by (cases ts2; cases "hd ts2") simp_all
      ultimately show ?thesis using c(3,4,5) s(1) s1(3,4) by auto
    qed
  qed
qed

lemma lzf_inverse:
  assumes "2 \<le> length inp" "length inp < 2 ^ 63" "slots_ok tab"
  shows "\<exists>m k. lzf_compress tab inp buf = Some (m, k) \<and> length m = length buf \<and> k \<le> length buf \<and>
    32 * k \<le> 33 * length inp + 32 \<and> (33 * length inp + 160 < 32 * length buf \<longrightarrow> 0 < k) \<and>
    (0 < k \<longrightarrow> (\<forall>dst. length inp \<le> length dst \<longrightarrow>
       lzf_decompress (take k m) dst = Some (LZF_DONE (inp @ drop (length inp) dst) (length inp))))"
proof -
  from lzf_compress_stream [OF assms, of buf] obtain m k where c: "lzf_compress tab inp buf = Some (m, k)"
    "length m = length buf" "k \<le> length buf"
    "k = 0 \<and> 32 * length buf \<le> 33 * length inp + 160 \<or>
     0 < k \<and> 32 * k \<le> 33 * length inp + 32 \<and> (\<exists>ts. take k m = stream ts \<and> expand ts [] = Some inp)" by blast
  have "lzf_decompress (take k m) dst = Some (LZF_DONE (inp @ drop (length inp) dst) (length inp))"
    if k: "0 < k" "length inp \<le> length dst" for dst
  proof -
    obtain ts where ts: "take k m = stream ts" "expand ts [] = Some inp" using c(4) k(1) by auto
    then show ?thesis using decompress_expand [where pre = "[]" and acc = "[]" and ts = ts and rest = dst] k(2) by (simp add: lzf_decompress_def)
  qed
  then show ?thesis using c by (intro exI [of _ m] exI [of _ k]) auto
qed

section \<open>Properties\<close>

text \<open>C9. Whatever the uninitialised hash table holds, compressing an input of at least two bytes returns and stays
  inside both buffers; it succeeds in a buffer of 33/32 of the input and 6 more bytes, it never uses more than 33/32 of
  the input and one byte, and decompressing what it wrote into a buffer of at least the
  input's length gives back the input.\<close>

theorem lzf_roundtrip:
  assumes "2 \<le> length inp" "length inp < 2 ^ 63" "slots_ok tab"
  shows "\<exists>m k. lzf_compress tab inp buf = Some (m, k) \<and> length m = length buf \<and> k \<le> length buf \<and>
    32 * k \<le> 33 * length inp + 32 \<and> (33 * length inp + 160 < 32 * length buf \<longrightarrow> 0 < k) \<and>
    (0 < k \<longrightarrow> (\<forall>dst. length inp \<le> length dst \<longrightarrow>
       lzf_decompress (take k m) dst = Some (LZF_DONE (inp @ drop (length inp) dst) (length inp))))"
  using assms by (rule lzf_inverse)

theorem lzf_roundtrip_witness:
  "\<exists>m k. lzf_compress (\<lambda>_. None) [97, 98, 99, 97, 98, 99, 97, 98, 99] (replicate 16 0) = Some (m, k) \<and> 0 < k \<and>
     lzf_decompress (take k m) (replicate 9 7) = Some (LZF_DONE [97, 98, 99, 97, 98, 99, 97, 98, 99] 9)"
  using lzf_roundtrip [of "[97, 98, 99, 97, 98, 99, 97, 98, 99]" "\<lambda>_. None" "replicate 16 0"]
  by (force simp: slots_ok_def slot_ok_def)

text \<open>C10. Decompression of any bytes into any buffer returns and never reads or writes outside the two buffers: the result
  is the data or one of the two errors.\<close>

theorem lzf_decompress_safe: "\<exists>r. lzf_decompress inp buf = Some r"
  unfolding lzf_decompress_def by (rule decompress_defined) simp

text \<open>The first hash of the compressor reads two bytes, also when the input has one.\<close>

theorem lzf_compress_one_byte: "lzf_compress tab [b] (x # buf) = None"
  by (simp add: lzf_compress_def FRST_def rd_byte_def)

end
