(* ===== verification/Crc.thy ===== *)
theory Crc
  imports Bit_Rounds
begin

text \<open>
  The 64-bit checksum of \<open>crc64.c\<close>, \<open>crcspeed.c\<close> and \<open>crccombine.c\<close>, on little-endian and big-endian machines.  A buffer is a list of bytes with the address of its first byte, since the code processes bytes one
  by one up to an aligned address; advancing a pointer drops bytes from the list.  Tables and matrices are lists indexed
  by values that their width keeps in range.  \<open>crc64_combine\<close> fills its static cache on the first call, so the cache is
  passed and returned.
\<close>

unbundle bit_operations_syntax

section \<open>The bit-by-bit checksum\<close>

definition POLY :: u64 where "POLY = 0xad93d23594c935a9"

definition crc_reflect :: "u64 \<Rightarrow> nat \<Rightarrow> u64" where
  "crc_reflect data data_len =
     (let data = (drop_bit 1 data AND 0x5555555555555555) OR push_bit 1 (data AND 0x5555555555555555);
          data = (drop_bit 2 data AND 0x3333333333333333) OR push_bit 2 (data AND 0x3333333333333333);
          data = (drop_bit 4 data AND 0x0F0F0F0F0F0F0F0F) OR push_bit 4 (data AND 0x0F0F0F0F0F0F0F0F);
          data = (drop_bit 8 data AND 0x00FF00FF00FF00FF) OR push_bit 8 (data AND 0x00FF00FF00FF00FF);
          data = (drop_bit 16 data AND 0x0000FFFF0000FFFF) OR push_bit 16 (data AND 0x0000FFFF0000FFFF);
          data = (drop_bit 32 data AND 0x00000000FFFFFFFF) OR push_bit 32 (data AND 0x00000000FFFFFFFF)
      in drop_bit (64 - data_len) data)"

definition crc64_bit :: "byte \<Rightarrow> nat \<Rightarrow> u64 \<Rightarrow> u64" where
  "crc64_bit c i crc =
     (let b = (crc AND 0x8000000000000000 \<noteq> 0);
          b = (if c AND push_bit i 1 \<noteq> 0 then \<not> b else b);
          crc = push_bit 1 crc
      in if b then crc XOR POLY else crc)"

definition crc64_byte :: "byte \<Rightarrow> u64 \<Rightarrow> u64" where
  "crc64_byte c crc = fold (crc64_bit c) [0..<8] crc"

definition crc64_bitwise :: "u64 \<Rightarrow> byte list \<Rightarrow> u64" where
  "crc64_bitwise crc data = crc_reflect (fold crc64_byte data crc) 64"

section \<open>Tables\<close>

text \<open>\<open>table[0]\<close> holds the checksums of single bytes; \<open>table[k][n]\<close> is what the inner loop gives after \<open>k\<close> rounds.\<close>

fun crc_chain :: "u64 list \<Rightarrow> nat \<Rightarrow> u64 \<Rightarrow> u64" where
  "crc_chain t0 0 crc = crc"
| "crc_chain t0 (Suc k) crc = crc_chain t0 k (t0 ! unat (crc AND 0xff) XOR drop_bit 8 crc)"

definition crcspeed64little_init :: "(u64 \<Rightarrow> byte list \<Rightarrow> u64) \<Rightarrow> u64 list list" where
  "crcspeed64little_init crcfn =
     (let t0 = map (\<lambda>n. crcfn 0 [of_nat n]) [0..<256]
      in map (\<lambda>k. map (\<lambda>n. crc_chain t0 k (t0 ! n)) [0..<256]) [0..<8])"

definition rev8 :: "u64 \<Rightarrow> u64" where
  "rev8 a =
     (let m = 0xff00ff00ff00ff;
          a = (drop_bit 8 a AND m) OR push_bit 8 (a AND m);
          m = 0xffff0000ffff;
          a = (drop_bit 16 a AND m) OR push_bit 16 (a AND m)
      in drop_bit 32 a OR push_bit 32 a)"

definition crcspeed64big_init :: "(u64 \<Rightarrow> byte list \<Rightarrow> u64) \<Rightarrow> u64 list list" where
  "crcspeed64big_init fn = map (map rev8) (crcspeed64little_init fn)"

section \<open>Joining checksums\<close>

text \<open>A matrix over the field of two elements is the list of its rows; four bits of the vector are handled at a time.\<close>

definition gf2_cases :: "u64 list \<Rightarrow> nat \<Rightarrow> u64" where
  "gf2_cases mat c =
     (let m0 = mat ! 0; m1 = mat ! 1; m2 = mat ! 2; m3 = mat ! 3 in
      [0, m0, m1, m0 XOR m1,
       m2, m0 XOR m2, m1 XOR m2, m0 XOR m1 XOR m2,
       m3, m0 XOR m3, m1 XOR m3, m0 XOR m1 XOR m3,
       m2 XOR m3, m0 XOR m2 XOR m3, m1 XOR m2 XOR m3, m0 XOR m1 XOR m2 XOR m3] ! c)"

function gf2_times_loop :: "u64 list \<Rightarrow> u64 \<Rightarrow> u64 \<Rightarrow> u64" where
  "gf2_times_loop mat vec acc =
     (if vec = 0 then acc
      else gf2_times_loop (drop 4 mat) (drop_bit 4 vec) (acc XOR gf2_cases mat (unat (vec AND 15))))"
  by pat_completeness auto
termination
  by (relation "measure (\<lambda>(mat, vec, acc). unat vec)") (auto simp: drop_bit_eq_div unat_div unat_gt_0)

declare gf2_times_loop.simps [simp del]

definition gf2_matrix_times_switch :: "u64 list \<Rightarrow> u64 \<Rightarrow> u64" where
  "gf2_matrix_times_switch mat vec = gf2_times_loop mat vec 0"

definition gf2_matrix_square :: "u64 list \<Rightarrow> u64 list \<Rightarrow> nat \<Rightarrow> u64 list" where
  "gf2_matrix_square square mat dim = map (\<lambda>n. gf2_matrix_times_switch mat (mat ! n)) [0..<dim] @ drop dim square"

definition init_combine_cache :: "u64 list list \<Rightarrow> u64 \<Rightarrow> nat \<Rightarrow> u64 list list" where
  "init_combine_cache cache poly dim =
     (let cache = cache[1 := poly # map (\<lambda>n. push_bit (n - 1) 1) [1..<dim] @ drop dim (cache ! 1)];
          cache = cache[0 := gf2_matrix_square (cache ! 0) (cache ! 1) dim];
          cache = cache[1 := gf2_matrix_square (cache ! 1) (cache ! 0) dim];
          cache = cache[0 := gf2_matrix_square (cache ! 0) (cache ! 1) dim]
      in fold (\<lambda>k cache. cache[k := gf2_matrix_square (cache ! k) (cache ! (k - 1)) dim]) [1..<64] cache)"

fun combine_loop :: "u64 list list \<Rightarrow> nat \<Rightarrow> nat \<Rightarrow> u64 \<Rightarrow> u64" where
  "combine_loop cache cache_num len2 crc1 =
     (let crc1 = (if odd len2 then gf2_matrix_times_switch (cache ! cache_num) crc1 else crc1);
          len2 = len2 div 2;
          cache_num = (cache_num + 1) mod 64
      in if len2 \<noteq> 0 then combine_loop cache cache_num len2 crc1 else crc1)"

declare combine_loop.simps [simp del]

definition crc64_combine :: "u64 list list \<Rightarrow> u64 \<Rightarrow> u64 \<Rightarrow> nat \<Rightarrow> u64 \<Rightarrow> nat \<Rightarrow> u64 \<times> u64 list list" where
  "crc64_combine cache crc1 crc2 len2 poly dim =
     (if len2 = 0 then (crc1, cache)
      else
        let cache = (if cache ! 0 ! 0 = 0 then init_combine_cache cache poly dim else cache)
        in (combine_loop cache 0 len2 crc1 XOR crc2, cache))"

section \<open>Checksums of buffers\<close>

fun load64 :: "byte list \<Rightarrow> u64" where
  "load64 [] = 0"
| "load64 (b # bs) = ucast b OR push_bit 8 (load64 bs)"

definition crc_next :: "u64 list list \<Rightarrow> u64 \<Rightarrow> byte \<Rightarrow> u64" where
  "crc_next t crc b = t ! 0 ! unat ((crc XOR ucast b) AND 0xff) XOR drop_bit 8 crc"

text \<open>Bytes up to an aligned address, and the bytes left at the end.\<close>

fun crc_align :: "u64 list list \<Rightarrow> nat \<Rightarrow> u64 \<Rightarrow> byte list \<Rightarrow> u64 \<times> byte list" where
  "crc_align t addr crc [] = (crc, [])"
| "crc_align t addr crc (b # bs) =
     (if addr mod 8 \<noteq> 0 then crc_align t (addr + 1) (crc_next t crc b) bs else (crc, b # bs))"

fun crc_rest :: "u64 list list \<Rightarrow> u64 \<Rightarrow> byte list \<Rightarrow> u64" where
  "crc_rest t crc [] = crc"
| "crc_rest t crc (b # bs) = crc_rest t (crc_next t crc b) bs"

definition DO_8_1 :: "u64 \<Rightarrow> byte list \<Rightarrow> u64" where
  "DO_8_1 crc next1 = crc XOR load64 (take 8 next1)"

definition DO_8_2 :: "u64 list list \<Rightarrow> u64 \<Rightarrow> u64" where
  "DO_8_2 t crc =
     t ! 7 ! unat (ucast crc :: byte) XOR
     t ! 6 ! unat (ucast (drop_bit 8 crc) :: byte) XOR
     t ! 5 ! unat (ucast (drop_bit 16 crc) :: byte) XOR
     t ! 4 ! unat (ucast (drop_bit 24 crc) :: byte) XOR
     t ! 3 ! unat (ucast (drop_bit 32 crc) :: byte) XOR
     t ! 2 ! unat (ucast (drop_bit 40 crc) :: byte) XOR
     t ! 1 ! unat (ucast (drop_bit 48 crc) :: byte) XOR
     t ! 0 ! unat (drop_bit 56 crc)"

function crc_words :: "u64 list list \<Rightarrow> u64 \<Rightarrow> byte list \<Rightarrow> u64 \<times> byte list" where
  "crc_words t crc bs =
     (if 8 \<le> length bs then crc_words t (DO_8_2 t (DO_8_1 crc bs)) (drop 8 bs) else (crc, bs))"
  by pat_completeness auto
termination
  by (relation "measure (\<lambda>(t, crc, bs). length bs)") auto

declare crc_words.simps [simp del]

text \<open>Two and three segments at a time; \<open>len\<close> counts the bytes left in each.\<close>

function crc_dual :: "u64 list list \<Rightarrow> nat \<Rightarrow> u64 \<Rightarrow> byte list \<Rightarrow> u64 \<Rightarrow> byte list \<Rightarrow> u64 \<times> u64 \<times> byte list" where
  "crc_dual t len crc1 next1 crc2 next2 =
     (if 8 \<le> len
      then crc_dual t (len - 8) (DO_8_2 t (DO_8_1 crc1 next1)) (drop 8 next1) (DO_8_2 t (DO_8_1 crc2 next2)) (drop 8 next2)
      else (crc1, crc2, next2))"
  by pat_completeness auto
termination
  by (relation "measure (\<lambda>(t, len, _). len)") auto

function crc_tri ::
  "u64 list list \<Rightarrow> nat \<Rightarrow> u64 \<Rightarrow> byte list \<Rightarrow> u64 \<Rightarrow> byte list \<Rightarrow> u64 \<Rightarrow> byte list \<Rightarrow> u64 \<times> u64 \<times> u64 \<times> byte list" where
  "crc_tri t len crc1 next1 crc2 next2 crc3 next3 =
     (if 8 \<le> len
      then crc_tri t (len - 8) (DO_8_2 t (DO_8_1 crc1 next1)) (drop 8 next1) (DO_8_2 t (DO_8_1 crc2 next2)) (drop 8 next2)
             (DO_8_2 t (DO_8_1 crc3 next3)) (drop 8 next3)
      else (crc1, crc2, crc3, next3))"
  by pat_completeness auto
termination
  by (relation "measure (\<lambda>(t, len, _). len)") auto

declare crc_dual.simps [simp del] crc_tri.simps [simp del]

definition CRC64_REVERSED_POLY :: u64 where "CRC64_REVERSED_POLY = 0x95ac9329ac4bc9b5"

definition CRC64_SPLIT :: "nat \<Rightarrow> nat \<Rightarrow> nat" where
  "CRC64_SPLIT len d = unat ((of_nat (len div d) :: u64) AND 0x7ffffffffffffff8)"

definition MERGE_CRC :: "u64 list list \<Rightarrow> u64 \<Rightarrow> u64 \<Rightarrow> nat \<Rightarrow> u64 \<times> u64 list list" where
  "MERGE_CRC cache crc1 crcn seg = crc64_combine cache crc1 crcn seg CRC64_REVERSED_POLY 64"

text \<open>The cutoffs are variables of the program.\<close>

record crc64_globals =
  crc64_table :: "u64 list list"
  combine_cache :: "u64 list list"
  CRC64_TRI_CUTOFF :: nat
  CRC64_DUAL_CUTOFF :: nat

definition set_crc64_cutoffs :: "nat \<Rightarrow> nat \<Rightarrow> crc64_globals \<Rightarrow> crc64_globals" where
  "set_crc64_cutoffs dual_cutoff tri_cutoff g = g\<lparr>CRC64_DUAL_CUTOFF := dual_cutoff, CRC64_TRI_CUTOFF := tri_cutoff\<rparr>"

definition crcspeed64little :: "crc64_globals \<Rightarrow> u64 list list \<Rightarrow> u64 \<Rightarrow> nat \<Rightarrow> byte list \<Rightarrow> u64 \<times> crc64_globals" where
  "crcspeed64little g t crc1 addr buf =
     (if CRC64_DUAL_CUTOFF g < 1 then (crc_rest t crc1 buf, g)
      else
        let (crc1, next1) = crc_align t addr crc1 buf;
            len = length next1;
            (crc1, next1, cache) =
              (if len > CRC64_TRI_CUTOFF g
               then
                 let seg = CRC64_SPLIT len 3;
                     (crc1, crc2, crc3, next3) = crc_tri t seg crc1 next1 0 (drop seg next1) 0 (drop (seg + seg) next1);
                     (crc1, cache) = MERGE_CRC (combine_cache g) crc1 crc2 seg;
                     (crc1, cache) = MERGE_CRC cache crc1 crc3 seg
                 in (crc1, next3, cache)
               else if len > CRC64_DUAL_CUTOFF g
               then
                 let seg = CRC64_SPLIT len 2;
                     (crc1, crc2, next2) = crc_dual t seg crc1 next1 0 (drop seg next1);
                     (crc1, cache) = MERGE_CRC (combine_cache g) crc1 crc2 seg
                 in (crc1, next2, cache)
               else (crc1, next1, combine_cache g));
            (crc1, next1) = crc_words t crc1 next1
        in (crc_rest t crc1 next1, g\<lparr>combine_cache := cache\<rparr>))"

text \<open>The variant for big-endian machines, on which a load reverses the bytes.\<close>

definition crc_next_big :: "u64 list list \<Rightarrow> u64 \<Rightarrow> byte \<Rightarrow> u64" where
  "crc_next_big t crc b = t ! 0 ! unat (drop_bit 56 crc XOR ucast b) XOR push_bit 8 crc"

fun crc_align_big :: "u64 list list \<Rightarrow> nat \<Rightarrow> u64 \<Rightarrow> byte list \<Rightarrow> u64 \<times> byte list" where
  "crc_align_big t addr crc [] = (crc, [])"
| "crc_align_big t addr crc (b # bs) =
     (if addr mod 8 \<noteq> 0 then crc_align_big t (addr + 1) (crc_next_big t crc b) bs else (crc, b # bs))"

fun crc_rest_big :: "u64 list list \<Rightarrow> u64 \<Rightarrow> byte list \<Rightarrow> u64" where
  "crc_rest_big t crc [] = crc"
| "crc_rest_big t crc (b # bs) = crc_rest_big t (crc_next_big t crc b) bs"

definition load64_big :: "byte list \<Rightarrow> u64" where
  "load64_big bs = load64 (rev bs)"

definition crc_word_big :: "u64 list list \<Rightarrow> u64 \<Rightarrow> byte list \<Rightarrow> u64" where
  "crc_word_big t crc bs =
     (let crc = crc XOR load64_big (take 8 bs) in
      t ! 0 ! unat (crc AND 0xff) XOR
      t ! 1 ! unat (drop_bit 8 crc AND 0xff) XOR
      t ! 2 ! unat (drop_bit 16 crc AND 0xff) XOR
      t ! 3 ! unat (drop_bit 24 crc AND 0xff) XOR
      t ! 4 ! unat (drop_bit 32 crc AND 0xff) XOR
      t ! 5 ! unat (drop_bit 40 crc AND 0xff) XOR
      t ! 6 ! unat (drop_bit 48 crc AND 0xff) XOR
      t ! 7 ! unat (drop_bit 56 crc))"

function crc_words_big :: "u64 list list \<Rightarrow> u64 \<Rightarrow> byte list \<Rightarrow> u64 \<times> byte list" where
  "crc_words_big t crc bs = (if 8 \<le> length bs then crc_words_big t (crc_word_big t crc bs) (drop 8 bs) else (crc, bs))"
  by pat_completeness auto
termination
  by (relation "measure (\<lambda>(t, crc, bs). length bs)") auto

declare crc_words_big.simps [simp del]

definition crcspeed64big :: "u64 list list \<Rightarrow> u64 \<Rightarrow> nat \<Rightarrow> byte list \<Rightarrow> u64" where
  "crcspeed64big t crc addr buf =
     (let (crc, next1) = crc_align_big t addr (rev8 crc) buf;
          (crc, next1) = crc_words_big t crc next1
      in rev8 (crc_rest_big t crc next1))"

text \<open>\<open>little\<close> is the byte order of the machine.\<close>

definition crcspeed64native :: "bool \<Rightarrow> crc64_globals \<Rightarrow> u64 list list \<Rightarrow> u64 \<Rightarrow> nat \<Rightarrow> byte list \<Rightarrow> u64 \<times> crc64_globals" where
  "crcspeed64native little g t crc addr buf =
     (if little then crcspeed64little g t crc addr buf else (crcspeed64big t crc addr buf, g))"

definition crcspeed64native_init :: "bool \<Rightarrow> (u64 \<Rightarrow> byte list \<Rightarrow> u64) \<Rightarrow> u64 list list" where
  "crcspeed64native_init little fn = (if little then crcspeed64little_init fn else crcspeed64big_init fn)"

definition crc64_init :: "bool \<Rightarrow> crc64_globals \<Rightarrow> crc64_globals" where
  "crc64_init little g = g\<lparr>crc64_table := crcspeed64native_init little crc64_bitwise\<rparr>"

definition crc64 :: "bool \<Rightarrow> crc64_globals \<Rightarrow> u64 \<Rightarrow> nat \<Rightarrow> byte list \<Rightarrow> u64 \<times> crc64_globals" where
  "crc64 little g crc addr s = crcspeed64native little g (crc64_table g) crc addr s"

section \<open>One bit of the reflected checksum\<close>

text \<open>The reference: the register moves down by one bit, and a bit that falls out adds the reversed polynomial.  The step
  is linear over exclusive or.\<close>

definition crc_step :: "u64 \<Rightarrow> u64" where
  "crc_step v = drop_bit 1 v XOR (if bit v 0 then CRC64_REVERSED_POLY else 0)"

definition crc_spec :: "u64 \<Rightarrow> byte list \<Rightarrow> u64" where
  "crc_spec crc bs = fold (\<lambda>b crc. (crc_step ^^ 8) (crc XOR ucast b)) bs crc"

definition xor_linear :: "(u64 \<Rightarrow> u64) \<Rightarrow> bool" where
  "xor_linear f \<longleftrightarrow> (\<forall>a b. f (a XOR b) = f a XOR f b)"

lemma xor_linearD: "xor_linear f \<Longrightarrow> f (a XOR b) = f a XOR f b"
  by (simp add: xor_linear_def)

lemma xor_linear_zero: "xor_linear f \<Longrightarrow> f 0 = 0"
  using xor_linearD [of f 0 0] by simp

lemma crc_step_linear: "xor_linear crc_step"
  by (auto simp: xor_linear_def crc_step_def bit_xor_iff ac_simps xor.left_commute)

lemma funpow_linear: "xor_linear f \<Longrightarrow> xor_linear (f ^^ n)"
  by (induction n) (simp_all add: xor_linear_def)

lemmas crc_pow_linear = xor_linearD [OF funpow_linear [OF crc_step_linear]]
lemmas crc_pow_zero = xor_linear_zero [OF funpow_linear [OF crc_step_linear]]

lemma crc_step_push: "(\<And>i. 64 - k \<le> i \<Longrightarrow> \<not> bit w i) \<Longrightarrow> (crc_step ^^ k) (push_bit k w) = w"
proof (induction k)
  case (Suc k)
  have "\<not> bit w (63 - k)" by (rule Suc.prems) simp
  then have "bit (crc_step (push_bit (Suc k) w)) n \<longleftrightarrow> bit (push_bit k w) n" if "n < 64" for n
    using that by (cases "n = 63") (auto simp: crc_step_def bit_simps simp del: push_bit_Suc)
  then have "crc_step (push_bit (Suc k) w) = push_bit k w" by (intro bit_word_eqI) simp
  moreover have "(crc_step ^^ k) (push_bit k w) = w" by (rule Suc.IH) (rule Suc.prems, simp)
  ultimately show ?case by (simp only: funpow_Suc_right comp_apply)
qed simp

lemma split_byte: "v = (v AND 0xff) XOR push_bit 8 (drop_bit 8 v)" for v :: u64
proof -
  have "v AND 0xff = take_bit 8 v" by (simp add: take_bit_eq_mask mask_eq_exp_minus_1)
  then show ?thesis by (auto simp: bit_simps intro!: bit_word_eqI)
qed

lemma crc_pow8_split: "(crc_step ^^ 8) v = (crc_step ^^ 8) (v AND 0xff) XOR drop_bit 8 v"
proof -
  have "(crc_step ^^ 8) (push_bit 8 (drop_bit 8 v)) = drop_bit 8 v"
    by (rule crc_step_push) (auto simp: bit_simps dest: bit_imp_le_length)
  then have "(crc_step ^^ 8) ((v AND 0xff) XOR push_bit 8 (drop_bit 8 v)) = (crc_step ^^ 8) (v AND 0xff) XOR drop_bit 8 v"
    by (simp only: crc_pow_linear)
  then show ?thesis by (simp only: split_byte [symmetric])
qed

lemma crc_pow_split:
  "(crc_step ^^ (8 + n)) v = (crc_step ^^ (8 + n)) (v AND 0xff) XOR (crc_step ^^ n) (drop_bit 8 v)"
proof -
  have "(crc_step ^^ (8 + n)) v = (crc_step ^^ n) ((crc_step ^^ 8) v)" for v by (simp add: funpow_add add.commute [of 8 n])
  then show ?thesis using crc_pow8_split [of v] crc_pow_linear [of n] by metis
qed

section \<open>The tables\<close>

definition good_tables :: "u64 list list \<Rightarrow> bool" where
  "good_tables t \<longleftrightarrow> length t = 8 \<and> (\<forall>k<8. length (t ! k) = 256 \<and> (\<forall>n<256. t ! k ! n = (crc_step ^^ (8 + 8 * k)) (of_nat n)))"

lemma unat_and_255: "unat (v AND 0xff :: u64) < 256"
  using unat_and_mask [of v 8] by (simp add: mask_eq_exp_minus_1)

lemma good_tables_at: "good_tables t \<Longrightarrow> k < 8 \<Longrightarrow> t ! k ! unat (v AND 0xff) = (crc_step ^^ (8 + 8 * k)) (v AND 0xff)"
  using unat_and_255 [of v] by (simp add: good_tables_def)

lemma crc_next_spec:
  assumes "good_tables t"
  shows "crc_next t crc b = (crc_step ^^ 8) (crc XOR ucast b)"
proof -
  have "drop_bit 8 (crc XOR ucast b) = drop_bit 8 crc"
    by (rule bit_word_eqI) (auto simp: bit_simps dest: bit_imp_le_length)
  then show ?thesis
    using good_tables_at [OF assms, of 0] crc_pow8_split [of "crc XOR ucast b"] by (simp add: crc_next_def)
qed

lemma ucast_byte_index: "unat (ucast v :: byte) = unat (v AND 0xff)" for v :: u64
  using unat_and_mask [of v 8] by (simp add: unsigned_ucast_eq take_bit_eq_mod mask_eq_exp_minus_1)

lemma drop_56_index: "drop_bit 56 v = drop_bit 56 v AND 0xff" for v :: u64
proof -
  have "n < 8" if "bit v (56 + n)" for n using bit_imp_le_length [OF that] by simp
  moreover have "drop_bit 56 v AND 0xff = take_bit 8 (drop_bit 56 v)" by (simp add: take_bit_eq_mask mask_eq_exp_minus_1)
  ultimately show ?thesis by (auto simp: bit_simps intro!: bit_word_eqI)
qed

lemma DO_8_2_spec:
  assumes t: "good_tables t"
  shows "DO_8_2 t crc = (crc_step ^^ 64) crc"
proof -
  have index: "t ! k ! unat (ucast v :: byte) = (crc_step ^^ (8 + 8 * k)) (v AND 0xff)" if "k < 8" for k and v :: u64
    using that by (simp add: ucast_byte_index good_tables_at [OF t])
  have last: "t ! 0 ! unat (drop_bit 56 crc) = (crc_step ^^ 8) (drop_bit 56 crc AND 0xff)"
    by (subst drop_56_index) (simp add: good_tables_at [OF t])
  have next8: "drop_bit 8 (drop_bit k crc) = drop_bit (k + 8) crc" for k by (simp add: add.commute)
  have "(drop_bit 64 crc :: u64) = 0" by (rule bit_word_eqI) (simp add: bit_simps)
  then show ?thesis
    using crc_pow_split [of 56 crc] crc_pow_split [of 48 "drop_bit 8 crc"] crc_pow_split [of 40 "drop_bit 16 crc"]
      crc_pow_split [of 32 "drop_bit 24 crc"] crc_pow_split [of 24 "drop_bit 32 crc"] crc_pow_split [of 16 "drop_bit 40 crc"]
      crc_pow_split [of 8 "drop_bit 48 crc"] crc_pow_split [of 0 "drop_bit 56 crc"]
    by (simp add: DO_8_2_def index last next8 xor.assoc)
qed

text \<open>Eight bytes at once.\<close>

lemma load64_high: "8 * length bs \<le> i \<Longrightarrow> \<not> bit (load64 bs) i"
proof (induction bs arbitrary: i)
  case (Cons b bs)
  then have "8 * length bs \<le> i - 8" "8 \<le> i" by simp_all
  then show ?case using Cons.IH [of "i - 8"] by (auto simp: bit_simps dest: bit_imp_le_length)
qed simp

lemma crc_spec_Cons [simp]: "crc_spec crc (b # bs) = crc_spec ((crc_step ^^ 8) (crc XOR ucast b)) bs"
  by (simp add: crc_spec_def)

lemma crc_spec_Nil [simp]: "crc_spec crc [] = crc"
  by (simp add: crc_spec_def)

lemma crc_spec_append: "crc_spec crc (xs @ ys) = crc_spec (crc_spec crc xs) ys"
  by (simp add: crc_spec_def)

lemma crc_spec_load: "length bs \<le> 8 \<Longrightarrow> crc_spec crc bs = (crc_step ^^ (8 * length bs)) (crc XOR load64 bs)"
proof (induction bs arbitrary: crc)
  case (Cons b bs)
  define rest where "rest = load64 bs"
  have high: "\<not> bit rest i" if "56 \<le> i" for i using that Cons.prems unfolding rest_def by (intro load64_high) simp
  have "ucast b OR push_bit 8 rest = ucast b XOR push_bit 8 rest"
    by (rule bit_word_eqI) (auto simp: bit_simps dest: bit_imp_le_length)
  moreover have "(crc_step ^^ 8) (push_bit 8 rest) = rest" by (rule crc_step_push) (rule high, simp)
  ultimately have "(crc_step ^^ 8) (crc XOR load64 (b # bs)) = (crc_step ^^ 8) (crc XOR ucast b) XOR rest"
    by (simp add: rest_def [symmetric] crc_pow_linear xor.assoc)
  moreover have "(crc_step ^^ (8 * length (b # bs))) v = (crc_step ^^ (8 * length bs)) ((crc_step ^^ 8) v)" for v
    by (simp add: funpow_add add.commute [of 8])
  ultimately show ?case using Cons.IH [of "(crc_step ^^ 8) (crc XOR ucast b)"] Cons.prems by (simp add: rest_def)
qed simp

lemma crc_word_spec:
  assumes "good_tables t" "8 \<le> length bs"
  shows "DO_8_2 t (DO_8_1 crc bs) = crc_spec crc (take 8 bs)"
  using assms crc_spec_load [of "take 8 bs" crc] by (simp add: DO_8_2_spec DO_8_1_def)

lemma crc_rest_spec: "good_tables t \<Longrightarrow> crc_rest t crc bs = crc_spec crc bs"
  by (induction bs arbitrary: crc) (simp_all add: crc_next_spec)

lemma crc_align_spec:
  "good_tables t \<Longrightarrow> crc_align t addr crc bs = (crc', bs') \<Longrightarrow> crc_spec crc bs = crc_spec crc' bs' \<and> length bs' \<le> length bs"
  by (induction bs arbitrary: addr crc) (fastforce simp: crc_next_spec split: if_splits)+

lemma crc_words_spec: "good_tables t \<Longrightarrow> crc_words t crc bs = (crc', bs') \<Longrightarrow> crc_spec crc bs = crc_spec crc' bs'"
proof (induction t crc bs rule: crc_words.induct)
  case (1 t crc bs)
  show ?case
  proof (cases "8 \<le> length bs")
    case True
    have "crc_spec crc bs = crc_spec (crc_spec crc (take 8 bs)) (drop 8 bs)" by (simp add: crc_spec_append [symmetric])
    then show ?thesis
      using "1.IH" [OF True "1.prems"(1)] "1.prems" True crc_word_spec [OF "1.prems"(1) True, of crc]
      by (simp add: crc_words.simps [of t crc bs])
  next
    case False
    then show ?thesis using "1.prems"(2) by (simp add: crc_words.simps [of t crc bs])
  qed
qed

text \<open>Segments side by side.\<close>

lemma crc_dual_spec:
  assumes "good_tables t" "8 dvd len" "len \<le> length n1" "len \<le> length n2"
  shows "crc_dual t len c1 n1 c2 n2 = (crc_spec c1 (take len n1), crc_spec c2 (take len n2), drop len n2)"
  using assms
proof (induction t len c1 n1 c2 n2 rule: crc_dual.induct)
  case (1 t len c1 n1 c2 n2)
  show ?case
  proof (cases "8 \<le> len")
    case True
    then have split: "take len xs = take 8 xs @ take (len - 8) (drop 8 xs)" for xs :: "byte list"
      by (metis le_add_diff_inverse take_add)
    have "8 dvd len - 8" using "1.prems"(2) True by simp
    then show ?thesis
      using "1.IH" "1.prems" True by (subst crc_dual.simps) (simp add: crc_word_spec split [of n1] split [of n2] crc_spec_append)
  next
    case False
    then have "len = 0" using "1.prems"(2) by (auto elim!: dvdE)
    then show ?thesis by (simp add: crc_dual.simps)
  qed
qed

lemma crc_tri_spec:
  assumes "good_tables t" "8 dvd len" "len \<le> length n1" "len \<le> length n2" "len \<le> length n3"
  shows "crc_tri t len c1 n1 c2 n2 c3 n3 =
    (crc_spec c1 (take len n1), crc_spec c2 (take len n2), crc_spec c3 (take len n3), drop len n3)"
  using assms
proof (induction t len c1 n1 c2 n2 c3 n3 rule: crc_tri.induct)
  case (1 t len c1 n1 c2 n2 c3 n3)
  show ?case
  proof (cases "8 \<le> len")
    case True
    then have split: "take len xs = take 8 xs @ take (len - 8) (drop 8 xs)" for xs :: "byte list"
      by (metis le_add_diff_inverse take_add)
    have "8 dvd len - 8" using "1.prems"(2) True by simp
    then show ?thesis
      using "1.IH" "1.prems" True
      by (subst crc_tri.simps) (simp add: crc_word_spec split [of n1] split [of n2] split [of n3] crc_spec_append)
  next
    case False
    then have "len = 0" using "1.prems"(2) by (auto elim!: dvdE)
    then show ?thesis by (simp add: crc_tri.simps)
  qed
qed

lemma CRC64_SPLIT_spec: "8 dvd CRC64_SPLIT len d" "CRC64_SPLIT len d \<le> len div d"
proof -
  define v :: u64 where "v = of_nat (len div d)"
  have "(0x7ffffffffffffff8 :: u64) = NOT (mask 3) AND 0x7fffffffffffffff" by (simp add: mask_eq_exp_minus_1)
  then have "CRC64_SPLIT len d = unat ((v AND 0x7fffffffffffffff) AND NOT (mask 3))"
    by (simp add: CRC64_SPLIT_def v_def ac_simps)
  then show "8 dvd CRC64_SPLIT len d" by (simp only: unat_and_not_mask) simp
  have "unat (v AND 0x7ffffffffffffff8) \<le> unat v" by (simp add: word_and_le1 word_le_nat_alt [symmetric] word_and_le2)
  also have "unat v \<le> len div d" by (simp add: v_def unsigned_of_nat take_bit_eq_mod)
  finally show "CRC64_SPLIT len d \<le> len div d" by (simp add: CRC64_SPLIT_def v_def)
qed

lemma CRC64_SPLIT_less: "CRC64_SPLIT len d < 2 ^ 64"
  unfolding CRC64_SPLIT_def by (rule unsigned_less [where ?'a = nat, THEN less_le_trans]) simp

section \<open>Matrices and joining\<close>

text \<open>A matrix stands for a linear function when its rows are the images of the single bits.\<close>

definition represents :: "u64 list \<Rightarrow> (u64 \<Rightarrow> u64) \<Rightarrow> bool" where
  "represents mat f \<longleftrightarrow> xor_linear f \<and> 4 dvd length mat \<and> (\<forall>i<length mat. mat ! i = f (push_bit i 1))"

lemma low4_bits:
  "(v AND 15 :: u64) = (if bit v 0 then 1 else 0) XOR (if bit v 1 then 2 else 0) XOR (if bit v 2 then 4 else 0) XOR (if bit v 3 then 8 else 0)"
proof -
  have p: "bit (2 ^ m :: u64) n \<longleftrightarrow> n = m" if "m < 64" for m n using that by (auto simp: bit_exp_iff)
  have b: "bit (1::u64) n \<longleftrightarrow> n = 0" "bit (2::u64) n \<longleftrightarrow> n = 1" "bit (4::u64) n \<longleftrightarrow> n = 2" "bit (8::u64) n \<longleftrightarrow> n = 3" for n
    using p [of 0 n] p [of 1 n] p [of 2 n] p [of 3 n] by simp_all
  have m: "bit (15::u64) n \<longleftrightarrow> n < 4" for n
    using bit_mask_iff [of 4 n, where ?'a = u64] by (auto simp: mask_eq_exp_minus_1)
  have i: "bit (if P then x else 0) n \<longleftrightarrow> P \<and> bit x n" for P n and x :: u64 by simp
  show ?thesis
  proof (rule bit_word_eqI)
    fix n :: nat
    consider "n = 0" | "n = 1" | "n = 2" | "n = 3" | "4 \<le> n" by linarith
    then show "bit (v AND 15) n \<longleftrightarrow> bit ((if bit v 0 then 1 else 0 :: u64) XOR (if bit v 1 then 2 else 0) XOR
        (if bit v 2 then 4 else 0) XOR (if bit v 3 then 8 else 0)) n"
      by cases (simp_all only: bit_and_iff bit_xor_iff i b m, simp_all)
  qed
qed

lemma gf2_cases_spec:
  assumes "represents mat f" "4 \<le> length mat"
  shows "gf2_cases mat (unat (v AND 15)) = f (v AND 15)"
proof -
  have lin: "xor_linear f" and row: "\<And>i. i < 4 \<Longrightarrow> mat ! i = f (push_bit i 1)" using assms by (auto simp: represents_def)
  have rows: "mat ! 0 = f 1" "mat ! Suc 0 = f 2" "mat ! 2 = f 4" "mat ! 3 = f 8"
    using row [of 0] row [of 1] row [of 2] row [of 3] by simp_all
  show ?thesis
    unfolding low4_bits gf2_cases_def Let_def
    by (cases "bit v 0"; cases "bit v 1"; cases "bit v 2"; cases "bit v 3")
      (simp_all add: rows xor_linear_zero [OF lin] xor_linearD [OF lin, symmetric])
qed

lemma represents_drop: "represents mat f \<Longrightarrow> represents (drop 4 mat) (\<lambda>v. f (push_bit 4 v))"
  by (auto simp: represents_def xor_linear_def push_bit_xor dvd_diff_nat add.commute simp del: push_bit_of_1)

lemma split_nibble: "v = (v AND 15) XOR push_bit 4 (drop_bit 4 v)" for v :: u64
proof -
  have "v AND 15 = take_bit 4 v" by (simp add: take_bit_eq_mask mask_eq_exp_minus_1)
  then show ?thesis by (auto simp: bit_simps intro!: bit_word_eqI)
qed

lemma gf2_times_loop_spec:
  "represents mat f \<Longrightarrow> (\<And>i. length mat \<le> i \<Longrightarrow> \<not> bit vec i) \<Longrightarrow> gf2_times_loop mat vec acc = acc XOR f vec"
proof (induction mat vec acc arbitrary: f rule: gf2_times_loop.induct)
  case (1 mat vec acc)
  show ?case
  proof (cases "vec = 0")
    case True
    then show ?thesis using "1.prems"(1) by (simp add: gf2_times_loop.simps represents_def xor_linear_zero)
  next
    case False
    then obtain i where "bit vec i" by (auto simp: bit_eq_iff)
    then have "i < length mat" using "1.prems"(2) not_le by blast
    then have four: "4 \<le> length mat" using "1.prems"(1) by (auto simp: represents_def elim!: dvdE)
    have "gf2_times_loop (drop 4 mat) (drop_bit 4 vec) (acc XOR gf2_cases mat (unat (vec AND 15))) =
        (acc XOR gf2_cases mat (unat (vec AND 15))) XOR f (push_bit 4 (drop_bit 4 vec))"
      by (rule "1.IH" [OF False represents_drop [OF "1.prems"(1)]]) (use "1.prems"(2) in \<open>auto simp: bit_simps\<close>)
    also have "\<dots> = acc XOR (f (vec AND 15) XOR f (push_bit 4 (drop_bit 4 vec)))"
      by (simp add: gf2_cases_spec [OF "1.prems"(1) four] xor.assoc)
    also have "f (vec AND 15) XOR f (push_bit 4 (drop_bit 4 vec)) = f vec"
      using "1.prems"(1) by (metis represents_def xor_linearD split_nibble)
    finally show ?thesis using False by (subst gf2_times_loop.simps) simp
  qed
qed

lemma gf2_times_spec: "represents mat f \<Longrightarrow> length mat = 64 \<Longrightarrow> gf2_matrix_times_switch mat vec = f vec"
  unfolding gf2_matrix_times_switch_def by (subst gf2_times_loop_spec) (auto dest: bit_imp_le_length)

lemma gf2_square_spec:
  assumes "represents mat f" "length mat = 64" "length sq = 64"
  shows "represents (gf2_matrix_square sq mat 64) (f \<circ> f)" "length (gf2_matrix_square sq mat 64) = 64"
  using assms by (auto simp: represents_def xor_linear_def gf2_matrix_square_def nth_append gf2_times_spec [OF assms(1,2)])

lemma crc_step_single: "0 < n \<Longrightarrow> n < 64 \<Longrightarrow> crc_step (push_bit n 1) = push_bit (n - 1) 1"
  by (cases n) (auto simp: crc_step_def bit_simps intro!: bit_word_eqI simp del: push_bit_Suc push_bit_of_1)

lemma one_bit_matrix:
  "represents (CRC64_REVERSED_POLY # map (\<lambda>n. push_bit (n - 1) 1) [1..<64] @ drop 64 row) crc_step"
  if "length row = 64"
proof -
  have "(CRC64_REVERSED_POLY # map (\<lambda>n. push_bit (n - 1) 1) [1..<64]) ! i = crc_step (push_bit i 1)" if "i < 64" for i
  proof (cases i)
    case 0
    then show ?thesis by (simp add: crc_step_def)
  next
    case (Suc j)
    then show ?thesis using that crc_step_single [of i] by simp
  qed
  then show ?thesis using that crc_step_linear by (simp add: represents_def)
qed

text \<open>The cache: its matrix \<open>k\<close> stands for \<open>2 ^ k\<close> zero bytes.\<close>

definition rows64 :: "u64 list list \<Rightarrow> bool" where
  "rows64 c \<longleftrightarrow> length c = 64 \<and> (\<forall>k<64. length (c ! k) = 64)"

definition good_upto :: "nat \<Rightarrow> u64 list list \<Rightarrow> bool" where
  "good_upto n c \<longleftrightarrow> rows64 c \<and> (\<forall>k<n. represents (c ! k) (crc_step ^^ (8 * 2 ^ k)))"

definition cache_ok :: "u64 list list \<Rightarrow> bool" where
  "cache_ok c \<longleftrightarrow> rows64 c \<and> (c ! 0 ! 0 = 0 \<or> good_upto 64 c)"

lemma rows64_upd: "rows64 c \<Longrightarrow> length r = 64 \<Longrightarrow> rows64 (c[k := r])"
  by (cases "k < 64") (auto simp: rows64_def nth_list_update)

lemma good_upto_step:
  assumes "good_upto k c" "0 < k" "k < 64"
  shows "good_upto (Suc k) (c[k := gf2_matrix_square (c ! k) (c ! (k - 1)) 64])"
proof -
  have r: "rows64 c" "represents (c ! (k - 1)) (crc_step ^^ (8 * 2 ^ (k - 1)))" using assms by (auto simp: good_upto_def)
  have len: "length (c ! (k - 1)) = 64" "length (c ! k) = 64" "length c = 64" using r(1) assms by (auto simp: rows64_def)
  note sq = gf2_square_spec [OF r(2) len(1,2)]
  have "(8::nat) * 2 ^ k = 8 * 2 ^ (k - 1) + 8 * 2 ^ (k - 1)" using assms(2) by (cases k) simp_all
  then have "(crc_step ^^ (8 * 2 ^ (k - 1))) \<circ> (crc_step ^^ (8 * 2 ^ (k - 1))) = crc_step ^^ (8 * 2 ^ k)"
    by (simp only: funpow_add)
  then show ?thesis
    using assms r(1) sq len by (auto simp: good_upto_def less_Suc_eq nth_list_update intro: rows64_upd)
qed

lemma good_upto_fold: "good_upto m c \<Longrightarrow> 0 < m \<Longrightarrow> m \<le> n \<Longrightarrow> n \<le> 64 \<Longrightarrow>
  good_upto n (fold (\<lambda>k c. c[k := gf2_matrix_square (c ! k) (c ! (k - 1)) 64]) [m..<n] c)"
proof (induction n)
  case (Suc n)
  show ?case
  proof (cases "m \<le> n")
    case True
    then have "0 < n" "n < 64" "n \<le> 64" using Suc.prems by simp_all
    with good_upto_step [OF Suc.IH [OF Suc.prems(1,2) True]] True show ?thesis by simp
  next
    case False
    then have "m = Suc n" using Suc.prems(3) by simp
    then show ?thesis using Suc.prems(1) by simp
  qed
qed simp

lemma init_combine_cache_spec:
  assumes "rows64 cache"
  shows "good_upto 64 (init_combine_cache cache CRC64_REVERSED_POLY 64)"
proof -
  have len: "length cache = 64" "length (cache ! 0) = 64" "length (cache ! 1) = 64" using assms by (auto simp: rows64_def)
  define r1 where "r1 = CRC64_REVERSED_POLY # map (\<lambda>n. push_bit (n - 1) 1) [1..<64] @ drop 64 (cache ! 1)"
  define r2 where "r2 = gf2_matrix_square (cache ! 0) r1 64"
  define r3 where "r3 = gf2_matrix_square r1 r2 64"
  define r4 where "r4 = gf2_matrix_square r2 r3 64"
  have l1: "length r1 = 64" using len by (simp add: r1_def)
  have m1: "represents r1 (crc_step ^^ 1)" using one_bit_matrix [OF len(3)] by (simp add: r1_def)
  note m2 = gf2_square_spec [OF m1 l1 len(2), folded r2_def funpow_add]
  note m3 = gf2_square_spec [OF m2 l1, folded r3_def funpow_add]
  note m4 = gf2_square_spec [OF m3 m2(2), folded r4_def funpow_add]
  define c where "c = cache[1 := r3, 0 := r4]"
  have "rows64 c" unfolding c_def using assms m3(2) m4(2) by (intro rows64_upd)
  moreover have "represents r4 (crc_step ^^ 8)" using m4(1) by (simp add: numeral_eq_Suc comp_assoc)
  ultimately have "good_upto 1 c" using len by (simp add: good_upto_def c_def)
  then have "good_upto 64 (fold (\<lambda>k c. c[k := gf2_matrix_square (c ! k) (c ! (k - 1)) 64]) [1..<64] c)"
    by (rule good_upto_fold) simp_all
  moreover have "init_combine_cache cache CRC64_REVERSED_POLY 64 =
      fold (\<lambda>k c. c[k := gf2_matrix_square (c ! k) (c ! (k - 1)) 64]) [1..<64] c"
  proof -
    have at: "cache[1 := r1] ! 0 = cache ! 0" "cache[1 := r1] ! 1 = r1" "cache[1 := r1, 0 := r2] ! 1 = r1" "cache[1 := r1, 0 := r2] ! 0 = r2"
      "cache[1 := r1, 0 := r2, 1 := r3] ! 0 = r2" "cache[1 := r1, 0 := r2, 1 := r3] ! 1 = r3"
      using len(1) by simp_all
    have "cache[1 := r1, 0 := r2, 1 := r3, 0 := r4] = c"
      using len(1) by (auto simp: c_def list_eq_iff_nth_eq nth_list_update)
    then show ?thesis
      unfolding init_combine_cache_def Let_def r1_def [symmetric] at r2_def [symmetric] r3_def [symmetric] r4_def [symmetric] by simp
  qed
  ultimately show ?thesis by simp
qed

lemma combine_loop_spec:
  assumes "good_upto 64 cache" "k < 64" "len2 < 2 ^ (64 - k)"
  shows "combine_loop cache k len2 crc = (crc_step ^^ (8 * 2 ^ k * len2)) crc"
  using assms
proof (induction cache k len2 crc rule: combine_loop.induct)
  case (1 cache k len2 crc)
  define crc' where "crc' = (if odd len2 then gf2_matrix_times_switch (cache ! k) crc else crc)"
  have "represents (cache ! k) (crc_step ^^ (8 * 2 ^ k))" "length (cache ! k) = 64"
    using "1.prems"(1,2) by (simp_all add: good_upto_def rows64_def)
  then have crc': "crc' = (crc_step ^^ (8 * 2 ^ k * (len2 mod 2))) crc"
    by (simp add: crc'_def gf2_times_spec mod2_eq_if)
  have all: "(crc_step ^^ (8 * 2 ^ (k + 1) * (len2 div 2))) crc' = (crc_step ^^ (8 * 2 ^ k * len2)) crc"
  proof -
    have "8 * 2 ^ k * (q * 2 + r) = 8 * 2 ^ (k + 1) * q + 8 * 2 ^ k * r" for q r :: nat by (simp add: algebra_simps)
    from this [of "len2 div 2" "len2 mod 2"]
    have "8 * 2 ^ k * len2 = 8 * 2 ^ (k + 1) * (len2 div 2) + 8 * 2 ^ k * (len2 mod 2)" by (simp only: div_mult_mod_eq)
    then show ?thesis by (simp only: crc' funpow_add comp_apply)
  qed
  show ?case
  proof (cases "len2 div 2 = 0")
    case True
    then show ?thesis using all by (subst combine_loop.simps) (simp add: crc'_def [symmetric])
  next
    case False
    then have "2 ^ 1 \<le> len2" by (simp add: div_eq_0_iff)
    then have "(2::nat) ^ 1 < 2 ^ (64 - k)" using "1.prems"(3) by (rule le_less_trans)
    then have "1 < 64 - k" by (rule power_less_imp_less_exp [rotated]) simp
    then have k: "k + 1 < 64" and e: "64 - k = Suc (64 - (k + 1))" by linarith+
    have "(2::nat) ^ (64 - k) = 2 * 2 ^ (64 - (k + 1))" unfolding e power_Suc ..
    then have half: "len2 div 2 < 2 ^ (64 - (k + 1))" using "1.prems"(3) by simp
    have "combine_loop cache ((k + 1) mod 64) (len2 div 2) crc' = (crc_step ^^ (8 * 2 ^ (k + 1) * (len2 div 2))) crc'"
      using "1.IH" [OF crc'_def refl refl False] "1.prems"(1) k half by simp
    then show ?thesis using all False by (subst combine_loop.simps) (simp add: crc'_def [symmetric])
  qed
qed

lemma crc_spec_join: "crc_spec (a XOR b) bs = (crc_step ^^ (8 * length bs)) a XOR crc_spec b bs"
proof (induction bs arbitrary: a b)
  case (Cons c bs)
  have "(crc_step ^^ 8) ((a XOR b) XOR ucast c) = (crc_step ^^ 8) a XOR (crc_step ^^ 8) (b XOR ucast c)"
    by (simp add: crc_pow_linear xor.assoc)
  then show ?case using Cons.IH by (simp add: funpow_add add.commute [of 8])
qed simp

lemma MERGE_CRC_spec:
  assumes "cache_ok cache" "length bs < 2 ^ 64"
  shows "\<exists>cache'. MERGE_CRC cache crc (crc_spec 0 bs) (length bs) = (crc_spec crc bs, cache') \<and> cache_ok cache'"
proof (cases "length bs = 0")
  case True
  then show ?thesis using assms(1) by (simp add: MERGE_CRC_def crc64_combine_def)
next
  case False
  define cache' where "cache' = (if cache ! 0 ! 0 = 0 then init_combine_cache cache CRC64_REVERSED_POLY 64 else cache)"
  have good: "good_upto 64 cache'"
    using assms(1) init_combine_cache_spec [of cache] by (auto simp: cache'_def cache_ok_def)
  then have "combine_loop cache' 0 (length bs) crc XOR crc_spec 0 bs = crc_spec crc bs"
    using combine_loop_spec [OF good, of 0 "length bs" crc] assms(2) crc_spec_join [of crc 0 bs] by simp
  moreover have "cache_ok cache'" using good by (simp add: cache_ok_def good_upto_def)
  ultimately show ?thesis
    using False by (intro exI [of _ cache']) (simp add: MERGE_CRC_def crc64_combine_def cache'_def [symmetric] Let_def)
qed

section \<open>The fast checksum is the reference\<close>

lemma tri_part:
  assumes "good_tables t" "cache_ok cache" "seg = CRC64_SPLIT (length bs) 3"
    "crc_tri t seg crc bs 0 (drop seg bs) 0 (drop (seg + seg) bs) = (c1, c2, c3, bs')"
  shows "\<exists>c cache1 c' cache2. MERGE_CRC cache c1 c2 seg = (c, cache1) \<and> MERGE_CRC cache1 c c3 seg = (c', cache2) \<and>
    cache_ok cache2 \<and> crc_spec c' bs' = crc_spec crc bs"
proof -
  have seg: "8 dvd seg" "3 * seg \<le> length bs" using CRC64_SPLIT_spec [where len = "length bs" and d = 3] assms(3) by auto
  define A where "A = take seg bs" define B where "B = take seg (drop seg bs)" define C where "C = take seg (drop (seg + seg) bs)"
  have len: "length A = seg" "length B = seg" "length C = seg" using seg(2) by (simp_all add: A_def B_def C_def)
  have r: "c1 = crc_spec crc A" "c2 = crc_spec 0 B" "c3 = crc_spec 0 C" "bs' = drop seg (drop (seg + seg) bs)"
    using crc_tri_spec [OF assms(1) seg(1), of bs "drop seg bs" "drop (seg + seg) bs" crc 0 0] seg(2) assms(4)
    by (simp_all add: A_def B_def C_def)
  have all: "bs = A @ B @ C @ bs'" unfolding r(4) A_def B_def C_def by (metis append_take_drop_id drop_drop)
  have small: "length B < 2 ^ 64" "length C < 2 ^ 64" using len CRC64_SPLIT_less assms(3) by simp_all
  from MERGE_CRC_spec [OF assms(2) small(1), of c1] obtain cache1 where
    m1: "MERGE_CRC cache c1 c2 seg = (crc_spec c1 B, cache1)" "cache_ok cache1" by (auto simp: r(2) len)
  from MERGE_CRC_spec [OF m1(2) small(2), of "crc_spec c1 B"] obtain cache2 where
    m2: "MERGE_CRC cache1 (crc_spec c1 B) c3 seg = (crc_spec (crc_spec c1 B) C, cache2)" "cache_ok cache2" by (auto simp: r(3) len)
  have "crc_spec (crc_spec (crc_spec c1 B) C) bs' = crc_spec crc bs" by (subst all) (simp add: r(1) crc_spec_append)
  then show ?thesis using m1(1) m2 by blast
qed

lemma dual_part:
  assumes "good_tables t" "cache_ok cache" "seg = CRC64_SPLIT (length bs) 2"
    "crc_dual t seg crc bs 0 (drop seg bs) = (c1, c2, bs')"
  shows "\<exists>c cache1. MERGE_CRC cache c1 c2 seg = (c, cache1) \<and> cache_ok cache1 \<and> crc_spec c bs' = crc_spec crc bs"
proof -
  have seg: "8 dvd seg" "2 * seg \<le> length bs" using CRC64_SPLIT_spec [where len = "length bs" and d = 2] assms(3) by auto
  define A where "A = take seg bs" define B where "B = take seg (drop seg bs)"
  have len: "length A = seg" "length B = seg" using seg(2) by (simp_all add: A_def B_def)
  have r: "c1 = crc_spec crc A" "c2 = crc_spec 0 B" "bs' = drop seg (drop seg bs)"
    using crc_dual_spec [OF assms(1) seg(1), of bs "drop seg bs" crc 0] seg(2) assms(4) by (simp_all add: A_def B_def)
  have all: "bs = A @ B @ bs'" unfolding r(3) A_def B_def by (metis append_take_drop_id)
  have small: "length B < 2 ^ 64" using len CRC64_SPLIT_less assms(3) by simp
  from MERGE_CRC_spec [OF assms(2) small, of c1] obtain cache1 where
    m1: "MERGE_CRC cache c1 c2 seg = (crc_spec c1 B, cache1)" "cache_ok cache1" by (auto simp: r(2) len)
  have "crc_spec (crc_spec c1 B) bs' = crc_spec crc bs" by (subst all) (simp add: r(1) crc_spec_append)
  then show ?thesis using m1 by blast
qed

lemma crcspeed64little_spec:
  assumes t: "good_tables t" and cache: "cache_ok (combine_cache g)"
  shows "\<exists>cache'. crcspeed64little g t crc addr buf = (crc_spec crc buf, g\<lparr>combine_cache := cache'\<rparr>) \<and> cache_ok cache'"
proof (cases "CRC64_DUAL_CUTOFF g < 1")
  case True
  then show ?thesis using cache by (intro exI [of _ "combine_cache g"]) (simp add: crcspeed64little_def crc_rest_spec [OF t])
next
  case False
  obtain c1 bs where al: "crc_align t addr crc buf = (c1, bs)" by (cases "crc_align t addr crc buf")
  then have al': "crc_spec crc buf = crc_spec c1 bs" using crc_align_spec [OF t al] by auto
  define mid where "mid =
     (if length bs > CRC64_TRI_CUTOFF g
      then let seg = CRC64_SPLIT (length bs) 3;
               (crc1, crc2, crc3, next3) = crc_tri t seg c1 bs 0 (drop seg bs) 0 (drop (seg + seg) bs);
               (crc1, cache) = MERGE_CRC (combine_cache g) crc1 crc2 seg;
               (crc1, cache) = MERGE_CRC cache crc1 crc3 seg
           in (crc1, next3, cache)
      else if length bs > CRC64_DUAL_CUTOFF g
      then let seg = CRC64_SPLIT (length bs) 2;
               (crc1, crc2, next2) = crc_dual t seg c1 bs 0 (drop seg bs);
               (crc1, cache) = MERGE_CRC (combine_cache g) crc1 crc2 seg
           in (crc1, next2, cache)
      else (c1, bs, combine_cache g))"
  have "\<exists>c2 bs2 cache2. mid = (c2, bs2, cache2) \<and> cache_ok cache2 \<and> crc_spec c2 bs2 = crc_spec c1 bs"
  proof -
    consider (tri) "length bs > CRC64_TRI_CUTOFF g" | (dual) "\<not> length bs > CRC64_TRI_CUTOFF g" "length bs > CRC64_DUAL_CUTOFF g"
      | (single) "\<not> length bs > CRC64_TRI_CUTOFF g" "\<not> length bs > CRC64_DUAL_CUTOFF g" by blast
    then show ?thesis
    proof cases
      case tri
      obtain a b c d where "crc_tri t (CRC64_SPLIT (length bs) 3) c1 bs 0 (drop (CRC64_SPLIT (length bs) 3) bs) 0
          (drop (CRC64_SPLIT (length bs) 3 + CRC64_SPLIT (length bs) 3) bs) = (a, b, c, d)" by (metis prod_cases4)
      with tri_part [OF t cache refl this] tri show ?thesis by (auto simp: mid_def Let_def)
    next
      case dual
      obtain a b d where "crc_dual t (CRC64_SPLIT (length bs) 2) c1 bs 0 (drop (CRC64_SPLIT (length bs) 2) bs) = (a, b, d)"
        by (metis prod_cases3)
      with dual_part [OF t cache refl this] dual show ?thesis by (auto simp: mid_def Let_def)
    next
      case single
      then show ?thesis using cache by (simp add: mid_def)
    qed
  qed
  then obtain c2 bs2 cache2 where mid: "mid = (c2, bs2, cache2)" "cache_ok cache2" "crc_spec c2 bs2 = crc_spec c1 bs" by blast
  obtain c3 bs3 where w: "crc_words t c2 bs2 = (c3, bs3)" by (cases "crc_words t c2 bs2")
  have "crcspeed64little g t crc addr buf = (crc_rest t c3 bs3, g\<lparr>combine_cache := cache2\<rparr>)"
    using False mid(1) unfolding crcspeed64little_def al prod.case Let_def mid_def by (simp add: w)
  then show ?thesis
    using mid(2,3) al' crc_words_spec [OF t w] by (auto simp: crc_rest_spec [OF t])
qed

section \<open>Reflection: the reference is the bit-by-bit code\<close>

abbreviation reflect :: "u64 \<Rightarrow> u64" where
  "reflect v \<equiv> crc_reflect v 64"

lemma swap_round:
  assumes s: "s \<in> {1, 2, 4, 8, 16, 32}"
  shows "(drop_bit s d AND round_mask s) OR push_bit s (d AND round_mask s) = rev_round s d"
proof (rule bit_word_eqI)
  fix i assume "i < LENGTH(64)"
  then have i: "i < 64" by simp
  have pos: "0 < s" using s by auto
  have "(i - s) div s = i div s - 1" if "s \<le> i" using that pos by (metis le_div_geq diff_Suc_1 Suc_eq_plus1_left add.commute)
  moreover have "0 < i div s" if "s \<le> i" using that pos by (simp add: div_greater_zero_iff)
  ultimately have "s \<le> i \<Longrightarrow> bit (round_mask s) (i - s) \<longleftrightarrow> \<not> bit (round_mask s) i"
    using round_mask_bits [OF s, of "i - s"] round_mask_bits [OF s i] i by simp
  then show "bit ((drop_bit s d AND round_mask s) OR push_bit s (d AND round_mask s)) i \<longleftrightarrow> bit (rev_round s d) i"
    using i by (auto simp: rev_round_def bit_simps)
qed

lemma reflect_rounds: "reflect v = rev_round 32 (rev_round 16 (rev_round 8 (rev_round 4 (rev_round 2 (rev_round 1 v)))))"
  using swap_round [of 1] swap_round [of 2] swap_round [of 4] swap_round [of 8] swap_round [of 16] swap_round [of 32]
  by (simp add: crc_reflect_def Let_def round_mask_def)

lemma bit_reflect: "i < 64 \<Longrightarrow> bit (reflect v) i \<longleftrightarrow> bit v (63 - i)"
  by (simp add: reflect_rounds rev_round_bit rev_swap_less rev_swaps_up del: One_nat_def)

lemma reflect_reflect [simp]: "reflect (reflect v) = v"
  by (rule bit_word_eqI) (simp add: bit_reflect)

lemma reflect_xor: "reflect (a XOR b) = reflect a XOR reflect b"
  by (rule bit_word_eqI) (simp add: bit_reflect bit_xor_iff)

lemma reflect_push: "reflect (push_bit 1 v) = drop_bit 1 (reflect v)"
proof (rule bit_word_eqI)
  fix i assume "i < LENGTH(64)"
  then have i: "i < 64" by simp
  show "bit (reflect (push_bit 1 v)) i \<longleftrightarrow> bit (drop_bit 1 (reflect v)) i"
  proof (cases "i = 63")
    case True
    have "\<not> bit (reflect v) 64" by (auto dest: bit_imp_le_length)
    then show ?thesis using True by (simp add: bit_reflect bit_push_bit_iff bit_drop_bit_eq del: One_nat_def)
  next
    case False
    then have "1 \<le> 63 - i" "63 - i < 64" using i by linarith+
    then show ?thesis using i by (simp add: bit_reflect bit_push_bit_iff bit_drop_bit_eq del: One_nat_def)
  qed
qed

lemma reflect_POLY: "reflect POLY = CRC64_REVERSED_POLY"
  by (simp add: crc_reflect_def POLY_def CRC64_REVERSED_POLY_def Let_def)

lemma bit_msb: "v AND 0x8000000000000000 \<noteq> 0 \<longleftrightarrow> bit v 63" for v :: u64
proof -
  have "(0x8000000000000000 :: u64) = push_bit 63 1" by simp
  then show ?thesis by (simp only: and_exp_eq_0_iff_not_bit push_bit_of_1 not_not)
qed

lemma bit_test: "c AND push_bit i 1 \<noteq> 0 \<longleftrightarrow> bit c i" for c :: byte
  by (simp add: and_exp_eq_0_iff_not_bit)

lemma reflect_bit:
  "reflect (crc64_bit c i crc) = crc_step (reflect crc XOR (if bit c i then 1 else 0))"
proof -
  define x where "x = reflect crc XOR (if bit c i then 1 else 0)"
  have b0: "bit x 0 \<longleftrightarrow> (if bit c i then \<not> bit crc 63 else bit crc 63)" by (simp add: x_def bit_xor_iff bit_reflect)
  have "drop_bit 1 (if bit c i then 1 else 0 :: u64) = 0" by simp
  then have d: "drop_bit 1 x = drop_bit 1 (reflect crc)" unfolding x_def drop_bit_xor by simp
  show ?thesis
    unfolding crc64_bit_def Let_def bit_msb bit_test x_def [symmetric] crc_step_def b0 d
    by (cases "bit c i"; cases "bit crc 63") (simp_all only: if_True if_False not_not not_True_eq_False not_False_eq_True reflect_xor reflect_push reflect_POLY simp_thms xor.right_neutral)
qed

lemma reflect_bits:
  "k \<le> 8 \<Longrightarrow> reflect (fold (crc64_bit c) [0..<k] crc) = (crc_step ^^ k) (reflect crc XOR take_bit k (ucast c))"
proof (induction k)
  case (Suc k)
  define b :: u64 where "b = (if bit c k then 1 else 0)"
  have "take_bit (Suc k) (ucast c :: u64) = take_bit k (ucast c) XOR push_bit k b"
    using Suc.prems by (intro bit_word_eqI) (auto simp: b_def bit_simps less_Suc_eq simp del: push_bit_of_1)
  moreover have "(crc_step ^^ k) (push_bit k b) = b"
    using Suc.prems by (intro crc_step_push) (auto simp: b_def bit_1_iff)
  ultimately have "(crc_step ^^ k) (reflect crc XOR take_bit (Suc k) (ucast c)) =
      (crc_step ^^ k) (reflect crc XOR take_bit k (ucast c)) XOR b"
    by (simp add: crc_pow_linear xor.assoc)
  then show ?case using Suc by (simp add: reflect_bit b_def [symmetric])
qed simp

lemma reflect_byte: "reflect (crc64_byte c crc) = (crc_step ^^ 8) (reflect crc XOR ucast c)"
proof -
  have "n < 8" if "bit c n" for n using bit_imp_le_length [OF that] by simp
  then have "take_bit 8 (ucast c :: u64) = ucast c" by (auto simp: bit_simps intro!: bit_word_eqI)
  then show ?thesis using reflect_bits [of 8 c crc] by (simp add: crc64_byte_def)
qed

lemma crc64_bitwise_spec: "crc64_bitwise crc bs = crc_spec (reflect crc) bs"
proof -
  have "reflect (fold crc64_byte bs crc) = crc_spec (reflect crc) bs"
    by (induction bs arbitrary: crc) (simp_all add: reflect_byte)
  then show ?thesis by (simp add: crc64_bitwise_def)
qed

lemma reflect_zero [simp]: "reflect 0 = 0"
  by (rule bit_word_eqI) (simp add: bit_reflect)

text \<open>Initialisation gives the tables the fast routines rely on.\<close>

lemma crc_chain_spec:
  assumes "length t0 = 256" "\<forall>n<256. t0 ! n = (crc_step ^^ 8) (of_nat n)"
  shows "crc_chain t0 k crc = (crc_step ^^ (8 * k)) crc"
proof (induction k arbitrary: crc)
  case (Suc k)
  have "t0 ! unat (crc AND 0xff) = (crc_step ^^ 8) (crc AND 0xff)" using assms(2) unat_and_255 [of crc] by simp
  then have "t0 ! unat (crc AND 0xff) XOR drop_bit 8 crc = (crc_step ^^ 8) crc" using crc_pow8_split [of crc] by simp
  then show ?case using Suc.IH by (simp add: funpow_add add.commute [of 8])
qed simp

lemma init_good: "good_tables (crcspeed64little_init crc64_bitwise)"
proof -
  define t0 where "t0 = map (\<lambda>n. crc64_bitwise 0 [of_nat n]) [0..<256]"
  have "(ucast (of_nat n :: byte) :: u64) = of_nat n" if "n < 256" for n
    using that by (intro unsigned_word_eqI [where ?'a = nat]) (simp add: unsigned_ucast_eq unsigned_of_nat take_bit_eq_mod)
  then have t0: "length t0 = 256" "\<forall>n<256. t0 ! n = (crc_step ^^ 8) (of_nat n)"
    by (simp_all add: t0_def crc64_bitwise_spec)
  then show ?thesis
    by (simp add: good_tables_def crcspeed64little_init_def Let_def t0_def [symmetric] crc_chain_spec [OF t0] funpow_add
        add.commute [of 8])
qed

section \<open>Big-endian machines\<close>

text \<open>Everything is the byte-reversed image of the little-endian computation.\<close>

lemma rev8_rounds: "rev8 v = rev_round 32 (rev_round 16 (rev_round 8 v))"
proof -
  have "drop_bit 32 a OR push_bit 32 a = (drop_bit 32 a AND round_mask 32) OR push_bit 32 (a AND round_mask 32)" for a :: u64
    using round_mask_bits [of 32] by (intro bit_word_eqI) (auto simp: bit_simps dest: bit_imp_le_length)
  then show ?thesis
    using swap_round [of 8 v] swap_round [of 16] swap_round [of 32] by (simp add: rev8_def Let_def round_mask_def)
qed

lemma rev_swaps_bytes: "i < 64 \<Longrightarrow> rev_swap 8 (rev_swap 16 (rev_swap 32 i)) = 8 * (7 - i div 8) + i mod 8"
proof -
  assume "i < 64"
  have "list_all (\<lambda>i. rev_swap 8 (rev_swap 16 (rev_swap 32 i)) = 8 * (7 - i div 8) + i mod 8) [0..<64]"
    unfolding upto_64 by (simp only: list.pred_inject) (simp add: rev_swap_def)
  then show ?thesis using \<open>i < 64\<close> by (simp add: list_all_iff)
qed

lemma bit_rev8: "i < 64 \<Longrightarrow> bit (rev8 v) i \<longleftrightarrow> bit v (8 * (7 - i div 8) + i mod 8)"
  by (simp add: rev8_rounds rev_round_bit rev_swap_less rev_swaps_bytes)

lemma rev8_rev8 [simp]: "rev8 (rev8 v) = v"
proof (rule bit_word_eqI)
  fix i assume "i < LENGTH(64)"
  then have i: "i < 64" by simp
  define j where "j = 8 * (7 - i div 8) + i mod 8"
  have d: "i div 8 \<le> 7" using i by linarith
  have "j div 8 = 7 - i div 8" "j mod 8 = i mod 8" by (simp_all add: j_def)
  moreover have "j < 64" using d by (simp add: j_def)
  ultimately show "bit (rev8 (rev8 v)) i \<longleftrightarrow> bit v i" using i d by (simp add: bit_rev8 j_def [symmetric])
qed

lemma rev8_xor: "rev8 (a XOR b) = rev8 a XOR rev8 b"
  by (rule bit_word_eqI) (simp add: bit_rev8 bit_xor_iff)

lemma byte_of_rev8: "k < 8 \<Longrightarrow> drop_bit (8 * k) (rev8 v) AND 0xff = drop_bit (56 - 8 * k) v AND 0xff"
proof (rule bit_word_eqI)
  fix n assume k: "k < 8" and "n < LENGTH(64)"
  have m: "x AND 0xff = take_bit 8 x" for x :: u64 by (simp add: take_bit_eq_mask mask_eq_exp_minus_1)
  have "(8 * k + n) div 8 = k" "(8 * k + n) mod 8 = n" "8 * k + n < 64" if "n < 8" using that k by simp_all
  moreover have "8 * (7 - k) + n = 56 - 8 * k + n" by (simp add: diff_mult_distrib2)
  ultimately show "bit (drop_bit (8 * k) (rev8 v) AND 0xff) n \<longleftrightarrow> bit (drop_bit (56 - 8 * k) v AND 0xff) n"
    unfolding m by (auto simp: bit_take_bit_iff bit_drop_bit_eq bit_rev8)
qed

lemma top_of_rev8: "drop_bit 56 (rev8 v) = v AND 0xff"
  using byte_of_rev8 [of 7 v] drop_56_index [of "rev8 v"] by simp

lemma push_rev8: "push_bit 8 (rev8 v) = rev8 (drop_bit 8 v)"
proof (rule bit_word_eqI)
  fix i assume "i < LENGTH(64)"
  then have i: "i < 64" by simp
  show "bit (push_bit 8 (rev8 v)) i \<longleftrightarrow> bit (rev8 (drop_bit 8 v)) i"
  proof (cases "8 \<le> i")
    case True
    have "(i - 8) div 8 = i div 8 - 1" "(i - 8) mod 8 = i mod 8" "1 \<le> i div 8" "i div 8 \<le> 7"
      using True i by (auto simp: le_div_geq le_mod_geq)
    moreover have "8 * (7 - (q - 1)) = 8 + 8 * (7 - q)" if "1 \<le> q" "q \<le> 7" for q :: nat using that by linarith
    moreover have "i - 8 < 64" using i by simp
    ultimately show ?thesis using True i by (simp add: bit_rev8 bit_push_bit_iff bit_drop_bit_eq add.assoc)
  next
    case False
    have "\<not> bit v (64 + i)" by (auto dest: bit_imp_le_length)
    then show ?thesis using False i by (simp add: bit_rev8 bit_push_bit_iff bit_drop_bit_eq)
  qed
qed

lemma bit_load64: "i < 8 * length bs \<Longrightarrow> length bs \<le> 8 \<Longrightarrow> bit (load64 bs) i \<longleftrightarrow> bit (bs ! (i div 8)) (i mod 8)"
proof (induction bs arbitrary: i)
  case (Cons b bs)
  show ?case
  proof (cases "8 \<le> i")
    case True
    have "\<not> bit b i" using True by (auto dest: bit_imp_le_length)
    then show ?thesis
      using True Cons.prems Cons.IH [of "i - 8"] by (auto simp: bit_or_iff bit_push_bit_iff bit_ucast_iff le_div_geq le_mod_geq)
  next
    case False
    then show ?thesis by (simp add: bit_or_iff bit_push_bit_iff bit_ucast_iff)
  qed
qed simp

lemma load64_rev: "length bs = 8 \<Longrightarrow> load64 (rev bs) = rev8 (load64 bs)"
proof (rule bit_word_eqI)
  fix i assume len: "length bs = 8" and "i < LENGTH(64)"
  then have i: "i < 64" "i div 8 \<le> 7" by simp_all
  define j where "j = 8 * (7 - i div 8) + i mod 8"
  have "j div 8 = 7 - i div 8" "j mod 8 = i mod 8" by (simp_all add: j_def)
  moreover have "j < 64" using i(2) by (simp add: j_def)
  ultimately show "bit (load64 (rev bs)) i \<longleftrightarrow> bit (rev8 (load64 bs)) i"
    using len i by (simp add: bit_rev8 bit_load64 rev_nth j_def [symmetric])
qed

lemma big_table_at: "good_tables t \<Longrightarrow> k < 8 \<Longrightarrow> map (map rev8) t ! k ! unat (v AND 0xff) = rev8 (t ! k ! unat (v AND 0xff))" for v :: u64
  using unat_and_255 [of v] by (simp add: good_tables_def)

lemma crc_next_big_spec:
  assumes "good_tables t"
  shows "crc_next_big (map (map rev8) t) (rev8 crc) b = rev8 (crc_next t crc b)"
proof -
  have "n < 8" if "bit b n" for n using bit_imp_le_length [OF that] by simp
  then have "ucast b AND (0xff :: u64) = ucast b"
    using bit_mask_iff [of 8, where ?'a = u64] by (intro bit_word_eqI) (auto simp: bit_simps mask_eq_exp_minus_1)
  then have "(crc AND 0xff) XOR ucast b = (crc XOR ucast b) AND 0xff" by (simp add: bit.conj_xor_distrib2)
  then show ?thesis
    using big_table_at [OF assms, of 0 "crc XOR ucast b"] by (simp add: crc_next_big_def crc_next_def top_of_rev8 push_rev8 rev8_xor)
qed

lemma crc_word_big_spec:
  assumes t: "good_tables t" and len: "8 \<le> length bs"
  shows "crc_word_big (map (map rev8) t) (rev8 crc) bs = rev8 (DO_8_2 t (DO_8_1 crc bs))"
proof -
  define v where "v = crc XOR load64 (take 8 bs)"
  have load: "rev8 crc XOR load64_big (take 8 bs) = rev8 v"
    using load64_rev [of "take 8 bs"] len by (simp add: load64_big_def v_def rev8_xor)
  have at: "map (map rev8) t ! k ! unat (drop_bit (8 * k) (rev8 v) AND 0xff) = rev8 (t ! k ! unat (drop_bit (56 - 8 * k) v AND 0xff))"
    if "k < 8" for k using that by (simp only: byte_of_rev8 big_table_at [OF t])
  have last: "map (map rev8) t ! 7 ! unat (drop_bit 56 (rev8 v)) = rev8 (t ! 7 ! unat (v AND 0xff))"
    by (simp only: top_of_rev8 big_table_at [OF t])
  have first: "unat (drop_bit 56 v AND 0xff) = unat (drop_bit 56 v)" by (simp only: drop_56_index [symmetric])
  show ?thesis
    unfolding crc_word_big_def Let_def load DO_8_2_def DO_8_1_def v_def [symmetric]
    using at [of 0] at [of 1] at [of 2] at [of 3] at [of 4] at [of 5] at [of 6] last first
    by (simp add: rev8_xor ucast_byte_index ac_simps)
qed

lemma crc_align_big_spec: "good_tables t \<Longrightarrow>
  crc_align_big (map (map rev8) t) addr (rev8 crc) bs = map_prod rev8 id (crc_align t addr crc bs)"
  by (induction t addr crc bs rule: crc_align.induct) (simp_all add: crc_next_big_spec)

lemma crc_rest_big_spec: "good_tables t \<Longrightarrow> crc_rest_big (map (map rev8) t) (rev8 crc) bs = rev8 (crc_rest t crc bs)"
  by (induction t crc bs rule: crc_rest.induct) (simp_all add: crc_next_big_spec)

lemma crc_words_big_spec: "good_tables t \<Longrightarrow>
  crc_words_big (map (map rev8) t) (rev8 crc) bs = map_prod rev8 id (crc_words t crc bs)"
proof (induction t crc bs rule: crc_words.induct)
  case (1 t crc bs)
  show ?case
  proof (cases "8 \<le> length bs")
    case True
    then show ?thesis
      using "1.IH" [OF True "1.prems"] crc_word_big_spec [OF "1.prems" True]
      by (simp add: crc_words_big.simps [of _ _ bs] crc_words.simps [of _ _ bs])
  next
    case False
    then show ?thesis by (simp add: crc_words_big.simps [of _ _ bs] crc_words.simps [of _ _ bs])
  qed
qed

lemma crcspeed64big_spec:
  assumes t: "good_tables t"
  shows "crcspeed64big (map (map rev8) t) crc addr buf = crc_spec crc buf"
proof -
  obtain c1 bs1 where al: "crc_align t addr crc buf = (c1, bs1)" by (cases "crc_align t addr crc buf")
  obtain c2 bs2 where w: "crc_words t c1 bs1 = (c2, bs2)" by (cases "crc_words t c1 bs1")
  have "crcspeed64big (map (map rev8) t) crc addr buf = crc_rest t c2 bs2"
    by (simp add: crcspeed64big_def crc_align_big_spec [OF t] al crc_words_big_spec [OF t] w crc_rest_big_spec [OF t])
  then show ?thesis using crc_align_spec [OF t al] crc_words_spec [OF t w] by (simp add: crc_rest_spec [OF t])
qed

section \<open>Properties of the 64-bit checksum\<close>

lemma crc64_spec:
  assumes "crc64_table g = crcspeed64native_init little crc64_bitwise" "cache_ok (combine_cache g)"
  shows "\<exists>cache. crc64 little g crc addr s = (crc_spec crc s, g\<lparr>combine_cache := cache\<rparr>) \<and> cache_ok cache"
proof (cases little)
  case True
  then show ?thesis
    using crcspeed64little_spec [OF init_good assms(2)] assms(1)
    by (simp add: crc64_def crcspeed64native_def crcspeed64native_init_def)
next
  case False
  then show ?thesis
    using crcspeed64big_spec [OF init_good] assms(1,2)
    by (intro exI [of _ "combine_cache g"]) (simp add: crc64_def crcspeed64native_def crcspeed64native_init_def crcspeed64big_init_def)
qed

lemma crc64_check_value: "crc64_bitwise 0 [0x31, 0x32, 0x33, 0x34, 0x35, 0x36, 0x37, 0x38, 0x39] = 0xe9c6d914c4b8d9ca"
  by code_simp

text \<open>A stream handed over in pieces, each at some address.\<close>

fun crc64_pieces :: "bool \<Rightarrow> crc64_globals \<Rightarrow> u64 \<Rightarrow> (nat \<times> byte list) list \<Rightarrow> u64" where
  "crc64_pieces little g crc [] = crc"
| "crc64_pieces little g crc ((addr, s) # ps) = (let (crc, g) = crc64 little g crc addr s in crc64_pieces little g crc ps)"

lemma crc64_pieces_spec:
  assumes "crc64_table g = crcspeed64native_init little crc64_bitwise" "cache_ok (combine_cache g)"
  shows "crc64_pieces little g crc ps = crc_spec crc (concat (map snd ps))"
  using assms
proof (induction ps arbitrary: g crc)
  case (Cons p ps)
  obtain addr s where p: "p = (addr, s)" by (cases p)
  from crc64_spec [OF Cons.prems(1,2)] obtain cache where
    c: "crc64 little g crc addr s = (crc_spec crc s, g\<lparr>combine_cache := cache\<rparr>)" "cache_ok cache" by blast
  have "crc64_pieces little (g\<lparr>combine_cache := cache\<rparr>) (crc_spec crc s) ps = crc_spec (crc_spec crc s) (concat (map snd ps))"
    using Cons.prems(1) c(2) by (intro Cons.IH) simp_all
  then show ?case by (simp add: p c(1) crc_spec_append)
qed simp

text \<open>C13. After initialisation, on machines of either byte order, whatever the cutoffs, the addresses and the state of the
  cache of matrices, the fast checksum of a stream handed over in pieces is the bit-by-bit checksum of the whole: the
  tables, the eight bytes at a time, the two and three segments side by side and their joining change nothing.\<close>

theorem crc64_equals_bitwise:
  assumes "cache_ok (combine_cache g)"
  shows "crc64_pieces little (crc64_init little g) crc ps = crc64_bitwise (crc_reflect crc 64) (concat (map snd ps))"
  using crc64_pieces_spec [of "crc64_init little g" little crc ps] assms by (simp add: crc64_init_def crc64_bitwise_spec)

text \<open>The check value of the polynomial, from a fresh program state and in two pieces.\<close>

theorem crc64_equals_bitwise_witness:
  "crc64_pieces True (crc64_init True \<lparr>crc64_table = [], combine_cache = replicate 64 (replicate 64 0), CRC64_TRI_CUTOFF = 2048,
      CRC64_DUAL_CUTOFF = 128\<rparr>) 0 [(1, [0x31, 0x32, 0x33, 0x34]), (5, [0x35, 0x36, 0x37, 0x38, 0x39])] = 0xe9c6d914c4b8d9ca"
proof -
  have "cache_ok (replicate 64 (replicate 64 0))" by (simp add: cache_ok_def rows64_def)
  then show ?thesis
    using crc64_equals_bitwise [of "\<lparr>crc64_table = [], combine_cache = replicate 64 (replicate 64 0), CRC64_TRI_CUTOFF = 2048,
      CRC64_DUAL_CUTOFF = 128\<rparr>" True 0 "[(1, [0x31, 0x32, 0x33, 0x34]), (5, [0x35, 0x36, 0x37, 0x38, 0x39])]"]
    by (simp add: crc64_check_value)
qed

end
