(* ===== verification/Key_Slot.thy ===== *)
theory Key_Slot
  imports Glob
begin

text \<open>
  The hash slot of a key: the 16-bit checksum of \<open>crc16.c\<close>, \<open>keyHashSlot\<close> of \<open>cluster.h\<close> with its \<open>{...}\<close> tags, and
  \<open>patternHashSlot\<close> of \<open>cluster.c\<close>, which finds the slot of every key a glob pattern can match.  The lemmas show that the
  table of the checksum is the polynomial's and that the slot of a pattern is the slot of each key the matcher of
  \<open>util.c\<close> accepts for it.
\<close>

unbundle bit_operations_syntax

section \<open>The 16-bit checksum\<close>

definition crc16tab :: "16 word list" where
  "crc16tab =
    [0x0000, 0x1021, 0x2042, 0x3063, 0x4084, 0x50a5, 0x60c6, 0x70e7, 0x8108, 0x9129, 0xa14a, 0xb16b, 0xc18c, 0xd1ad, 0xe1ce, 0xf1ef,
     0x1231, 0x0210, 0x3273, 0x2252, 0x52b5, 0x4294, 0x72f7, 0x62d6, 0x9339, 0x8318, 0xb37b, 0xa35a, 0xd3bd, 0xc39c, 0xf3ff, 0xe3de,
     0x2462, 0x3443, 0x0420, 0x1401, 0x64e6, 0x74c7, 0x44a4, 0x5485, 0xa56a, 0xb54b, 0x8528, 0x9509, 0xe5ee, 0xf5cf, 0xc5ac, 0xd58d,
     0x3653, 0x2672, 0x1611, 0x0630, 0x76d7, 0x66f6, 0x5695, 0x46b4, 0xb75b, 0xa77a, 0x9719, 0x8738, 0xf7df, 0xe7fe, 0xd79d, 0xc7bc,
     0x48c4, 0x58e5, 0x6886, 0x78a7, 0x0840, 0x1861, 0x2802, 0x3823, 0xc9cc, 0xd9ed, 0xe98e, 0xf9af, 0x8948, 0x9969, 0xa90a, 0xb92b,
     0x5af5, 0x4ad4, 0x7ab7, 0x6a96, 0x1a71, 0x0a50, 0x3a33, 0x2a12, 0xdbfd, 0xcbdc, 0xfbbf, 0xeb9e, 0x9b79, 0x8b58, 0xbb3b, 0xab1a,
     0x6ca6, 0x7c87, 0x4ce4, 0x5cc5, 0x2c22, 0x3c03, 0x0c60, 0x1c41, 0xedae, 0xfd8f, 0xcdec, 0xddcd, 0xad2a, 0xbd0b, 0x8d68, 0x9d49,
     0x7e97, 0x6eb6, 0x5ed5, 0x4ef4, 0x3e13, 0x2e32, 0x1e51, 0x0e70, 0xff9f, 0xefbe, 0xdfdd, 0xcffc, 0xbf1b, 0xaf3a, 0x9f59, 0x8f78,
     0x9188, 0x81a9, 0xb1ca, 0xa1eb, 0xd10c, 0xc12d, 0xf14e, 0xe16f, 0x1080, 0x00a1, 0x30c2, 0x20e3, 0x5004, 0x4025, 0x7046, 0x6067,
     0x83b9, 0x9398, 0xa3fb, 0xb3da, 0xc33d, 0xd31c, 0xe37f, 0xf35e, 0x02b1, 0x1290, 0x22f3, 0x32d2, 0x4235, 0x5214, 0x6277, 0x7256,
     0xb5ea, 0xa5cb, 0x95a8, 0x8589, 0xf56e, 0xe54f, 0xd52c, 0xc50d, 0x34e2, 0x24c3, 0x14a0, 0x0481, 0x7466, 0x6447, 0x5424, 0x4405,
     0xa7db, 0xb7fa, 0x8799, 0x97b8, 0xe75f, 0xf77e, 0xc71d, 0xd73c, 0x26d3, 0x36f2, 0x0691, 0x16b0, 0x6657, 0x7676, 0x4615, 0x5634,
     0xd94c, 0xc96d, 0xf90e, 0xe92f, 0x99c8, 0x89e9, 0xb98a, 0xa9ab, 0x5844, 0x4865, 0x7806, 0x6827, 0x18c0, 0x08e1, 0x3882, 0x28a3,
     0xcb7d, 0xdb5c, 0xeb3f, 0xfb1e, 0x8bf9, 0x9bd8, 0xabbb, 0xbb9a, 0x4a75, 0x5a54, 0x6a37, 0x7a16, 0x0af1, 0x1ad0, 0x2ab3, 0x3a92,
     0xfd2e, 0xed0f, 0xdd6c, 0xcd4d, 0xbdaa, 0xad8b, 0x9de8, 0x8dc9, 0x7c26, 0x6c07, 0x5c64, 0x4c45, 0x3ca2, 0x2c83, 0x1ce0, 0x0cc1,
     0xef1f, 0xff3e, 0xcf5d, 0xdf7c, 0xaf9b, 0xbfba, 0x8fd9, 0x9ff8, 0x6e17, 0x7e36, 0x4e55, 0x5e74, 0x2e93, 0x3eb2, 0x0ed1, 0x1ef0]"

fun crc16_loop :: "16 word \<Rightarrow> byte list \<Rightarrow> 16 word" where
  "crc16_loop crc [] = crc"
| "crc16_loop crc (b # buf) = crc16_loop (push_bit 8 crc XOR crc16tab ! unat ((drop_bit 8 crc XOR ucast b) AND 0x00FF)) buf"

definition crc16 :: "byte list \<Rightarrow> 16 word" where
  "crc16 buf = crc16_loop 0 buf"

section \<open>Slots\<close>

definition slot_of :: "string \<Rightarrow> int" where
  "slot_of s = uint (crc16 (map of_char s) AND 0x3FFF)"

text \<open>The loops that look for a brace from position \<open>s\<close> on.\<close>

definition scan_for :: "char \<Rightarrow> string \<Rightarrow> nat \<Rightarrow> nat" where
  "scan_for c key s = s + length (takeWhile (\<lambda>x. x \<noteq> c) (drop s key))"

definition keyHashSlot :: "string \<Rightarrow> int" where
  "keyHashSlot key =
     (let keylen = length key; s = scan_for (CHR ''{'') key 0 in
      if s = keylen then slot_of key
      else
        let e = scan_for (CHR ''}'') key (s + 1) in
        if e = keylen \<or> e = s + 1 then slot_of key
        else slot_of (take (e - s - 1) (drop (s + 1) key)))"

function pattern_loop :: "string \<Rightarrow> int \<Rightarrow> nat \<Rightarrow> int" where
  "pattern_loop pattern s i =
     (if i < length pattern
      then
        let c = pattern ! i in
        if c = CHR ''*'' \<or> c = CHR ''?'' \<or> c = CHR ''['' then - 1
        else if c = CHR 0x5C then - 1
        else if s = - 1 \<and> c = CHR ''{'' then pattern_loop pattern (int i) (i + 1)
        else if s \<ge> 0 \<and> c = CHR ''}'' \<and> int i = s + 1 then pattern_loop pattern (- 2) (i + 1)
        else if s \<ge> 0 \<and> c = CHR ''}'' then slot_of (take (i - nat s - 1) (drop (nat s + 1) pattern))
        else pattern_loop pattern s (i + 1)
      else slot_of pattern)"
  by pat_completeness auto
termination
  by (relation "measure (\<lambda>(pattern, s, i). length pattern - i)") auto

declare pattern_loop.simps [simp del]

definition patternHashSlot :: "string \<Rightarrow> int" where
  "patternHashSlot pattern = pattern_loop pattern (- 1) 0"

section \<open>The checksum\<close>

text \<open>The reference: one bit of the checksum with the polynomial \<open>x^16 + x^12 + x^5 + 1\<close>.\<close>

definition crc16_step :: "16 word \<Rightarrow> 16 word" where
  "crc16_step v = push_bit 1 v XOR (if bit v 15 then 0x1021 else 0)"

definition crc16_spec :: "byte list \<Rightarrow> 16 word" where
  "crc16_spec bs = fold (\<lambda>b crc. (crc16_step ^^ 8) (crc XOR push_bit 8 (ucast b))) bs 0"

lemma crc16_step_xor: "crc16_step (a XOR b) = crc16_step a XOR crc16_step b"
  by (auto simp: crc16_step_def bit_xor_iff push_bit_xor ac_simps xor.left_commute)

lemma crc16_pow_xor: "(crc16_step ^^ n) (a XOR b) = (crc16_step ^^ n) a XOR (crc16_step ^^ n) b"
  by (induction n) (simp_all add: crc16_step_xor)

definition crc16_entry :: "nat \<Rightarrow> 16 word" where
  "crc16_entry n = (crc16_step ^^ 8) (push_bit 8 (of_nat n))"

text \<open>The upper half of a table of \<open>2 ^ (k + 1)\<close> entries is the lower half with one entry added.\<close>

lemma crc16_entry_add: "j < 2 ^ k \<Longrightarrow> crc16_entry (2 ^ k + j) = crc16_entry j XOR crc16_entry (2 ^ k)"
proof -
  assume j: "j < 2 ^ k"
  have "\<not> bit j k" using j by (simp add: bit_iff_odd)
  then have "(of_nat j AND 2 ^ k :: 16 word) = 0" by (simp add: and_exp_eq_0_iff_not_bit bit_of_nat_iff)
  then have "(of_nat j XOR 2 ^ k :: 16 word) = of_nat j + 2 ^ k" by (simp add: disjunctive_add_eq_xor)
  then have "(of_nat (2 ^ k + j) :: 16 word) = of_nat j XOR of_nat (2 ^ k)" by (simp add: add.commute)
  then show ?thesis unfolding crc16_entry_def by (simp only: push_bit_xor crc16_pow_xor)
qed

lemma crc16_double:
  "map crc16_entry [0..<2 ^ Suc k] = map crc16_entry [0..<2 ^ k] @ map (\<lambda>x. x XOR crc16_entry (2 ^ k)) (map crc16_entry [0..<2 ^ k])"
proof (rule nth_equalityI)
  fix i assume "i < length (map crc16_entry [0..<2 ^ Suc k])"
  then have "i < 2 ^ k + 2 ^ k" by simp
  then show "map crc16_entry [0..<2 ^ Suc k] ! i =
      (map crc16_entry [0..<2 ^ k] @ map (\<lambda>x. x XOR crc16_entry (2 ^ k)) (map crc16_entry [0..<2 ^ k])) ! i"
    using crc16_entry_add [of "i - 2 ^ k" k] by (auto simp: nth_append)
qed simp

lemma funpow_8: "(f ^^ 8) x = f (f (f (f (f (f (f (f x)))))))"
  by (simp add: numeral_eq_Suc)

lemma crc16_entries:
  "crc16_entry 1 = 0x1021" "crc16_entry 2 = 0x2042" "crc16_entry 4 = 0x4084" "crc16_entry 8 = 0x8108"
  "crc16_entry 16 = 0x1231" "crc16_entry 32 = 0x2462" "crc16_entry 64 = 0x48c4" "crc16_entry 128 = 0x9188"
  by (simp_all add: crc16_entry_def crc16_step_def funpow_8)

lemma crc16tab_16: "map crc16_entry [0..<16] = take 16 crc16tab"
proof -
  have "map crc16_entry [0..<2 ^ 0] = [0]" by (simp add: crc16_entry_def crc16_step_def funpow_8)
  then have "map crc16_entry [0..<2 ^ Suc (Suc (Suc (Suc 0)))] = take 16 crc16tab"
    unfolding crc16_double using crc16_entries by (simp add: crc16tab_def)
  then show ?thesis by simp
qed

lemma crc16tab_256: "map crc16_entry [0..<256] = crc16tab"
proof -
  have "map crc16_entry [0..<2 ^ 4] = take 16 crc16tab" using crc16tab_16 by simp
  then have "map crc16_entry [0..<2 ^ Suc (Suc (Suc (Suc 4)))] = crc16tab"
    unfolding crc16_double using crc16_entries by (simp add: crc16tab_def)
  then show ?thesis by simp
qed

lemma crc16_index: "n < 256 \<Longrightarrow> crc16tab ! n = crc16_entry n"
  by (simp flip: crc16tab_256)

lemma crc16_step_low: "(\<And>i. 16 - k \<le> i \<Longrightarrow> \<not> bit w i) \<Longrightarrow> (crc16_step ^^ k) w = push_bit k w"
proof (induction k)
  case (Suc k)
  have "(crc16_step ^^ k) w = push_bit k w" by (rule Suc.IH) (rule Suc.prems, simp)
  moreover have "\<not> bit (push_bit k w) 15" using Suc.prems [of "15 - k"] by (auto simp: bit_push_bit_iff)
  ultimately have "(crc16_step ^^ Suc k) w = push_bit 1 (push_bit k w)" by (simp add: crc16_step_def [of "push_bit k w"])
  then show ?case by (simp only: push_bit_push_bit plus_1_eq_Suc)
qed simp

lemma crc16_next:
  "push_bit 8 crc XOR crc16tab ! unat ((drop_bit 8 crc XOR ucast b) AND 0x00FF) = (crc16_step ^^ 8) (crc XOR push_bit 8 (ucast b))"
  for b :: byte
proof -
  define i where "i = (drop_bit 8 crc XOR ucast b) AND 0x00FF"
  have m: "i = take_bit 8 (drop_bit 8 crc XOR ucast b)" by (simp add: i_def take_bit_eq_mask mask_eq_exp_minus_1)
  have "unat i < 256" using unat_and_mask [of "drop_bit 8 crc XOR ucast b" 8] by (simp add: i_def mask_eq_exp_minus_1)
  then have tab: "crc16tab ! unat i = (crc16_step ^^ 8) (push_bit 8 i)" by (simp add: crc16_index crc16_entry_def)
  have low: "(crc16_step ^^ 8) (take_bit 8 crc) = push_bit 8 crc"
    using crc16_step_low [of 8 "take_bit 8 crc"] by (auto simp: bit_simps push_bit_take_bit intro!: bit_word_eqI)
  have "take_bit 8 crc XOR push_bit 8 i = crc XOR push_bit 8 (ucast b)"
    unfolding m by (intro bit_word_eqI) (auto simp: bit_simps)
  then have "(crc16_step ^^ 8) (crc XOR push_bit 8 (ucast b)) = push_bit 8 crc XOR crc16tab ! unat i"
    using crc16_pow_xor [of 8 "take_bit 8 crc" "push_bit 8 i"] by (simp add: tab low)
  then show ?thesis by (simp add: i_def)
qed

lemma crc16_loop_spec: "crc16_loop crc bs = fold (\<lambda>b crc. (crc16_step ^^ 8) (crc XOR push_bit 8 (ucast b))) bs crc"
  by (induction bs arbitrary: crc) (simp_all add: crc16_next)

section \<open>Tags\<close>

lemma slot_of_nonneg: "0 \<le> slot_of s"
  by (simp add: slot_of_def)

lemma scan_for_found: "c \<notin> set xs \<Longrightarrow> scan_for c (pre @ xs @ c # post) (length pre) = length pre + length xs"
  by (simp add: scan_for_def takeWhile_append)

lemma scan_for_none: "c \<notin> set xs \<Longrightarrow> scan_for c (pre @ xs) (length pre) = length pre + length xs"
proof -
  assume "c \<notin> set xs"
  then have "takeWhile (\<lambda>x. x \<noteq> c) xs = xs" by (induction xs) auto
  then show ?thesis by (simp add: scan_for_def del: takeWhile_eq_all_conv)
qed

lemma keyHashSlot_tag:
  assumes "CHR ''{'' \<notin> set pre" "CHR ''}'' \<notin> set tag" "tag \<noteq> []"
  shows "keyHashSlot (pre @ CHR ''{'' # tag @ CHR ''}'' # post) = slot_of tag"
proof -
  have s: "scan_for (CHR ''{'') (pre @ CHR ''{'' # tag @ CHR ''}'' # post) 0 = length pre"
    using scan_for_found [OF assms(1), of "[]" "tag @ CHR ''}'' # post"] by simp
  have e: "scan_for (CHR ''}'') (pre @ CHR ''{'' # tag @ CHR ''}'' # post) (length pre + 1) = length pre + 1 + length tag"
    using scan_for_found [OF assms(2), of "pre @ [CHR ''{'']" post] by simp
  show ?thesis using assms(3) unfolding keyHashSlot_def Let_def s e by simp
qed

lemma keyHashSlot_no_brace: "CHR ''{'' \<notin> set key \<Longrightarrow> keyHashSlot key = slot_of key"
  using scan_for_none [of "CHR ''{''" key "[]"] by (simp add: keyHashSlot_def)

lemma keyHashSlot_open:
  assumes "CHR ''{'' \<notin> set pre" "CHR ''}'' \<notin> set rest"
  shows "keyHashSlot (pre @ CHR ''{'' # rest) = slot_of (pre @ CHR ''{'' # rest)"
proof -
  have s: "scan_for (CHR ''{'') (pre @ CHR ''{'' # rest) 0 = length pre"
    using scan_for_found [OF assms(1), of "[]" rest] by simp
  have e: "scan_for (CHR ''}'') (pre @ CHR ''{'' # rest) (length pre + 1) = length (pre @ CHR ''{'' # rest)"
    using scan_for_none [OF assms(2), of "pre @ [CHR ''{'']"] by simp
  show ?thesis unfolding keyHashSlot_def Let_def s e by simp
qed

lemma keyHashSlot_empty_tag:
  assumes "CHR ''{'' \<notin> set pre"
  shows "keyHashSlot (pre @ CHR ''{'' # CHR ''}'' # post) = slot_of (pre @ CHR ''{'' # CHR ''}'' # post)"
proof -
  have s: "scan_for (CHR ''{'') (pre @ CHR ''{'' # CHR ''}'' # post) 0 = length pre"
    using scan_for_found [OF assms(1), of "[]" "CHR ''}'' # post"] by simp
  have e: "scan_for (CHR ''}'') (pre @ CHR ''{'' # CHR ''}'' # post) (length pre + 1) = length pre + 1"
    using scan_for_found [of "CHR ''}''" "[]" "pre @ [CHR ''{'']" post] by simp
  show ?thesis unfolding keyHashSlot_def Let_def s e by simp
qed

section \<open>Patterns\<close>

definition plain :: "char \<Rightarrow> bool" where
  "plain c \<longleftrightarrow> c \<noteq> CHR ''*'' \<and> c \<noteq> CHR ''?'' \<and> c \<noteq> CHR ''['' \<and> c \<noteq> CHR 0x5C"

lemma match_one_plain: "plain x \<Longrightarrow> match_one False (x # p) c = (if x = c then Some p else None)"
  by (simp add: match_one_def plain_def char_match_def)

text \<open>A string that a pattern matches begins with the plain characters the pattern begins with.\<close>

lemma match_plain_prefix:
  assumes "\<forall>c\<in>set lit. plain c" "fst (match_loop False n skip (lit @ p) s)"
  shows "\<exists>t. s = lit @ t \<and> (p = [] \<longrightarrow> t = [])"
  using assms
proof (induction lit arbitrary: s)
  case Nil
  then show ?case by (cases p) (auto simp: match_loop.simps)
next
  case (Cons x lit)
  then obtain c s' where s: "s = c # s'" by (cases s) (auto simp: match_loop.simps)
  have x: "plain x" "\<not> is_star x" using Cons.prems(1) by (auto simp: plain_def is_star_def)
  have m: "x = c" using Cons.prems(2) x by (auto simp: s match_loop.simps match_one_plain split: if_splits)
  show ?case
  proof (cases "s' = []")
    case True
    then have "dropWhile is_star (lit @ p) = []" using Cons.prems(2) x m by (simp add: s match_loop.simps match_one_plain)
    moreover have "\<not> is_star y" if "y \<in> set lit" for y using that Cons.prems(1) by (auto simp: plain_def is_star_def)
    ultimately have "lit = []" by (cases lit) auto
    then show ?thesis using s m True by simp
  next
    case False
    then have "fst (match_loop False n skip (lit @ p) s')" using Cons.prems(2) x m by (simp add: s match_loop.simps match_one_plain)
    then show ?thesis using Cons.IH [of s'] Cons.prems(1) s m by auto
  qed
qed

text \<open>What the loop knows about the part of the pattern it has read.\<close>

definition pat_inv :: "string \<Rightarrow> int \<Rightarrow> bool" where
  "pat_inv lit s \<longleftrightarrow> (\<forall>c\<in>set lit. plain c) \<and>
     (s = - 1 \<and> CHR ''{'' \<notin> set lit \<or>
      (\<exists>pre mid. lit = pre @ CHR ''{'' # mid \<and> CHR ''{'' \<notin> set pre \<and> CHR ''}'' \<notin> set mid \<and> s = int (length pre)) \<or>
      s = - 2 \<and> (\<exists>pre post. lit = pre @ CHR ''{'' # CHR ''}'' # post \<and> CHR ''{'' \<notin> set pre))"

lemma pat_inv_whole:
  assumes "pat_inv pattern s"
  shows "keyHashSlot pattern = slot_of pattern"
  using assms keyHashSlot_no_brace keyHashSlot_open keyHashSlot_empty_tag unfolding pat_inv_def by blast

lemma pat_inv_snoc:
  assumes inv: "pat_inv lit s" and c: "plain c"
  shows "s = - 1 \<Longrightarrow> c = CHR ''{'' \<Longrightarrow> pat_inv (lit @ [c]) (int (length lit))"
    and "s \<ge> 0 \<Longrightarrow> c = CHR ''}'' \<Longrightarrow> int (length lit) = s + 1 \<Longrightarrow> pat_inv (lit @ [c]) (- 2)"
    and "\<not> (s = - 1 \<and> c = CHR ''{'') \<Longrightarrow> \<not> (s \<ge> 0 \<and> c = CHR ''}'') \<Longrightarrow> pat_inv (lit @ [c]) s"
proof -
  assume "s = - 1" "c = CHR ''{''"
  then have "lit @ [c] = lit @ CHR ''{'' # []" "CHR ''{'' \<notin> set lit" "\<forall>c\<in>set (lit @ [c]). plain c"
    using inv c by (auto simp: pat_inv_def)
  then show "pat_inv (lit @ [c]) (int (length lit))" unfolding pat_inv_def by fastforce
next
  assume s: "s \<ge> 0" "c = CHR ''}''" "int (length lit) = s + 1"
  then obtain pre mid where m: "lit = pre @ CHR ''{'' # mid" "CHR ''{'' \<notin> set pre" "s = int (length pre)"
    using inv by (auto simp: pat_inv_def)
  then have "lit @ [c] = pre @ CHR ''{'' # CHR ''}'' # []" using s by simp
  then show "pat_inv (lit @ [c]) (- 2)" using inv c m(2) unfolding pat_inv_def by auto
next
  assume n: "\<not> (s = - 1 \<and> c = CHR ''{'')" "\<not> (s \<ge> 0 \<and> c = CHR ''}'')"
  have "\<forall>c\<in>set (lit @ [c]). plain c" using inv c by (simp add: pat_inv_def)
  moreover consider "s = - 1" "CHR ''{'' \<notin> set lit"
    | pre mid where "lit = pre @ CHR ''{'' # mid" "CHR ''{'' \<notin> set pre" "CHR ''}'' \<notin> set mid" "s = int (length pre)"
    | pre post where "s = - 2" "lit = pre @ CHR ''{'' # CHR ''}'' # post" "CHR ''{'' \<notin> set pre"
    using inv by (auto simp: pat_inv_def)
  then have "s = - 1 \<and> CHR ''{'' \<notin> set (lit @ [c]) \<or>
      (\<exists>pre mid. lit @ [c] = pre @ CHR ''{'' # mid \<and> CHR ''{'' \<notin> set pre \<and> CHR ''}'' \<notin> set mid \<and> s = int (length pre)) \<or>
      s = - 2 \<and> (\<exists>pre post. lit @ [c] = pre @ CHR ''{'' # CHR ''}'' # post \<and> CHR ''{'' \<notin> set pre)"
  proof cases
    case (2 pre mid)
    then have "lit @ [c] = pre @ CHR ''{'' # (mid @ [c])" "CHR ''}'' \<notin> set (mid @ [c])" using n by auto
    then show ?thesis using 2 by blast
  qed (use n in auto)
  ultimately show "pat_inv (lit @ [c]) s" unfolding pat_inv_def by blast
qed

lemma pattern_loop_sound:
  assumes "pat_inv (take i pattern) s" "i \<le> length pattern" "pattern_loop pattern s i \<noteq> - 1"
    "fst (match_loop False 0 False pattern key)"
  shows "keyHashSlot key = pattern_loop pattern s i"
  using assms
proof (induction pattern s i rule: pattern_loop.induct)
  case (1 pattern s i)
  note unf = pattern_loop.simps [of pattern s i]
  show ?case
  proof (cases "i < length pattern")
    case False
    then have i: "take i pattern = pattern" "i = length pattern" using "1.prems"(2) by simp_all
    have "\<forall>c\<in>set pattern. plain c" using "1.prems"(1) i(1) by (simp add: pat_inv_def)
    then have "key = pattern" using match_plain_prefix [of pattern 0 False "[]" key] "1.prems"(4) by simp
    then show ?thesis using pat_inv_whole [of pattern s] "1.prems"(1) i False unfolding unf by simp
  next
    case True
    define c where "c = pattern ! i"
    have c: "plain c" using "1.prems"(3) True unfolding unf by (auto simp: plain_def c_def Let_def split: if_splits)
    have snoc: "take (i + 1) pattern = take i pattern @ [c]" "length (take i pattern) = i"
      using True by (simp_all add: c_def take_Suc_conv_app_nth)
    note step = pat_inv_snoc [OF "1.prems"(1) c, folded snoc(1), unfolded snoc(2)]
    have p: "\<not> (c = CHR ''*'' \<or> c = CHR ''?'' \<or> c = CHR ''['')" "c \<noteq> CHR 0x5C" using c by (simp_all add: plain_def)
    note unf' = unf [unfolded Let_def, folded c_def, unfolded if_P [OF True] if_not_P [OF p(1)] if_not_P [OF p(2)]]
    consider (brace) "s = - 1 \<and> c = CHR ''{''" | (empty) "s \<ge> 0 \<and> c = CHR ''}'' \<and> int i = s + 1"
      | (closing) "s \<ge> 0 \<and> c = CHR ''}''" "int i \<noteq> s + 1" | (other) "\<not> (s = - 1 \<and> c = CHR ''{'')" "\<not> (s \<ge> 0 \<and> c = CHR ''}'')"
      by blast
    then show ?thesis
    proof cases
      case brace
      then have "pattern_loop pattern s i = pattern_loop pattern (int i) (i + 1)" unfolding unf' by simp
      then show ?thesis using "1.IH"(1) [OF True c_def p] brace step(1) "1.prems"(3,4) True by simp
    next
      case empty
      then have "pattern_loop pattern s i = pattern_loop pattern (- 2) (i + 1)" unfolding unf' by simp
      then show ?thesis using "1.IH"(2) [OF True c_def p] empty step(2) "1.prems"(3,4) True by simp
    next
      case other
      then have "pattern_loop pattern s i = pattern_loop pattern s (i + 1)" unfolding unf' by auto
      then show ?thesis using "1.IH"(3) [OF True c_def p] other step(3) "1.prems"(3,4) True by auto
    next
      case closing
      then obtain pre mid where m: "take i pattern = pre @ CHR ''{'' # mid" "CHR ''{'' \<notin> set pre" "CHR ''}'' \<notin> set mid" "s = int (length pre)"
        using "1.prems"(1) by (auto simp: pat_inv_def)
      have len: "i = length pre + 1 + length mid" using arg_cong [OF m(1), of length] snoc(2) by simp
      have ne: "mid \<noteq> []" using closing(2) m(4) len by auto
      have pat: "pattern = (pre @ CHR ''{'' # mid @ [CHR ''}'']) @ drop (i + 1) pattern"
      proof -
        have "take (i + 1) pattern = pre @ CHR ''{'' # mid @ [CHR ''}'']" using snoc(1) m(1) closing(1) by simp
        then show ?thesis by (metis append_take_drop_id)
      qed
      have "take (i - nat s - 1) (drop (nat s + 1) pattern) = mid" using m(4) len by (subst pat) simp
      then have "pattern_loop pattern s i = slot_of mid" using closing m(4) unfolding unf' by simp
      moreover have "\<forall>c\<in>set (pre @ CHR ''{'' # mid @ [CHR ''}'']). plain c"
        using "1.prems"(1) m(1) by (auto simp: pat_inv_def plain_def)
      then obtain t where "key = (pre @ CHR ''{'' # mid @ [CHR ''}'']) @ t"
        using match_plain_prefix [of _ 0 False "drop (i + 1) pattern" key] "1.prems"(4) pat by metis
      ultimately show ?thesis using keyHashSlot_tag [OF m(2,3) ne, of t] by simp
    qed
  qed
qed

section \<open>Properties\<close>

text \<open>C14. The slot that is inferred from a glob pattern is right: every key that the matcher accepts for the pattern hashes
  to that slot, tags included.\<close>

theorem patternHashSlot_sound:
  assumes "patternHashSlot pattern \<noteq> - 1" "stringmatchlen pattern key False"
  shows "keyHashSlot key = patternHashSlot pattern"
proof -
  have "fst (match_loop False 0 False pattern key)" using assms(2) by (simp add: stringmatchlen_def stringmatchlen_impl.simps)
  then show ?thesis
    using pattern_loop_sound [of 0 pattern "- 1" key] assms(1) by (simp add: patternHashSlot_def pat_inv_def)
qed

theorem patternHashSlot_sound_witness: "keyHashSlot ''{u7}:name'' = patternHashSlot ''{u7}:*''"
proof (rule patternHashSlot_sound)
  show "patternHashSlot ''{u7}:*'' \<noteq> - 1"
    using slot_of_nonneg [of "''u7''"] by (auto simp: patternHashSlot_def pattern_loop.simps)
  show "stringmatchlen ''{u7}:*'' ''{u7}:name'' False"
    by (simp add: stringmatchlen_def search_simps char_match_def is_star_def)
qed

text \<open>C39. Keys that share a non-empty tag share their slot: the bit-by-bit checksum of the tag with the polynomial
  \<open>x^16 + x^12 + x^5 + 1\<close>, modulo 16384.\<close>

theorem keyHashSlot_tags:
  assumes "CHR ''{'' \<notin> set a" "CHR ''{'' \<notin> set b" "CHR ''}'' \<notin> set tag" "tag \<noteq> []"
  shows "keyHashSlot (a @ CHR ''{'' # tag @ CHR ''}'' # c) = keyHashSlot (b @ CHR ''{'' # tag @ CHR ''}'' # d) \<and>
    keyHashSlot (a @ CHR ''{'' # tag @ CHR ''}'' # c) = uint (crc16_spec (map of_char tag)) mod 16384"
proof -
  have "crc16 bs = crc16_spec bs" for bs by (simp add: crc16_def crc16_spec_def crc16_loop_spec)
  moreover have "uint (w AND 0x3FFF) = uint w mod 16384" for w :: "16 word"
  proof -
    have "w AND 0x3FFF = take_bit 14 w" by (simp add: take_bit_eq_mask mask_eq_exp_minus_1)
    then show ?thesis by (simp add: take_bit_eq_mod uint_mod)
  qed
  ultimately show ?thesis using assms by (simp add: keyHashSlot_tag slot_of_def)
qed

theorem keyHashSlot_tags_witness:
  "keyHashSlot ''x{123456789}y'' = keyHashSlot ''{123456789}'' \<and> keyHashSlot ''x{123456789}y'' = 0x31C3"
  using keyHashSlot_tags [of "''x''" "[]" "''123456789''" "''y''" "[]"]
  by (simp add: crc16_spec_def) (simp add: funpow_8 crc16_step_def)

end
