(* ===== verification/Rio.thy ===== *)
theory Rio
  imports Crc Byte_Text
begin

text \<open>
  The stream objects of \<open>rio.h\<close> and \<open>rio.c\<close>.  A stream has two methods of its backend, the state of the backend, a
  checksum method, error flags and counters; \<open>rioRead\<close> and \<open>rioWrite\<close> cut the data into chunks.  A method returns
  \<open>None\<close> for failure.  The in-memory backend is modelled; files, connections and pipes are other instances of the two
  methods.  The lemmas describe what a sequence of writes leaves in a buffer and what reads get from it, with the
  checksum, independent of the chunk size.
\<close>

section \<open>Streams\<close>

record 'b rio =
  rio_read :: "'b \<Rightarrow> nat \<Rightarrow> ('b \<times> byte list) option"
  rio_write :: "'b \<Rightarrow> byte list \<Rightarrow> 'b option"
  rio_update_cksum :: "(u64 \<Rightarrow> byte list \<Rightarrow> u64) option"
  rio_cksum :: u64
  rio_read_error :: bool
  rio_write_error :: bool
  processed_bytes :: nat
  max_processing_chunk :: nat
  rio_io :: 'b

definition rio_chunk :: "'b rio \<Rightarrow> nat \<Rightarrow> nat" where
  "rio_chunk r len = (if max_processing_chunk r \<noteq> 0 \<and> max_processing_chunk r < len then max_processing_chunk r else len)"

definition rio_sum :: "'b rio \<Rightarrow> byte list \<Rightarrow> 'b rio" where
  "rio_sum r bs = (case rio_update_cksum r of None \<Rightarrow> r | Some f \<Rightarrow> r\<lparr>rio_cksum := f (rio_cksum r) bs\<rparr>)"

lemma rio_chunk_bounds: "0 < len \<Longrightarrow> 0 < rio_chunk r len" "rio_chunk r len \<le> len"
  by (simp_all add: rio_chunk_def)

function rioWrite_loop :: "'b rio \<Rightarrow> byte list \<Rightarrow> 'b rio \<times> bool" where
  "rioWrite_loop r buf =
     (if buf = [] then (r, True)
      else
        let bytes_to_write = rio_chunk r (length buf);
            r = rio_sum r (take bytes_to_write buf)
        in case rio_write r (rio_io r) (take bytes_to_write buf) of
             None \<Rightarrow> (r\<lparr>rio_write_error := True\<rparr>, False)
           | Some io \<Rightarrow>
               rioWrite_loop (r\<lparr>rio_io := io, processed_bytes := processed_bytes r + bytes_to_write\<rparr>) (drop bytes_to_write buf))"
  by pat_completeness auto
termination
  by (relation "measure (\<lambda>(r, buf). length buf)") (auto simp: rio_chunk_bounds)

definition rioWrite :: "'b rio \<Rightarrow> byte list \<Rightarrow> 'b rio \<times> bool" where
  "rioWrite r buf = (if rio_write_error r then (r, False) else rioWrite_loop r buf)"

function rioRead_loop :: "'b rio \<Rightarrow> nat \<Rightarrow> byte list \<Rightarrow> 'b rio \<times> byte list option" where
  "rioRead_loop r len buf =
     (if len = 0 then (r, Some buf)
      else
        let bytes_to_read = rio_chunk r len
        in case rio_read r (rio_io r) bytes_to_read of
             None \<Rightarrow> (r\<lparr>rio_read_error := True\<rparr>, None)
           | Some (io, bs) \<Rightarrow>
               let r = rio_sum r bs
               in rioRead_loop (r\<lparr>rio_io := io, processed_bytes := processed_bytes r + bytes_to_read\<rparr>) (len - bytes_to_read) (buf @ bs))"
  by pat_completeness auto
termination
  by (relation "measure (\<lambda>(r, len, buf). len)") (auto simp: rio_chunk_bounds)

declare rioWrite_loop.simps [simp del] rioRead_loop.simps [simp del]

definition rioRead :: "'b rio \<Rightarrow> nat \<Rightarrow> 'b rio \<times> byte list option" where
  "rioRead r len = (if rio_read_error r then (r, None) else rioRead_loop r len [])"

definition rioAbort :: "'b rio \<Rightarrow> 'b rio" where
  "rioAbort r = r\<lparr>rio_read_error := True, rio_write_error := True\<rparr>"

definition rioGetReadError :: "'b rio \<Rightarrow> bool" where
  "rioGetReadError r = rio_read_error r"

definition rioGetWriteError :: "'b rio \<Rightarrow> bool" where
  "rioGetWriteError r = rio_write_error r"

definition rioClearErrors :: "'b rio \<Rightarrow> 'b rio" where
  "rioClearErrors r = r\<lparr>rio_read_error := False, rio_write_error := False\<rparr>"

section \<open>Memory buffers\<close>

record rio_buffer =
  buf_ptr :: "byte list"
  buf_pos :: nat

definition rioBufferWrite :: "rio_buffer \<Rightarrow> byte list \<Rightarrow> rio_buffer option" where
  "rioBufferWrite b bs = Some (b\<lparr>buf_ptr := buf_ptr b @ bs, buf_pos := buf_pos b + length bs\<rparr>)"

definition rioBufferRead :: "rio_buffer \<Rightarrow> nat \<Rightarrow> (rio_buffer \<times> byte list) option" where
  "rioBufferRead b len =
     (if length (buf_ptr b) - buf_pos b < len then None
      else Some (b\<lparr>buf_pos := buf_pos b + len\<rparr>, take len (drop (buf_pos b) (buf_ptr b))))"

definition rioBufferTell :: "rio_buffer rio \<Rightarrow> nat" where
  "rioBufferTell r = buf_pos (rio_io r)"

definition rioInitWithBuffer :: "byte list \<Rightarrow> rio_buffer rio" where
  "rioInitWithBuffer s =
     \<lparr>rio_read = rioBufferRead, rio_write = rioBufferWrite, rio_update_cksum = None, rio_cksum = 0, rio_read_error = False,
      rio_write_error = False, processed_bytes = 0, max_processing_chunk = 0, rio_io = \<lparr>buf_ptr = s, buf_pos = 0\<rparr>\<rparr>"

text \<open>The checksum of a chunk does not depend on the cache and the alignment, by the lemmas on \<open>crc64\<close>, so the method is
  given for the state of the checksum module after its start and leaves that state out of its result.\<close>

definition rioGenericUpdateChecksum :: "bool \<Rightarrow> crc64_globals \<Rightarrow> u64 \<Rightarrow> byte list \<Rightarrow> u64" where
  "rioGenericUpdateChecksum little g cksum buf = fst (crc64 little g cksum 0 buf)"

section \<open>Protocol text\<close>

definition rioWriteBulkCount :: "'b rio \<Rightarrow> char \<Rightarrow> int \<Rightarrow> ('b rio \<times> nat) option" where
  "rioWriteBulkCount r prefix count = do {
     (cbuf, n) \<leftarrow> ll2string (replicate 127 (CHR 0x00)) count;
     let text = prefix # take n cbuf @ [CHR 0x0D, CHR 0x0A];
     let (r, ok) = rioWrite r (bytes_of text);
     Some (r, if ok then length text else 0)
   }"

definition rioWriteBulkString :: "'b rio \<Rightarrow> byte list \<Rightarrow> ('b rio \<times> nat) option" where
  "rioWriteBulkString r buf = do {
     (r, nwritten) \<leftarrow> rioWriteBulkCount r (CHR ''$'') (int (length buf));
     if nwritten = 0 then Some (r, 0)
     else
       let (r, ok) = (if 0 < length buf then rioWrite r buf else (r, True)) in
       if \<not> ok then Some (r, 0)
       else
         let (r, ok) = rioWrite r (bytes_of [CHR 0x0D, CHR 0x0A]) in
         Some (r, if ok then nwritten + length buf + 2 else 0)
   }"

definition rioWriteBulkLongLong :: "'b rio \<Rightarrow> int \<Rightarrow> ('b rio \<times> nat) option" where
  "rioWriteBulkLongLong r l = do {
     (lbuf, llen) \<leftarrow> ll2string (replicate 32 (CHR 0x00)) l;
     rioWriteBulkString r (bytes_of (take llen lbuf))
   }"

section \<open>The contract of checksum methods\<close>

text \<open>Chunks do not matter for a checksum that goes on from its last value.\<close>

locale checksum =
  fixes upd :: "u64 \<Rightarrow> byte list \<Rightarrow> u64"
  assumes upd_Nil: "upd c [] = c"
    and upd_append: "upd c (xs @ ys) = upd (upd c xs) ys"
begin

lemma upd_concat: "upd c (concat xss) = fold (\<lambda>xs c. upd c xs) xss c"
  by (induction xss arbitrary: c) (simp_all add: upd_Nil upd_append)

end

text \<open>The method of the generic checksum, on a freshly started program, keeps the contract.\<close>

definition fresh_crc64 :: "bool \<Rightarrow> crc64_globals" where
  "fresh_crc64 little = crc64_init little \<lparr>crc64_table = [], combine_cache = replicate 64 (replicate 64 0),
     CRC64_TRI_CUTOFF = 16 * 1024, CRC64_DUAL_CUTOFF = 1024\<rparr>"

lemma fresh_crc64_sum: "rioGenericUpdateChecksum little (fresh_crc64 little) c bs = crc_spec c bs"
proof -
  have "cache_ok (combine_cache (fresh_crc64 little))" by (simp add: cache_ok_def rows64_def fresh_crc64_def crc64_init_def)
  moreover have "crc64_table (fresh_crc64 little) = crcspeed64native_init little crc64_bitwise"
    by (simp add: fresh_crc64_def crc64_init_def)
  ultimately show ?thesis using crc64_spec [of "fresh_crc64 little" little c 0 bs] by (auto simp: rioGenericUpdateChecksum_def)
qed

interpretation generic: checksum "rioGenericUpdateChecksum little (fresh_crc64 little)" for little
  by unfold_locales (simp_all add: fresh_crc64_sum crc_spec_append)

interpretation no_sum: checksum "\<lambda>c _. c"
  by unfold_locales simp_all

section \<open>Writing to and reading from a buffer\<close>

definition rio_upd :: "'b rio \<Rightarrow> u64 \<Rightarrow> byte list \<Rightarrow> u64" where
  "rio_upd r = (case rio_update_cksum r of None \<Rightarrow> (\<lambda>c _. c) | Some f \<Rightarrow> f)"

definition buffer_rio :: "rio_buffer rio \<Rightarrow> bool" where
  "buffer_rio r \<longleftrightarrow> rio_read r = rioBufferRead \<and> rio_write r = rioBufferWrite \<and> checksum (rio_upd r) \<and>
     buf_pos (rio_io r) \<le> length (buf_ptr (rio_io r))"

definition rest :: "rio_buffer rio \<Rightarrow> byte list" where
  "rest r = drop (buf_pos (rio_io r)) (buf_ptr (rio_io r))"

definition wrote :: "rio_buffer rio \<Rightarrow> byte list \<Rightarrow> rio_buffer rio" where
  "wrote r bs = r\<lparr>rio_cksum := rio_upd r (rio_cksum r) bs, processed_bytes := processed_bytes r + length bs,
     rio_io := \<lparr>buf_ptr = buf_ptr (rio_io r) @ bs, buf_pos = buf_pos (rio_io r) + length bs\<rparr>\<rparr>"

definition took :: "rio_buffer rio \<Rightarrow> byte list \<Rightarrow> rio_buffer rio" where
  "took r bs = r\<lparr>rio_cksum := rio_upd r (rio_cksum r) bs, processed_bytes := processed_bytes r + length bs,
     rio_io := \<lparr>buf_ptr = buf_ptr (rio_io r), buf_pos = buf_pos (rio_io r) + length bs\<rparr>\<rparr>"

lemma rio_sum_upd: "rio_sum r bs = r\<lparr>rio_cksum := rio_upd r (rio_cksum r) bs\<rparr>"
  by (simp add: rio_sum_def rio_upd_def split: option.split)

lemma rio_upd_fields [simp]:
  "rio_upd (r\<lparr>rio_cksum := c\<rparr>) = rio_upd r" "rio_upd (r\<lparr>processed_bytes := n\<rparr>) = rio_upd r" "rio_upd (r\<lparr>rio_io := io\<rparr>) = rio_upd r"
  "rio_upd (r\<lparr>rio_read_error := b\<rparr>) = rio_upd r"
  by (simp_all add: rio_upd_def)

lemma rio_upd_wrote [simp]: "rio_upd (wrote r bs) = rio_upd r" "rio_upd (took r bs) = rio_upd r"
  by (simp_all add: wrote_def took_def)

lemma wrote_fields [simp]:
  "rio_read (wrote r bs) = rio_read r" "rio_write (wrote r bs) = rio_write r" "rio_update_cksum (wrote r bs) = rio_update_cksum r"
  "rio_write_error (wrote r bs) = rio_write_error r" "rio_read_error (wrote r bs) = rio_read_error r"
  "max_processing_chunk (wrote r bs) = max_processing_chunk r"
  "buf_ptr (rio_io (wrote r bs)) = buf_ptr (rio_io r) @ bs" "buf_pos (rio_io (wrote r bs)) = buf_pos (rio_io r) + length bs"
  "rio_cksum (wrote r bs) = rio_upd r (rio_cksum r) bs"
  by (simp_all add: wrote_def)

lemma took_fields [simp]:
  "rio_read (took r bs) = rio_read r" "rio_write (took r bs) = rio_write r" "rio_update_cksum (took r bs) = rio_update_cksum r"
  "rio_write_error (took r bs) = rio_write_error r" "rio_read_error (took r bs) = rio_read_error r"
  "max_processing_chunk (took r bs) = max_processing_chunk r"
  "buf_ptr (rio_io (took r bs)) = buf_ptr (rio_io r)" "buf_pos (rio_io (took r bs)) = buf_pos (rio_io r) + length bs"
  "rio_cksum (took r bs) = rio_upd r (rio_cksum r) bs"
  by (simp_all add: took_def)

lemma buffer_rio_wrote [simp]: "buffer_rio r \<Longrightarrow> buffer_rio (wrote r bs)"
  by (simp add: buffer_rio_def)

lemma rest_took: "rest r = bs @ zs \<Longrightarrow> rest (took r bs) = zs"
  by (simp add: rest_def add.commute flip: drop_drop)

lemma buffer_rio_took: "buffer_rio r \<Longrightarrow> rest r = bs @ zs \<Longrightarrow> buffer_rio (took r bs)"
proof -
  assume r: "buffer_rio r" "rest r = bs @ zs"
  then have "length (drop (buf_pos (rio_io r)) (buf_ptr (rio_io r))) = length bs + length zs" by (simp add: rest_def)
  then have "buf_pos (rio_io r) + length bs \<le> length (buf_ptr (rio_io r))" using r(1) unfolding buffer_rio_def length_drop by linarith
  then show ?thesis using r(1) by (simp add: buffer_rio_def)
qed

lemma wrote_Nil: "buffer_rio r \<Longrightarrow> wrote r [] = r"
  by (simp add: wrote_def buffer_rio_def checksum_def)

lemma took_Nil: "buffer_rio r \<Longrightarrow> took r [] = r"
  by (simp add: took_def buffer_rio_def checksum_def)

lemma wrote_append: "buffer_rio r \<Longrightarrow> wrote (wrote r xs) ys = wrote r (xs @ ys)"
  by (simp add: wrote_def buffer_rio_def checksum_def add.assoc)

lemma took_append: "buffer_rio r \<Longrightarrow> took (took r xs) ys = took r (xs @ ys)"
  by (simp add: took_def buffer_rio_def checksum_def add.assoc)

lemma rioWrite_loop_buffer: "buffer_rio r \<Longrightarrow> rioWrite_loop r bs = (wrote r bs, True)"
proof (induction r bs rule: rioWrite_loop.induct)
  case (1 r buf)
  show ?case
  proof (cases "buf = []")
    case True
    then show ?thesis using "1.prems" by (subst rioWrite_loop.simps) (simp add: wrote_Nil)
  next
    case False
    define n where "n = rio_chunk r (length buf)"
    have n: "n \<le> length buf" by (simp add: n_def rio_chunk_bounds)
    define io where "io = \<lparr>buf_ptr = buf_ptr (rio_io r) @ take n buf, buf_pos = buf_pos (rio_io r) + n\<rparr>"
    have w: "rio_write r (rio_io r) (take n buf) = Some io"
      using "1.prems" n by (simp add: buffer_rio_def rioBufferWrite_def io_def)
    have next_r: "(rio_sum r (take n buf))\<lparr>rio_io := io, processed_bytes := processed_bytes (rio_sum r (take n buf)) + n\<rparr> = wrote r (take n buf)"
      using n by (simp add: rio_sum_upd wrote_def io_def)
    have "rioWrite_loop r buf = rioWrite_loop (wrote r (take n buf)) (drop n buf)"
      using False w by (subst rioWrite_loop.simps) (simp add: Let_def n_def [symmetric] next_r [symmetric] rio_sum_upd)
    also have "\<dots> = (wrote (wrote r (take n buf)) (drop n buf), True)"
      using "1.IH" [OF False n_def refl, of io] "1.prems" w by (simp add: rio_sum_upd next_r [unfolded rio_sum_upd, simplified])
    finally show ?thesis using "1.prems" by (simp add: wrote_append)
  qed
qed

lemma rioWrite_buffer: "buffer_rio r \<Longrightarrow> \<not> rio_write_error r \<Longrightarrow> rioWrite r bs = (wrote r bs, True)"
  by (simp add: rioWrite_def rioWrite_loop_buffer)

lemma rioRead_loop_buffer:
  "buffer_rio r \<Longrightarrow> rest r = bs @ zs \<Longrightarrow> length bs = len \<Longrightarrow> rioRead_loop r len acc = (took r bs, Some (acc @ bs))"
proof (induction r len acc arbitrary: bs rule: rioRead_loop.induct)
  case (1 r len acc)
  show ?case
  proof (cases "len = 0")
    case True
    then show ?thesis using "1.prems" by (subst rioRead_loop.simps) (simp add: took_Nil)
  next
    case False
    define n where "n = rio_chunk r len"
    have n: "n \<le> len" by (simp add: n_def rio_chunk_bounds)
    define io where "io = \<lparr>buf_ptr = buf_ptr (rio_io r), buf_pos = buf_pos (rio_io r) + n\<rparr>"
    have bs: "bs = take n bs @ drop n bs" by simp
    have room: "\<not> length (buf_ptr (rio_io r)) - buf_pos (rio_io r) < n"
      using arg_cong [OF "1.prems"(2), of length] "1.prems"(3) n by (simp add: rest_def)
    have rd: "rio_read r (rio_io r) n = Some (io, take n bs)"
      using "1.prems" n room by (simp add: buffer_rio_def rioBufferRead_def io_def rest_def)
    have next_r: "(rio_sum r (take n bs))\<lparr>rio_io := io, processed_bytes := processed_bytes (rio_sum r (take n bs)) + n\<rparr> = took r (take n bs)"
      using n "1.prems"(3) by (simp add: rio_sum_upd took_def io_def)
    have split: "rest r = take n bs @ (drop n bs @ zs)" using "1.prems"(2) by simp
    have "rioRead_loop r len acc = rioRead_loop (took r (take n bs)) (len - n) (acc @ take n bs)"
      using False rd by (subst rioRead_loop.simps) (simp add: Let_def n_def [symmetric] next_r [symmetric] rio_sum_upd)
    also have "\<dots> = (took (took r (take n bs)) (drop n bs), Some ((acc @ take n bs) @ drop n bs))"
      by (rule "1.IH" [OF False n_def rd refl refl, unfolded next_r])
        (use buffer_rio_took [OF "1.prems"(1) split] rest_took [OF split] "1.prems"(3) in simp_all)
    finally show ?thesis using "1.prems"(1) by (simp add: took_append)
  qed
qed

lemma rioRead_buffer:
  "buffer_rio r \<Longrightarrow> \<not> rio_read_error r \<Longrightarrow> rest r = bs @ zs \<Longrightarrow> length bs = n \<Longrightarrow> rioRead r n = (took r bs, Some bs)"
  using rioRead_loop_buffer [of r bs zs n "[]"] by (simp add: rioRead_def)

text \<open>A read past the end fails and sets the flag; every later read fails.\<close>

lemma rioRead_loop_short:
  "buffer_rio r \<Longrightarrow> length (rest r) < len \<Longrightarrow> \<exists>r'. rioRead_loop r len acc = (r', None) \<and> rio_read_error r'"
proof (induction r len acc rule: rioRead_loop.induct)
  case (1 r len acc)
  then have len: "len \<noteq> 0" by auto
  define n where "n = rio_chunk r len"
  have n: "n \<le> len" "0 < n" using len by (simp_all add: n_def rio_chunk_bounds)
  show ?case
  proof (cases "length (rest r) < n")
    case True
    then have "rio_read r (rio_io r) n = None" using "1.prems"(1) by (simp add: buffer_rio_def rioBufferRead_def rest_def)
    then show ?thesis using len by (subst rioRead_loop.simps) (simp add: n_def [symmetric] Let_def)
  next
    case False
    define bs where "bs = take n (rest r)"
    define io where "io = \<lparr>buf_ptr = buf_ptr (rio_io r), buf_pos = buf_pos (rio_io r) + n\<rparr>"
    have split: "rest r = bs @ drop n (rest r)" "length bs = n" using False by (simp_all add: bs_def)
    have rd: "rio_read r (rio_io r) n = Some (io, bs)"
      using "1.prems"(1) False by (simp add: buffer_rio_def rioBufferRead_def io_def bs_def rest_def)
    have next_r: "(rio_sum r bs)\<lparr>rio_io := io, processed_bytes := processed_bytes (rio_sum r bs) + n\<rparr> = took r bs"
      using split(2) by (simp add: rio_sum_upd took_def io_def)
    have "rioRead_loop r len acc = rioRead_loop (took r bs) (len - n) (acc @ bs)"
      using len rd by (subst rioRead_loop.simps) (simp add: Let_def n_def [symmetric] next_r [symmetric] rio_sum_upd)
    moreover have "\<exists>r'. rioRead_loop (took r bs) (len - n) (acc @ bs) = (r', None) \<and> rio_read_error r'"
      by (rule "1.IH" [OF len n_def rd refl refl, unfolded next_r])
        (use buffer_rio_took [OF "1.prems"(1) split(1)] rest_took [OF split(1)] "1.prems"(2) False n in simp_all)
    ultimately show ?thesis by simp
  qed
qed

lemma rioRead_short:
  "buffer_rio r \<Longrightarrow> length (rest r) < n \<Longrightarrow> \<exists>r'. rioRead r n = (r', None) \<and> rio_read_error r'"
  using rioRead_loop_short [of r n "[]"] by (auto simp: rioRead_def)

end
