(* ===== verification/Rdb.thy ===== *)
theory Rdb
  imports Rio Lzf
begin

text \<open>
  Lengths, integers, strings and times of the snapshot format, \<open>rdb.c\<close> over the streams of \<open>rio.h\<close>.  A saving function
  takes the stream (or none, when only the length is wanted) and returns it with the number of bytes, \<open>None\<close> for the
  result -1.  A loading function returns the stream with a value or an error: the stream failed, the data is corrupt
  (\<open>rdbReportCorruptRDB\<close>, which ends the process or the command), or memory could not be had.  The outer option is
  \<open>None\<close> for an access outside a buffer.  The allocator, the contents of fresh memory and of the uninitialised table of
  the compressor are parameters.  The lemmas show what each saving function appends and that the loading functions give
  it back, whatever follows in the stream.
\<close>

unbundle bit_operations_syntax

section \<open>Saving\<close>

definition RDB_32BITLEN :: byte where "RDB_32BITLEN = 0x80"
definition RDB_64BITLEN :: byte where "RDB_64BITLEN = 0x81"
definition RDB_LENERR :: nat where "RDB_LENERR = 2 ^ 64 - 1"
definition RDB_ENC_INT8 :: nat where "RDB_ENC_INT8 = 0"
definition RDB_ENC_INT16 :: nat where "RDB_ENC_INT16 = 1"
definition RDB_ENC_INT32 :: nat where "RDB_ENC_INT32 = 2"
definition RDB_ENC_LZF :: nat where "RDB_ENC_LZF = 3"

type_synonym 'b saving = "'b rio option \<Rightarrow> 'b rio option \<times> nat option"

definition rdbWriteRaw :: "byte list \<Rightarrow> 'b saving" where
  "rdbWriteRaw p rdb =
     (case rdb of
        None \<Rightarrow> (None, Some (length p))
      | Some r \<Rightarrow> let (r, ok) = rioWrite r p in (Some r, if ok then Some (length p) else None))"

text \<open>One write after another, with the early return on failure and the sum of the bytes.\<close>

definition and_then :: "'b saving \<Rightarrow> 'b saving \<Rightarrow> 'b saving" where
  "and_then f g rdb =
     (case f rdb of
        (rdb, None) \<Rightarrow> (rdb, None)
      | (rdb, Some n) \<Rightarrow> (case g rdb of (rdb, None) \<Rightarrow> (rdb, None) | (rdb, Some m) \<Rightarrow> (rdb, Some (n + m))))"

definition rdbSaveType :: "byte \<Rightarrow> 'b saving" where
  "rdbSaveType ty = rdbWriteRaw [ty]"

definition rdbSaveMillisecondTime :: "int \<Rightarrow> 'b saving" where
  "rdbSaveMillisecondTime t = rdbWriteRaw (le_bytes 8 t)"

text \<open>Network byte order (\<open>htonl\<close>, \<open>htonu64\<close>).\<close>

definition be_bytes :: "nat \<Rightarrow> nat \<Rightarrow> byte list" where
  "be_bytes w n = rev (le_bytes w (int n))"

definition rdbSaveLen :: "nat \<Rightarrow> 'b saving" where
  "rdbSaveLen len =
     (if len < 2 ^ 6 then rdbWriteRaw [of_nat len]
      else if len < 2 ^ 14 then rdbWriteRaw [of_nat (len div 256) OR 0x40, of_nat len]
      else if len \<le> 2 ^ 32 - 1 then and_then (rdbWriteRaw [RDB_32BITLEN]) (rdbWriteRaw (be_bytes 4 len))
      else and_then (rdbWriteRaw [RDB_64BITLEN]) (rdbWriteRaw (be_bytes 8 len)))"

definition rdbEncodeInteger :: "int \<Rightarrow> byte list" where
  "rdbEncodeInteger v =
     (if v \<ge> - (2 ^ 7) \<and> v \<le> 2 ^ 7 - 1 then [0xC0 OR of_nat RDB_ENC_INT8, of_int v]
      else if v \<ge> - (2 ^ 15) \<and> v \<le> 2 ^ 15 - 1 then [0xC0 OR of_nat RDB_ENC_INT16, of_int v, of_int (v div 2 ^ 8)]
      else if v \<ge> - (2 ^ 31) \<and> v \<le> 2 ^ 31 - 1
      then [0xC0 OR of_nat RDB_ENC_INT32, of_int v, of_int (v div 2 ^ 8), of_int (v div 2 ^ 16), of_int (v div 2 ^ 24)]
      else [])"

definition rdbTryIntegerEncoding :: "byte list \<Rightarrow> byte list" where
  "rdbTryIntegerEncoding s = (case string2ll (chars s) of Some v \<Rightarrow> rdbEncodeInteger v | None \<Rightarrow> [])"

definition rdbSaveLzfBlob :: "byte list \<Rightarrow> nat \<Rightarrow> nat \<Rightarrow> 'b saving" where
  "rdbSaveLzfBlob data compress_len original_len =
     and_then (rdbWriteRaw [0xC0 OR of_nat RDB_ENC_LZF])
       (and_then (rdbSaveLen compress_len) (and_then (rdbSaveLen original_len) (rdbWriteRaw (take compress_len data))))"

text \<open>What the environment supplies: the compressor's table and fresh memory.\<close>

record rdb_env =
  env_tab :: "nat \<Rightarrow> int option"
  env_junk :: "nat \<Rightarrow> byte"
  env_alloc :: "nat \<Rightarrow> bool"
  rdb_compression :: bool

definition rdbSaveLzfStringObject :: "rdb_env \<Rightarrow> byte list \<Rightarrow> 'b rio option \<Rightarrow> ('b rio option \<times> nat option) option" where
  "rdbSaveLzfStringObject e s rdb =
     (if length s \<le> 4 then Some (rdb, Some 0)
      else do {
        let outlen = length s - 4;
        (out, comprlen) \<leftarrow> lzf_compress (env_tab e) s (map (env_junk e) [0..<outlen]);
        if comprlen = 0 then Some (rdb, Some 0)
        else Some (rdbSaveLzfBlob out comprlen (length s) rdb)
      })"

definition rdbSaveRawString :: "rdb_env \<Rightarrow> byte list \<Rightarrow> 'b rio option \<Rightarrow> ('b rio option \<times> nat option) option" where
  "rdbSaveRawString e s rdb =
     (let len = length s; buf = (if len \<le> 11 then rdbTryIntegerEncoding s else []) in
      if buf \<noteq> [] then Some (rdbWriteRaw buf rdb)
      else do {
        (rdb, n) \<leftarrow> (if rdb_compression e \<and> len > 20 then rdbSaveLzfStringObject e s rdb else Some (rdb, Some 0));
        if n = None then Some (rdb, None)
        else if n \<noteq> Some 0 then Some (rdb, n)
        else Some (and_then (rdbSaveLen len) (\<lambda>rdb. if len > 0 then rdbWriteRaw s rdb else (rdb, Some 0)) rdb)
      })"

definition rdbSaveLongLongAsStringObject :: "int \<Rightarrow> 'b rio option \<Rightarrow> ('b rio option \<times> nat option) option" where
  "rdbSaveLongLongAsStringObject v rdb =
     (let buf = rdbEncodeInteger v in
      if buf \<noteq> [] then Some (rdbWriteRaw buf rdb)
      else do {
        (txt, enclen) \<leftarrow> ll2string (replicate 32 (CHR 0x00)) v;
        if enclen < 32 then Some (and_then (rdbSaveLen enclen) (rdbWriteRaw (bytes_of (take enclen txt))) rdb) else None
      })"

definition rdbSaveStringObject :: "rdb_env \<Rightarrow> string_obj \<Rightarrow> 'b rio option \<Rightarrow> ('b rio option \<times> nat option) option" where
  "rdbSaveStringObject e obj =
     (case obj of OBJ_ENCODING_INT v \<Rightarrow> rdbSaveLongLongAsStringObject v | OBJ_ENCODING_RAW s \<Rightarrow> rdbSaveRawString e s)"

section \<open>Loading\<close>

datatype load_err = RIO_ERROR | CORRUPT_RDB | NO_MEMORY

type_synonym ('b, 'a) loading = "'b rio \<Rightarrow> 'b rio \<times> (load_err + 'a)"

definition rdbRead :: "nat \<Rightarrow> ('b, byte list) loading" where
  "rdbRead n r = (case rioRead r n of (r, None) \<Rightarrow> (r, Inl RIO_ERROR) | (r, Some bs) \<Rightarrow> (r, Inr bs))"

definition bind_load :: "('b, 'a) loading \<Rightarrow> ('a \<Rightarrow> ('b, 'c) loading) \<Rightarrow> ('b, 'c) loading" where
  "bind_load f g r = (case f r of (r, Inl e) \<Rightarrow> (r, Inl e) | (r, Inr v) \<Rightarrow> g v r)"

definition rdbLoadType :: "('b, byte) loading" where
  "rdbLoadType = bind_load (rdbRead 1) (\<lambda>bs r. (r, Inr (hd bs)))"

definition rdbLoadTime :: "bool \<Rightarrow> ('b, int) loading" where
  "rdbLoadTime little = bind_load (rdbRead 4) (\<lambda>bs r. (r, Inr (le_signed (if little then bs else rev bs))))"

text \<open>On a big-endian machine, files before version 9 hold the bytes in the order of that machine.\<close>

definition rdbLoadMillisecondTime :: "bool \<Rightarrow> int \<Rightarrow> ('b, int) loading" where
  "rdbLoadMillisecondTime little rdbver =
     bind_load (rdbRead 8) (\<lambda>bs r. (r, Inr (le_signed (if little \<or> rdbver \<ge> 9 then bs else rev bs))))"

definition be_value :: "byte list \<Rightarrow> nat" where
  "be_value bs = nat (le_unsigned (rev bs))"

definition rdbLoadLenByRef :: "('b, bool \<times> nat) loading" where
  "rdbLoadLenByRef = bind_load (rdbRead 1) (\<lambda>bs.
     let b = hd bs; ty = unat (drop_bit 6 (b AND 0xC0)) in
     if ty = 3 then (\<lambda>r. (r, Inr (True, unat (b AND 0x3F))))
     else if ty = 0 then (\<lambda>r. (r, Inr (False, unat (b AND 0x3F))))
     else if ty = 1 then bind_load (rdbRead 1) (\<lambda>bs r. (r, Inr (False, unat (b AND 0x3F) * 256 + unat (hd bs))))
     else if b = RDB_32BITLEN then bind_load (rdbRead 4) (\<lambda>bs r. (r, Inr (False, be_value bs)))
     else if b = RDB_64BITLEN then bind_load (rdbRead 8) (\<lambda>bs r. (r, Inr (False, be_value bs)))
     else (\<lambda>r. (r, Inl CORRUPT_RDB)))"

text \<open>The same with the error as the largest length.  The flag is the one that \<open>rdbLoadLenByRef\<close> cleared first.\<close>

definition rdbLoadLen :: "'b rio \<Rightarrow> 'b rio \<times> bool \<times> nat" where
  "rdbLoadLen r = (case rdbLoadLenByRef r of (r, Inl _) \<Rightarrow> (r, False, RDB_LENERR) | (r, Inr (enc, len)) \<Rightarrow> (r, enc, len))"

text \<open>A string is returned as text, or as the integer an object is made from.\<close>

datatype loaded = Text "byte list" | Integer int

definition loaded_text :: "loaded \<Rightarrow> byte list" where
  "loaded_text v = (case v of Text s \<Rightarrow> s | Integer i \<Rightarrow> int_bytes i)"

definition rdbLoadIntegerValue :: "nat \<Rightarrow> ('b, int) loading" where
  "rdbLoadIntegerValue enctype =
     (if enctype = RDB_ENC_INT8 then bind_load (rdbRead 1) (\<lambda>enc r. (r, Inr (le_signed enc)))
      else if enctype = RDB_ENC_INT16 then bind_load (rdbRead 2) (\<lambda>enc r. (r, Inr (le_signed enc)))
      else if enctype = RDB_ENC_INT32 then bind_load (rdbRead 4) (\<lambda>enc r. (r, Inr (le_signed enc)))
      else (\<lambda>r. (r, Inl CORRUPT_RDB)))"

definition rdbLoadIntegerObject :: "nat \<Rightarrow> bool \<Rightarrow> 'b rio \<Rightarrow> ('b rio \<times> (load_err + loaded)) option" where
  "rdbLoadIntegerObject enctype as_text r =
     (case rdbLoadIntegerValue enctype r of
        (r, Inl err) \<Rightarrow> Some (r, Inl err)
      | (r, Inr v) \<Rightarrow>
          if as_text
          then do { (buf, len) \<leftarrow> ll2string (replicate LONG_STR_SIZE (CHR 0x00)) v; Some (r, Inr (Text (bytes_of (take len buf)))) }
          else Some (r, Inr (Integer v)))"

definition rdbLoadLzfStringObject :: "rdb_env \<Rightarrow> 'b rio \<Rightarrow> ('b rio \<times> (load_err + loaded)) option" where
  "rdbLoadLzfStringObject e r =
     (let (r, _, clen) = rdbLoadLen r in
      if clen = RDB_LENERR then Some (r, Inl RIO_ERROR)
      else
        let (r, _, len) = rdbLoadLen r in
        if len = RDB_LENERR then Some (r, Inl RIO_ERROR)
        else if \<not> env_alloc e clen \<or> \<not> env_alloc e len then Some (r, Inl NO_MEMORY)
        else
          (case rdbRead clen r of
             (r, Inl err) \<Rightarrow> Some (r, Inl err)
           | (r, Inr c) \<Rightarrow> do {
               d \<leftarrow> lzf_decompress c (map (env_junk e) [0..<len]);
               case d of
                 LZF_DONE val n \<Rightarrow> if n = len then Some (r, Inr (Text val)) else Some (r, Inl CORRUPT_RDB)
               | _ \<Rightarrow> if len = 0 then Some (r, Inr (Text [])) else Some (r, Inl CORRUPT_RDB)
             }))"

definition rdbGenericLoadStringObject :: "rdb_env \<Rightarrow> bool \<Rightarrow> 'b rio \<Rightarrow> ('b rio \<times> (load_err + loaded)) option" where
  "rdbGenericLoadStringObject e as_text r =
     (let (r, isencoded, len) = rdbLoadLen r in
      if len = RDB_LENERR then Some (r, Inl RIO_ERROR)
      else if isencoded
      then
        if len = RDB_ENC_INT8 \<or> len = RDB_ENC_INT16 \<or> len = RDB_ENC_INT32 then rdbLoadIntegerObject len as_text r
        else if len = RDB_ENC_LZF then rdbLoadLzfStringObject e r
        else Some (r, Inl CORRUPT_RDB)
      else if \<not> env_alloc e len then Some (r, Inl NO_MEMORY)
      else if len = 0 then Some (r, Inr (Text []))
      else (case rdbRead len r of (r, Inl err) \<Rightarrow> Some (r, Inl err) | (r, Inr bs) \<Rightarrow> Some (r, Inr (Text bs))))"

section \<open>What is written and read\<close>

definition appends :: "rio_buffer saving \<Rightarrow> byte list \<Rightarrow> bool" where
  "appends f bs \<longleftrightarrow> f None = (None, Some (length bs)) \<and>
     (\<forall>r. buffer_rio r \<longrightarrow> \<not> rio_write_error r \<longrightarrow> f (Some r) = (Some (wrote r bs), Some (length bs)))"

definition reads :: "(rio_buffer, 'a) loading \<Rightarrow> byte list \<Rightarrow> 'a \<Rightarrow> bool" where
  "reads f bs v \<longleftrightarrow>
     (\<forall>r zs. buffer_rio r \<longrightarrow> \<not> rio_read_error r \<longrightarrow> rest r = bs @ zs \<longrightarrow> f r = (took r bs, Inr v))"

lemma appends_raw: "appends (rdbWriteRaw p) p"
  by (simp add: appends_def rdbWriteRaw_def rioWrite_buffer)

lemma appends_then: "appends f xs \<Longrightarrow> appends g ys \<Longrightarrow> appends (and_then f g) (xs @ ys)"
  by (simp add: appends_def and_then_def wrote_append)

lemma appends_at: "appends f bs \<Longrightarrow> buffer_rio r \<Longrightarrow> \<not> rio_write_error r \<Longrightarrow> f (Some r) = (Some (wrote r bs), Some (length bs))"
  by (simp add: appends_def)

lemma readsI: "(\<And>r zs. buffer_rio r \<Longrightarrow> \<not> rio_read_error r \<Longrightarrow> rest r = bs @ zs \<Longrightarrow> f r = (took r bs, Inr v)) \<Longrightarrow> reads f bs v"
  by (simp add: reads_def)

lemma reads_at: "reads f bs v \<Longrightarrow> buffer_rio r \<Longrightarrow> \<not> rio_read_error r \<Longrightarrow> rest r = bs @ zs \<Longrightarrow> f r = (took r bs, Inr v)"
  by (simp add: reads_def)

lemma reads_return: "reads (\<lambda>r. (r, Inr v)) [] v"
  by (simp add: reads_def took_Nil)

lemma reads_raw: "length bs = n \<Longrightarrow> reads (rdbRead n) bs bs"
  by (rule readsI) (simp add: rdbRead_def rioRead_buffer)

lemma reads_bind:
  assumes "reads f xs v" "reads (g v) ys w"
  shows "reads (bind_load f g) (xs @ ys) w"
proof (rule readsI)
  fix r zs
  assume r: "buffer_rio r" "\<not> rio_read_error r" "rest r = (xs @ ys) @ zs"
  then have split: "rest r = xs @ (ys @ zs)" by simp
  have "f r = (took r xs, Inr v)" using assms(1) r(1,2) split by (rule reads_at)
  moreover have "g v (took r xs) = (took (took r xs) ys, Inr w)"
    using assms(2) buffer_rio_took [OF r(1) split] _ rest_took [OF split] by (rule reads_at) (simp add: r(2))
  ultimately show "bind_load f g r = (took r (xs @ ys), Inr w)" using r(1) by (simp add: bind_load_def took_append)
qed

lemma reads_bind_return: "reads f bs v \<Longrightarrow> reads (bind_load f (\<lambda>x r. (r, Inr (h x)))) bs (h v)"
  using reads_bind [of f bs v "\<lambda>x r. (r, Inr (h x))" "[]" "h v", OF _ reads_return] by simp

section \<open>Lengths\<close>

definition enc_len :: "nat \<Rightarrow> byte list" where
  "enc_len len =
     (if len < 2 ^ 6 then [of_nat len]
      else if len < 2 ^ 14 then [of_nat (len div 256) OR 0x40, of_nat len]
      else if len \<le> 2 ^ 32 - 1 then RDB_32BITLEN # be_bytes 4 len
      else RDB_64BITLEN # be_bytes 8 len)"

lemma appends_len: "appends (rdbSaveLen len) (enc_len len)"
  using appends_then [OF appends_raw appends_raw, of "[RDB_32BITLEN]" "be_bytes 4 len"]
    appends_then [OF appends_raw appends_raw, of "[RDB_64BITLEN]" "be_bytes 8 len"]
  by (simp add: rdbSaveLen_def enc_len_def appends_raw)

lemma be_value_be_bytes: "n < 256 ^ w \<Longrightarrow> be_value (be_bytes w n) = n"
proof -
  assume "n < 256 ^ w"
  then have "int n < 256 ^ w" by (metis of_nat_less_iff of_nat_numeral of_nat_power)
  then show ?thesis by (simp add: be_value_def be_bytes_def le_unsigned_le_bytes)
qed

lemma length_be_bytes [simp]: "length (be_bytes w n) = w"
  by (simp add: be_bytes_def)

lemma len_type: "unat (drop_bit 6 (b AND 0xC0)) = unat b div 64" for b :: byte
  by (simp add: drop_bit_eq_div unat_div unat_byte_and)

definition load_len_rest :: "byte \<Rightarrow> ('b, bool \<times> nat) loading" where
  "load_len_rest b =
     (let ty = unat (drop_bit 6 (b AND 0xC0)) in
      if ty = 3 then (\<lambda>r. (r, Inr (True, unat (b AND 0x3F))))
      else if ty = 0 then (\<lambda>r. (r, Inr (False, unat (b AND 0x3F))))
      else if ty = 1 then bind_load (rdbRead 1) (\<lambda>bs r. (r, Inr (False, unat (b AND 0x3F) * 256 + unat (hd bs))))
      else if b = RDB_32BITLEN then bind_load (rdbRead 4) (\<lambda>bs r. (r, Inr (False, be_value bs)))
      else if b = RDB_64BITLEN then bind_load (rdbRead 8) (\<lambda>bs r. (r, Inr (False, be_value bs)))
      else (\<lambda>r. (r, Inl CORRUPT_RDB)))"

lemmas load_len_rest_type = load_len_rest_def [unfolded len_type Let_def]

lemma rdbLoadLenByRef_alt: "rdbLoadLenByRef = bind_load (rdbRead 1) (\<lambda>bs. load_len_rest (hd bs))"
  unfolding rdbLoadLenByRef_def load_len_rest_def Let_def ..

lemma reads_len_first: "reads (load_len_rest b) bs v \<Longrightarrow> reads rdbLoadLenByRef (b # bs) v"
  using reads_bind [OF reads_raw [of "[b]" 1], of "\<lambda>bs. load_len_rest (hd bs)" bs v] by (simp add: rdbLoadLenByRef_alt)

lemma reads_len:
  assumes "len < 2 ^ 64"
  shows "reads rdbLoadLenByRef (enc_len len) (False, len)"
proof -
  consider "len < 2 ^ 6" | "2 ^ 6 \<le> len" "len < 2 ^ 14" | "2 ^ 14 \<le> len" "len \<le> 2 ^ 32 - 1" | "2 ^ 32 \<le> len" by linarith
  then show ?thesis
  proof cases
    case 1
    then have "unat (of_nat len :: byte) = len" by (simp add: unat_byte_of_nat)
    then have "load_len_rest (of_nat len) = (\<lambda>r :: rio_buffer rio. (r, Inr (False, len)))"
      using 1 by (simp add: load_len_rest_type unat_byte_and)
    then have "reads (load_len_rest (of_nat len)) [] (False, len)" by (simp add: reads_return)
    then show ?thesis using 1 reads_len_first by (simp add: enc_len_def)
  next
    case 2
    define b :: byte where "b = of_nat (len div 256) OR 0x40"
    have "unat b = len div 256 + 64"
      unfolding b_def using 2 by (subst unat_byte_or [of _ 6]) (simp_all add: unat_byte_of_nat)
    moreover have "len div 256 < 64" using 2 by simp
    ultimately have u: "unat b div 64 = 1" "unat b mod 64 = len div 256" by simp_all
    have "reads (load_len_rest b) [of_nat len] (False, len div 256 * 256 + unat (of_nat len :: byte))"
      using reads_bind_return [OF reads_raw [of "[of_nat len]" 1], of "\<lambda>bs. (False, unat (b AND 0x3F) * 256 + unat (hd bs))"] u
      by (simp add: load_len_rest_type unat_byte_and)
    then show ?thesis using 2 reads_len_first [of b "[of_nat len]"] by (simp add: enc_len_def b_def unat_byte_of_nat)
  next
    case 3
    have "be_value (be_bytes 4 len) = len" using 3 by (intro be_value_be_bytes) simp
    then have "reads (load_len_rest RDB_32BITLEN) (be_bytes 4 len) (False, len)"
      using reads_bind_return [OF reads_raw [of "be_bytes 4 len" 4], of "\<lambda>bs. (False, be_value bs)"]
      by (simp add: load_len_rest_type RDB_32BITLEN_def)
    then show ?thesis using 3 reads_len_first by (simp add: enc_len_def)
  next
    case 4
    have "be_value (be_bytes 8 len) = len" using assms by (intro be_value_be_bytes) simp
    then have "reads (load_len_rest RDB_64BITLEN) (be_bytes 8 len) (False, len)"
      using reads_bind_return [OF reads_raw [of "be_bytes 8 len" 8], of "\<lambda>bs. (False, be_value bs)"]
      by (simp add: load_len_rest_type RDB_64BITLEN_def RDB_32BITLEN_def)
    then show ?thesis using 4 reads_len_first by (simp add: enc_len_def)
  qed
qed

lemma reads_special: "k < 64 \<Longrightarrow> reads rdbLoadLenByRef [0xC0 OR of_nat k] (True, k)"
proof -
  assume k: "k < 64"
  have "unat (of_nat k OR 0xC0 :: byte) = k + 192"
    using k by (subst unat_byte_or [of _ 6]) (simp_all add: unat_byte_of_nat)
  then have "unat (0xC0 OR of_nat k :: byte) = k + 192" by (simp add: or.commute)
  then have "load_len_rest (0xC0 OR of_nat k) = (\<lambda>r :: rio_buffer rio. (r, Inr (True, k)))"
    using k div_mult_self1 [of 64 k 3] mod_mult_self1 [of k 3 64] by (simp add: load_len_rest_type unat_byte_and)
  then have "reads (load_len_rest (0xC0 OR of_nat k)) [] (True, k)" by (simp add: reads_return)
  then show ?thesis by (rule reads_len_first)
qed

lemma rdbLoadLen_at:
  assumes "reads rdbLoadLenByRef bs (enc, len)" "buffer_rio r" "\<not> rio_read_error r" "rest r = bs @ zs"
  shows "rdbLoadLen r = (took r bs, enc, len)"
  using reads_at [OF assms] by (simp add: rdbLoadLen_def)

section \<open>Strings\<close>

definition loads :: "(rio_buffer rio \<Rightarrow> (rio_buffer rio \<times> (load_err + 'a)) option) \<Rightarrow> byte list \<Rightarrow> 'a \<Rightarrow> bool" where
  "loads f bs v \<longleftrightarrow>
     (\<forall>r zs. buffer_rio r \<longrightarrow> \<not> rio_read_error r \<longrightarrow> rest r = bs @ zs \<longrightarrow> f r = Some (took r bs, Inr v))"

text \<open>A string begins with a length or with a special code.\<close>

definition load_string_rest :: "rdb_env \<Rightarrow> bool \<Rightarrow> bool \<Rightarrow> nat \<Rightarrow> 'b rio \<Rightarrow> ('b rio \<times> (load_err + loaded)) option" where
  "load_string_rest e as_text isencoded len r =
     (if len = RDB_LENERR then Some (r, Inl RIO_ERROR)
      else if isencoded
      then
        if len = RDB_ENC_INT8 \<or> len = RDB_ENC_INT16 \<or> len = RDB_ENC_INT32 then rdbLoadIntegerObject len as_text r
        else if len = RDB_ENC_LZF then rdbLoadLzfStringObject e r
        else Some (r, Inl CORRUPT_RDB)
      else if \<not> env_alloc e len then Some (r, Inl NO_MEMORY)
      else if len = 0 then Some (r, Inr (Text []))
      else (case rdbRead len r of (r, Inl err) \<Rightarrow> Some (r, Inl err) | (r, Inr bs) \<Rightarrow> Some (r, Inr (Text bs))))"

lemma rdbGenericLoadStringObject_alt:
  "rdbGenericLoadStringObject e as_text r = (case rdbLoadLen r of (r, isencoded, len) \<Rightarrow> load_string_rest e as_text isencoded len r)"
  by (simp add: rdbGenericLoadStringObject_def load_string_rest_def)

lemma loads_first:
  assumes "reads rdbLoadLenByRef bs (enc, len)" "loads (load_string_rest e as_text enc len) cs v"
  shows "loads (rdbGenericLoadStringObject e as_text) (bs @ cs) v"
  unfolding loads_def
proof (intro allI impI)
  fix r zs
  assume r: "buffer_rio r" "\<not> rio_read_error r" "rest r = (bs @ cs) @ zs"
  then have split: "rest r = bs @ (cs @ zs)" by simp
  have "rdbGenericLoadStringObject e as_text r = load_string_rest e as_text enc len (took r bs)"
    by (simp add: rdbGenericLoadStringObject_alt rdbLoadLen_at [OF assms(1) r(1,2) split])
  also have "\<dots> = Some (took (took r bs) cs, Inr v)"
    using assms(2) buffer_rio_took [OF r(1) split] rest_took [OF split] r(2) by (simp add: loads_def)
  finally show "rdbGenericLoadStringObject e as_text r = Some (took r (bs @ cs), Inr v)" using r(1) by (simp add: took_append)
qed

lemma loads_verbatim:
  assumes "length s < 2 ^ 64 - 1" "env_alloc e (length s)"
  shows "loads (rdbGenericLoadStringObject e as_text) (enc_len (length s) @ s) (Text s)"
proof (rule loads_first)
  show "reads rdbLoadLenByRef (enc_len (length s)) (False, length s)" using assms(1) by (intro reads_len) simp
  show "loads (load_string_rest e as_text False (length s)) s (Text s)"
    using assms reads_at [OF reads_raw [OF refl, of s]] by (auto simp: loads_def load_string_rest_def RDB_LENERR_def took_Nil)
qed

lemma rdbEncodeInteger_cases:
  assumes "rdbEncodeInteger v \<noteq> []"
  obtains k n where "rdbEncodeInteger v = (0xC0 OR of_nat k) # le_bytes n v" "(k, n) \<in> {(0, 1), (1, 2), (2, 4)}"
    "- (2 ^ (8 * n - 1)) \<le> v" "v < 2 ^ (8 * n - 1)"
proof -
  consider "- (2 ^ 7) \<le> v \<and> v \<le> 2 ^ 7 - 1" | "\<not> (- (2 ^ 7) \<le> v \<and> v \<le> 2 ^ 7 - 1)" "- (2 ^ 15) \<le> v \<and> v \<le> 2 ^ 15 - 1"
    | "\<not> (- (2 ^ 7) \<le> v \<and> v \<le> 2 ^ 7 - 1)" "\<not> (- (2 ^ 15) \<le> v \<and> v \<le> 2 ^ 15 - 1)" "- (2 ^ 31) \<le> v \<and> v \<le> 2 ^ 31 - 1"
    using assms by (auto simp: rdbEncodeInteger_def split: if_splits)
  then show ?thesis
  proof cases
    case 1
    then show ?thesis using that [of 0 1] by (simp add: rdbEncodeInteger_def RDB_ENC_INT8_def)
  next
    case 2
    then show ?thesis using that [of 1 2] by (simp add: rdbEncodeInteger_def RDB_ENC_INT16_def numeral_2_eq_2)
  next
    case 3
    have "le_bytes 4 v = [of_int v, of_int (v div 2 ^ 8), of_int (v div 2 ^ 16), of_int (v div 2 ^ 24)]"
      by (simp add: numeral_eq_Suc div_mult2_eq [symmetric] zdiv_zmult2_eq [symmetric])
    then show ?thesis using 3 that [of 2 4] by (simp add: rdbEncodeInteger_def RDB_ENC_INT32_def)
  qed
qed

lemma loads_integer:
  assumes "rdbEncodeInteger v \<noteq> []"
  shows "\<exists>w. loads (rdbGenericLoadStringObject e as_text) (rdbEncodeInteger v) w \<and> loaded_text w = int_bytes v"
proof -
  from rdbEncodeInteger_cases [OF assms] obtain k n where
    enc: "rdbEncodeInteger v = (0xC0 OR of_nat k) # le_bytes n v" and kn: "(k, n) \<in> {(0, 1), (1, 2), (2, 4)}"
    and v: "- (2 ^ (8 * n - 1)) \<le> v" "v < 2 ^ (8 * n - 1)" .
  have "0 < n" using kn by auto
  then have val: "le_signed (le_bytes n v) = v" using v by (rule le_signed_le_bytes)
  have "reads (rdbLoadIntegerValue k) (le_bytes n v) v"
    using kn reads_bind_return [OF reads_raw [of "le_bytes n v" n], of le_signed]
    by (auto simp: rdbLoadIntegerValue_def RDB_ENC_INT8_def RDB_ENC_INT16_def RDB_ENC_INT32_def val)
  note rd = reads_at [OF this]
  have v64: "- (2 ^ 63) \<le> v" "v < 2 ^ 63" using kn v by auto
  define w where "w = (if as_text then Text (int_bytes v) else Integer v)"
  have "ll2string (replicate LONG_STR_SIZE (CHR 0x00)) v =
      Some (sdec v @ NUL # drop (length (sdec v) + 1) (replicate LONG_STR_SIZE (CHR 0x00)), length (sdec v))"
    using v64 length_sdec [OF v64] by (intro ll2string_correct) simp_all
  then have "loads (rdbLoadIntegerObject k as_text) (le_bytes n v) w"
    using rd by (auto simp: loads_def rdbLoadIntegerObject_def w_def int_bytes_bytes_of)
  then have "loads (load_string_rest e as_text True k) (le_bytes n v) w"
    using kn by (auto simp: loads_def load_string_rest_def RDB_LENERR_def RDB_ENC_INT8_def RDB_ENC_INT16_def RDB_ENC_INT32_def)
  moreover have "reads rdbLoadLenByRef [0xC0 OR of_nat k] (True, k)" using kn by (intro reads_special) auto
  ultimately have "loads (rdbGenericLoadStringObject e as_text) ([0xC0 OR of_nat k] @ le_bytes n v) w"
    by (intro loads_first) assumption+
  then show ?thesis unfolding enc by (intro exI [of _ w]) (simp add: w_def loaded_text_def)
qed

lemma loads_lzf:
  assumes d: "lzf_decompress c (map (env_junk e) [0..<length s]) = Some (LZF_DONE s (length s))"
    and c: "length c \<le> length s" and s: "length s < 2 ^ 63" and a: "env_alloc e (length c)" "env_alloc e (length s)"
  shows "loads (rdbGenericLoadStringObject e as_text)
    ([0xC0 OR of_nat RDB_ENC_LZF] @ enc_len (length c) @ enc_len (length s) @ c) (Text s)"
proof (rule loads_first)
  show "reads rdbLoadLenByRef [0xC0 OR of_nat RDB_ENC_LZF] (True, RDB_ENC_LZF)"
    by (rule reads_special) (simp add: RDB_ENC_LZF_def)
  have r1: "reads rdbLoadLenByRef (enc_len (length c)) (False, length c)" using c s by (intro reads_len) simp
  have r2: "reads rdbLoadLenByRef (enc_len (length s)) (False, length s)" using s by (intro reads_len) simp
  have err: "length c \<noteq> RDB_LENERR" "length s \<noteq> RDB_LENERR" using c s by (simp_all add: RDB_LENERR_def)
  have "loads (rdbLoadLzfStringObject e) (enc_len (length c) @ enc_len (length s) @ c) (Text s)"
    unfolding loads_def
  proof (intro allI impI)
    fix r zs
    assume r: "buffer_rio r" "\<not> rio_read_error r" "rest r = (enc_len (length c) @ enc_len (length s) @ c) @ zs"
    define r' where "r' = took r (enc_len (length c))"
    define r'' where "r'' = took r' (enc_len (length s))"
    have 1: "rest r = enc_len (length c) @ (enc_len (length s) @ c @ zs)" using r(3) by simp
    have r': "buffer_rio r'" "\<not> rio_read_error r'" "rest r' = enc_len (length s) @ (c @ zs)"
      using buffer_rio_took [OF r(1) 1] rest_took [OF 1] r(2) by (simp_all add: r'_def)
    have r'': "buffer_rio r''" "\<not> rio_read_error r''" "rest r'' = c @ zs"
      using buffer_rio_took [OF r'(1,3)] rest_took [OF r'(3)] r'(2) by (simp_all add: r''_def)
    have "rdbLoadLzfStringObject e r = Some (took r'' c, Inr (Text s))"
      using rdbLoadLen_at [OF r1 r(1,2) 1] rdbLoadLen_at [OF r2 r'] reads_at [OF reads_raw [OF refl, of c] r'']
      by (simp add: rdbLoadLzfStringObject_def err a d r'_def [symmetric] r''_def [symmetric])
    then show "rdbLoadLzfStringObject e r = Some (took r (enc_len (length c) @ enc_len (length s) @ c), Inr (Text s))"
      using r(1) r'(1) by (simp add: r''_def r'_def took_append buffer_rio_took [OF r(1) 1])
  qed
  then show "loads (load_string_rest e as_text True RDB_ENC_LZF) (enc_len (length c) @ enc_len (length s) @ c) (Text s)"
    by (simp add: loads_def load_string_rest_def RDB_LENERR_def RDB_ENC_LZF_def RDB_ENC_INT8_def RDB_ENC_INT16_def RDB_ENC_INT32_def)
qed

definition saves :: "(rio_buffer rio option \<Rightarrow> (rio_buffer rio option \<times> nat option) option) \<Rightarrow> byte list \<Rightarrow> bool" where
  "saves f bs \<longleftrightarrow> f None = Some (None, Some (length bs)) \<and>
     (\<forall>r. buffer_rio r \<longrightarrow> \<not> rio_write_error r \<longrightarrow> f (Some r) = Some (Some (wrote r bs), Some (length bs)))"

lemma saves_appends: "appends f bs \<Longrightarrow> saves (\<lambda>rdb. Some (f rdb)) bs"
  by (simp add: saves_def appends_def)

text \<open>The bytes of a text, whichever way it is written, load back as the text.\<close>

definition carries :: "byte list \<Rightarrow> byte list \<Rightarrow> bool" where
  "carries bs s \<longleftrightarrow> (\<forall>e as_text. (\<forall>n \<le> length s. env_alloc e n) \<longrightarrow>
     (\<exists>v. loads (rdbGenericLoadStringObject e as_text) bs v \<and> loaded_text v = s))"

lemma carries_verbatim: "length s < 2 ^ 64 - 1 \<Longrightarrow> carries (enc_len (length s) @ s) s"
  using loads_verbatim by (fastforce simp: carries_def loaded_text_def)

lemma carries_integer: "rdbEncodeInteger v \<noteq> [] \<Longrightarrow> carries (rdbEncodeInteger v) (int_bytes v)"
  using loads_integer by (simp add: carries_def)

lemma saves_verbatim: "saves (\<lambda>rdb. Some (and_then (rdbSaveLen (length s)) (\<lambda>rdb. if length s > 0 then rdbWriteRaw s rdb else (rdb, Some 0)) rdb))
    (enc_len (length s) @ s)"
proof -
  have "appends (\<lambda>rdb. if length s > 0 then rdbWriteRaw s rdb else (rdb, Some 0)) s"
    using appends_raw [of s] by (auto simp: appends_def wrote_Nil)
  then show ?thesis by (intro saves_appends appends_then appends_len)
qed

lemma saves_at:
  "saves f bs \<Longrightarrow> buffer_rio r \<Longrightarrow> \<not> rio_write_error r \<Longrightarrow> f (Some r) = Some (Some (wrote r bs), Some (length bs))"
  "saves f bs \<Longrightarrow> f None = Some (None, Some (length bs))"
  by (simp_all add: saves_def)

lemma rdbSaveLzfStringObject_cases:
  assumes "20 < length s" "length s < 2 ^ 63" "slots_ok (env_tab e)"
  obtains "\<And>rdb :: rio_buffer rio option. rdbSaveLzfStringObject e s rdb = Some (rdb, Some 0)"
  | bs where "saves (rdbSaveLzfStringObject e s) bs" "bs \<noteq> []" "carries bs s"
proof -
  have "2 \<le> length s" using assms(1) by simp
  from lzf_inverse [OF this assms(2,3), of "map (env_junk e) [0..<length s - 4]"] obtain m k where
    c: "lzf_compress (env_tab e) s (map (env_junk e) [0..<length s - 4]) = Some (m, k)" "length m = length s - 4" "k \<le> length s - 4"
    "0 < k \<Longrightarrow> length s \<le> length dst \<Longrightarrow> lzf_decompress (take k m) dst = Some (LZF_DONE (s @ drop (length s) dst) (length s))" for dst
    by auto
  have eq: "rdbSaveLzfStringObject e s rdb = Some (if k = 0 then (rdb, Some 0) else rdbSaveLzfBlob m k (length s) rdb)" for rdb :: "rio_buffer rio option"
    using assms(1) c(1) by (simp add: rdbSaveLzfStringObject_def)
  show ?thesis
  proof (cases "k = 0")
    case True
    then show ?thesis using that(1) eq by simp
  next
    case False
    define bs where "bs = [0xC0 OR of_nat RDB_ENC_LZF] @ enc_len k @ enc_len (length s) @ take k m"
    have len: "length (take k m) = k" using c(2,3) by simp
    have "appends (rdbSaveLzfBlob m k (length s)) bs"
      unfolding rdbSaveLzfBlob_def bs_def by (intro appends_then appends_raw appends_len)
    then have "saves (rdbSaveLzfStringObject e s) bs" using saves_appends False eq by (simp add: saves_def)
    moreover have "carries bs s"
      unfolding carries_def
    proof (intro allI impI)
      fix e' :: rdb_env and as_text
      assume al: "\<forall>n \<le> length s. env_alloc e' n"
      have "loads (rdbGenericLoadStringObject e' as_text)
          ([0xC0 OR of_nat RDB_ENC_LZF] @ enc_len (length (take k m)) @ enc_len (length s) @ take k m) (Text s)"
        using False c(3) assms(2) al by (intro loads_lzf) (simp_all add: c(4) len)
      then show "\<exists>v. loads (rdbGenericLoadStringObject e' as_text) bs v \<and> loaded_text v = s"
        unfolding len bs_def by (intro exI [of _ "Text s"]) (simp add: loaded_text_def)
    qed
    ultimately show ?thesis using that(2) by (simp add: bs_def)
  qed
qed

lemma rdbSaveRawString_plain:
  assumes "\<not> (length s \<le> 11 \<and> rdbTryIntegerEncoding s \<noteq> [])" "length s < 2 ^ 63"
    "rdb_compression e \<and> 20 < length s \<Longrightarrow> (\<And>rdb :: rio_buffer rio option. rdbSaveLzfStringObject e s rdb = Some (rdb, Some 0))"
  shows "saves (rdbSaveRawString e s) (enc_len (length s) @ s)" "carries (enc_len (length s) @ s) s"
proof -
  have "rdbSaveRawString e s rdb = Some (and_then (rdbSaveLen (length s)) (\<lambda>rdb. if length s > 0 then rdbWriteRaw s rdb else (rdb, Some 0)) rdb)"
    for rdb :: "rio_buffer rio option"
    using assms(1,3) by (auto simp: rdbSaveRawString_def Let_def)
  then have "rdbSaveRawString e s =
      (\<lambda>rdb :: rio_buffer rio option. Some (and_then (rdbSaveLen (length s)) (\<lambda>rdb. if length s > 0 then rdbWriteRaw s rdb else (rdb, Some 0)) rdb))"
    by (rule ext)
  then show "saves (rdbSaveRawString e s) (enc_len (length s) @ s)" using saves_verbatim by simp
  show "carries (enc_len (length s) @ s) s" using assms(2) by (intro carries_verbatim) simp
qed

lemma rdbSaveRawString_saves:
  assumes "length s < 2 ^ 63" "slots_ok (env_tab e)"
  shows "\<exists>bs. saves (rdbSaveRawString e s) bs \<and> carries bs s"
proof -
  consider "length s \<le> 11" "rdbTryIntegerEncoding s \<noteq> []" | "\<not> (length s \<le> 11 \<and> rdbTryIntegerEncoding s \<noteq> [])" "rdb_compression e" "20 < length s"
    | "\<not> (length s \<le> 11 \<and> rdbTryIntegerEncoding s \<noteq> [])" "\<not> (rdb_compression e \<and> 20 < length s)" by blast
  then show ?thesis
  proof cases
    case 1
    then obtain v where v: "string2ll (chars s) = Some v" "rdbTryIntegerEncoding s = rdbEncodeInteger v"
      by (auto simp: rdbTryIntegerEncoding_def split: option.splits)
    then have "chars s = sdec v" by (simp add: string2ll_exact)
    then have "s = int_bytes v" using bytes_of_chars [of s] by (simp add: int_bytes_bytes_of)
    moreover have "rdbSaveRawString e s = (\<lambda>rdb :: rio_buffer rio option. Some (rdbWriteRaw (rdbEncodeInteger v) rdb))"
      using 1 v(2) by (auto simp: fun_eq_iff rdbSaveRawString_def)
    ultimately show ?thesis using 1 v(2) saves_appends [OF appends_raw] carries_integer [of v] by auto
  next
    case 2
    show ?thesis
    proof (rule rdbSaveLzfStringObject_cases [OF 2(3) assms])
      assume "\<And>rdb :: rio_buffer rio option. rdbSaveLzfStringObject e s rdb = Some (rdb, Some 0)"
      then show ?thesis using rdbSaveRawString_plain [OF 2(1) assms(1)] by blast
    next
      fix bs
      assume bs: "saves (rdbSaveLzfStringObject e s) bs" "bs \<noteq> []" "carries bs s"
      have "saves (rdbSaveRawString e s) bs" using bs(1,2) 2 unfolding saves_def appends_def
        by (auto simp: rdbSaveRawString_def Let_def)
      then show ?thesis using bs(3) by blast
    qed
  next
    case 3
    then show ?thesis using rdbSaveRawString_plain [OF 3(1) assms(1)] by blast
  qed
qed

lemma rdbSaveStringObject_saves:
  assumes "obj_ok obj" "slots_ok (env_tab e)"
  shows "\<exists>bs. saves (rdbSaveStringObject e obj) bs \<and> carries bs (obj_text obj)"
proof (cases obj)
  case (OBJ_ENCODING_RAW s)
  then show ?thesis using assms rdbSaveRawString_saves by (simp add: rdbSaveStringObject_def obj_ok_def obj_text_def)
next
  case (OBJ_ENCODING_INT v)
  then have v: "- (2 ^ 63) \<le> v" "v < 2 ^ 63" using assms(1) by (simp_all add: obj_ok_def)
  have len: "length (sdec v) < 21" using length_sdec [OF v] by (simp add: LONG_STR_SIZE_def)
  have "ll2string (replicate 32 (CHR 0x00)) v =
      Some (sdec v @ NUL # drop (length (sdec v) + 1) (replicate 32 (CHR 0x00)), length (sdec v))"
    using v len by (intro ll2string_correct) simp_all
  then have eq: "rdbSaveLongLongAsStringObject v = (\<lambda>rdb :: rio_buffer rio option. Some (if rdbEncodeInteger v \<noteq> [] then rdbWriteRaw (rdbEncodeInteger v) rdb
      else and_then (rdbSaveLen (length (int_bytes v))) (rdbWriteRaw (int_bytes v)) rdb))"
    using len by (auto simp: fun_eq_iff rdbSaveLongLongAsStringObject_def int_bytes_bytes_of)
  show ?thesis
  proof (cases "rdbEncodeInteger v = []")
    case True
    have "carries (enc_len (length (int_bytes v)) @ int_bytes v) (int_bytes v)"
      using len by (intro carries_verbatim) (simp add: int_bytes_bytes_of)
    then show ?thesis using True saves_appends [OF appends_then [OF appends_len appends_raw]]
      by (auto simp: rdbSaveStringObject_def obj_text_def OBJ_ENCODING_INT eq)
  next
    case False
    then show ?thesis using saves_appends [OF appends_raw] carries_integer [OF False]
      by (auto simp: rdbSaveStringObject_def obj_text_def OBJ_ENCODING_INT eq)
  qed
qed

section \<open>Sequences of strings in one stream\<close>

fun save_strings :: "rdb_env \<Rightarrow> string_obj list \<Rightarrow> 'b rio \<Rightarrow> 'b rio option" where
  "save_strings e [] r = Some r"
| "save_strings e (obj # objs) r =
     (case rdbSaveStringObject e obj (Some r) of Some (Some r, Some n) \<Rightarrow> save_strings e objs r | _ \<Rightarrow> None)"

fun load_strings :: "rdb_env \<Rightarrow> bool \<Rightarrow> nat \<Rightarrow> 'b rio \<Rightarrow> ('b rio \<times> loaded list) option" where
  "load_strings e as_text 0 r = Some (r, [])"
| "load_strings e as_text (Suc n) r =
     (case rdbGenericLoadStringObject e as_text r of
        Some (r, Inr v) \<Rightarrow> (case load_strings e as_text n r of None \<Rightarrow> None | Some (r, vs) \<Rightarrow> Some (r, v # vs))
      | _ \<Rightarrow> None)"

lemma save_strings_bytes:
  assumes "\<forall>obj \<in> set objs. obj_ok obj" "slots_ok (env_tab e)" "buffer_rio w" "\<not> rio_write_error w"
  shows "\<exists>bss. save_strings e objs w = Some (wrote w (concat bss)) \<and> list_all2 (\<lambda>bs obj. carries bs (obj_text obj)) bss objs"
  using assms
proof (induction objs arbitrary: w)
  case Nil
  then show ?case by (simp add: wrote_Nil)
next
  case (Cons obj objs)
  then obtain bs where bs: "saves (rdbSaveStringObject e obj) bs" "carries bs (obj_text obj)"
    using rdbSaveStringObject_saves by (metis list.set_intros(1))
  have "\<exists>bss. save_strings e objs (wrote w bs) = Some (wrote (wrote w bs) (concat bss)) \<and> list_all2 (\<lambda>bs obj. carries bs (obj_text obj)) bss objs"
    using Cons.prems by (intro Cons.IH) simp_all
  then obtain bss where "save_strings e objs (wrote w bs) = Some (wrote (wrote w bs) (concat bss))"
    "list_all2 (\<lambda>bs obj. carries bs (obj_text obj)) bss objs" by blast
  then show ?case
    using saves_at(1) [OF bs(1) Cons.prems(3,4)] bs(2) Cons.prems(3)
    by (intro exI [of _ "bs # bss"]) (simp add: wrote_append)
qed

lemma load_strings_bytes:
  assumes "list_all2 (\<lambda>bs obj. carries bs (obj_text obj)) bss objs" "\<forall>n. env_alloc e n"
    "buffer_rio r" "\<not> rio_read_error r" "rest r = concat bss @ zs"
  shows "\<exists>vs. load_strings e as_text (length objs) r = Some (took r (concat bss), vs) \<and> map loaded_text vs = map obj_text objs"
  using assms
proof (induction bss objs arbitrary: r rule: list_all2_induct)
  case Nil
  then show ?case by (simp add: took_Nil)
next
  case (Cons bs bss obj objs)
  then obtain v where v: "loads (rdbGenericLoadStringObject e as_text) bs v" "loaded_text v = obj_text obj"
    by (fastforce simp: carries_def)
  have split: "rest r = bs @ (concat bss @ zs)" using Cons.prems(4) by simp
  have "\<exists>vs. load_strings e as_text (length objs) (took r bs) = Some (took (took r bs) (concat bss), vs) \<and> map loaded_text vs = map obj_text objs"
    using Cons.prems buffer_rio_took [OF _ split] rest_took [OF split] by (intro Cons.IH) simp_all
  then obtain vs where "load_strings e as_text (length objs) (took r bs) = Some (took (took r bs) (concat bss), vs)"
    "map loaded_text vs = map obj_text objs" by blast
  moreover have "rdbGenericLoadStringObject e as_text r = Some (took r bs, Inr v)"
    using v(1) Cons.prems(2,3) split by (simp add: loads_def)
  ultimately show ?case using v(2) Cons.prems(2) by (intro exI [of _ "v # vs"]) (simp add: took_append)
qed

definition summed :: "bool \<Rightarrow> nat \<Rightarrow> byte list \<Rightarrow> rio_buffer rio" where
  "summed little chunk bs = (rioInitWithBuffer bs)
     \<lparr>rio_update_cksum := Some (rioGenericUpdateChecksum little (fresh_crc64 little)), max_processing_chunk := chunk\<rparr>"

lemma buffer_rio_summed: "buffer_rio (summed little chunk bs)"
  "rest (summed little chunk bs) = bs" "\<not> rio_read_error (summed little chunk bs)" "\<not> rio_write_error (summed little chunk bs)"
  "rio_cksum (summed little chunk bs) = 0" "rio_upd (summed little chunk bs) = rioGenericUpdateChecksum little (fresh_crc64 little)"
  "buf_ptr (rio_io (summed little chunk bs)) = bs"
  using generic.checksum_axioms by (simp_all add: summed_def buffer_rio_def rest_def rioInitWithBuffer_def rio_upd_def)

section \<open>Loading arbitrary bytes\<close>









section \<open>Properties\<close>

text \<open>C11. Strings saved one after another into one stream, whichever of the integer, compressed and verbatim forms
  \<open>rdbSaveStringObject\<close> picks for each, load back in order with the same texts, and the checksums of the writer and of the
  reader agree, for every chunk size of the two streams and every content of the compressor's table.\<close>

theorem rdb_strings_roundtrip:
  assumes "\<forall>obj \<in> set objs. obj_ok obj" "slots_ok (env_tab e)" "\<forall>n. env_alloc e' n"
  shows "\<exists>w r vs. save_strings e objs (summed little chunk []) = Some w \<and>
    load_strings e' as_text (length objs) (summed little' chunk' (buf_ptr (rio_io w))) = Some (r, vs) \<and>
    map loaded_text vs = map obj_text objs \<and> rest r = [] \<and> rio_cksum r = rio_cksum w"
proof -
  let ?w = "summed little chunk []"
  obtain bss where s: "save_strings e objs ?w = Some (wrote ?w (concat bss))" "list_all2 (\<lambda>bs obj. carries bs (obj_text obj)) bss objs"
    using save_strings_bytes [OF assms(1,2) buffer_rio_summed(1,4)] by blast
  let ?r = "summed little' chunk' (concat bss)"
  have r: "rest ?r = concat bss @ []" by (simp add: buffer_rio_summed)
  obtain vs where "load_strings e' as_text (length objs) ?r = Some (took ?r (concat bss), vs)" "map loaded_text vs = map obj_text objs"
    using load_strings_bytes [OF s(2) assms(3) buffer_rio_summed(1,3) r] by blast
  then show ?thesis
    using s(1) rest_took [OF r] by (simp add: buffer_rio_summed fresh_crc64_sum)
qed

definition example_env :: rdb_env where
  "example_env = \<lparr>env_tab = (\<lambda>_. None), env_junk = (\<lambda>_. 0), env_alloc = (\<lambda>_. True), rdb_compression = True\<rparr>"

theorem rdb_strings_roundtrip_witness:
  "\<exists>w r vs. save_strings example_env [OBJ_ENCODING_INT (- 70000), OBJ_ENCODING_RAW (replicate 30 97)] (summed True 7 []) = Some w \<and>
    load_strings example_env True (Suc (Suc 0)) (summed True 5 (buf_ptr (rio_io w))) = Some (r, vs) \<and>
    map loaded_text vs = [int_bytes (- 70000), replicate 30 97] \<and> rest r = [] \<and> rio_cksum r = rio_cksum w"
  using rdb_strings_roundtrip [of "[OBJ_ENCODING_INT (- 70000), OBJ_ENCODING_RAW (replicate 30 97)]" example_env example_env True 7 True True 5]
  by (simp add: example_env_def slots_ok_def slot_ok_def obj_ok_def obj_text_def del: save_strings.simps load_strings.simps)



text \<open>C40. \<open>rdbSaveLen\<close> writes one to nine bytes from which \<open>rdbLoadLen\<close> reads the same number, marked as a length and
  not as a special code, wherever in a stream it stands; only the largest 64-bit number is read as the error value.\<close>

theorem rdb_len_roundtrip:
  assumes "buffer_rio w" "\<not> rio_write_error w" "buffer_rio r" "\<not> rio_read_error r" "len < 2 ^ 64"
  shows "\<exists>bs. rdbSaveLen len (Some w) = (Some (wrote w bs), Some (length bs)) \<and> 1 \<le> length bs \<and> length bs \<le> 9 \<and>
    (\<forall>zs. rest r = bs @ zs \<longrightarrow> rdbLoadLen r = (took r bs, False, len))"
  using appends_at [OF appends_len assms(1,2)] rdbLoadLen_at [OF reads_len [OF assms(5)] assms(3,4)]
  by (intro exI [of _ "enc_len len"]) (simp add: enc_len_def)

theorem rdb_len_roundtrip_witness:
  "\<exists>bs. rdbSaveLen 16384 (Some (summed True 0 [])) = (Some (wrote (summed True 0 []) bs), Some (length bs)) \<and> 1 \<le> length bs \<and>
    length bs \<le> 9 \<and>
    (\<forall>zs. rest (summed True 3 [0x80, 0, 0, 0x40, 0]) = bs @ zs \<longrightarrow>
      rdbLoadLen (summed True 3 [0x80, 0, 0, 0x40, 0]) = (took (summed True 3 [0x80, 0, 0, 0x40, 0]) bs, False, 16384))"
  using rdb_len_roundtrip [OF buffer_rio_summed(1,4) buffer_rio_summed(1,3), of 16384 True 0 "[]" True 3 "[0x80, 0, 0, 0x40, 0]"] by simp

end
