(* ===== verification/Bit_Count.thy ===== *)
theory Bit_Count
  imports Byte_Text
begin

text \<open>
  Counting the set bits of a string, \<open>bitops.c\<close>: the table, the plain routine with and without the \<open>POPCNT\<close> instruction,
  and the routines for the vector units.  A string is a list of bytes with the address of its first byte, as the routines
  first count single bytes up to an aligned address.  The intrinsics are modelled lane by lane on lists of words, with the
  width of their lanes.  The lemmas show that each routine returns the number of set bits; the routine for AArch64 does so
  only up to 262143 bytes, since its lanes of 16 bits are added up once, after the whole string.
\<close>

unbundle bit_operations_syntax

section \<open>The table and single bytes\<close>

definition B2 :: "nat \<Rightarrow> nat list" where "B2 n = [n, n + 1, n + 1, n + 2]"
definition B4 :: "nat \<Rightarrow> nat list" where "B4 n = B2 n @ B2 (n + 1) @ B2 (n + 1) @ B2 (n + 2)"
definition B6 :: "nat \<Rightarrow> nat list" where "B6 n = B4 n @ B4 (n + 1) @ B4 (n + 1) @ B4 (n + 2)"
definition bitsinbyte :: "nat list" where "bitsinbyte = B6 0 @ B6 1 @ B6 1 @ B6 2"

text \<open>Bytes up to an address divisible by \<open>m\<close>, and the bytes that remain.\<close>

fun pop_align :: "nat \<Rightarrow> nat \<Rightarrow> nat \<Rightarrow> byte list \<Rightarrow> nat \<times> byte list" where
  "pop_align m addr bits [] = (bits, [])"
| "pop_align m addr bits (b # s) =
     (if addr mod m \<noteq> 0 then pop_align m (addr + 1) (bits + bitsinbyte ! unat b) s else (bits, b # s))"

fun pop_rest :: "nat \<Rightarrow> byte list \<Rightarrow> nat" where
  "pop_rest bits [] = bits"
| "pop_rest bits (b # s) = pop_rest (bits + bitsinbyte ! unat b) s"

text \<open>A load through a pointer to an unsigned integer, on a machine of either byte order; \<open>__builtin_popcountll\<close>.\<close>

definition load_word :: "bool \<Rightarrow> byte list \<Rightarrow> 'a::len word" where
  "load_word little s = word_of_int (le_unsigned (if little then s else rev s))"

definition popcountll :: "u64 \<Rightarrow> nat" where
  "popcountll w = length (filter (bit w) [0..<64])"

definition word_at :: "bool \<Rightarrow> byte list \<Rightarrow> nat \<Rightarrow> u64" where
  "word_at little p i = load_word little (take 8 (drop i p))"

section \<open>The plain routine\<close>

function pop_by_32 :: "bool \<Rightarrow> nat \<Rightarrow> nat \<Rightarrow> nat \<Rightarrow> nat \<Rightarrow> byte list \<Rightarrow> nat \<times> byte list" where
  "pop_by_32 little cnt0 cnt1 cnt2 cnt3 p =
     (if 32 \<le> length p
      then pop_by_32 little (cnt0 + popcountll (word_at little p 0)) (cnt1 + popcountll (word_at little p 8))
             (cnt2 + popcountll (word_at little p 16)) (cnt3 + popcountll (word_at little p 24)) (drop 32 p)
      else (cnt0 + cnt1 + cnt2 + cnt3, p))"
  by pat_completeness auto
termination
  by (relation "measure (\<lambda>(_, _, _, _, _, p). length p)") auto

text \<open>Sums of neighbouring bits, pairs and nibbles inside a 32-bit word.\<close>

definition swar_nibbles :: "32 word \<Rightarrow> 32 word" where
  "swar_nibbles aux =
     (let aux = aux - (drop_bit 1 aux AND 0x55555555)
      in (aux AND 0x33333333) + (drop_bit 2 aux AND 0x33333333))"

definition swar_bytes :: "32 word \<Rightarrow> 32 word" where
  "swar_bytes aux = (aux + drop_bit 4 aux) AND 0x0F0F0F0F"

definition pop_28 :: "bool \<Rightarrow> byte list \<Rightarrow> nat" where
  "pop_28 little p =
     (let aux1 = swar_nibbles (load_word little (take 4 p));
          aux2 = swar_nibbles (load_word little (take 4 (drop 4 p)));
          aux3 = swar_nibbles (load_word little (take 4 (drop 8 p)));
          aux4 = swar_nibbles (load_word little (take 4 (drop 12 p)));
          aux5 = swar_nibbles (load_word little (take 4 (drop 16 p)));
          aux6 = swar_nibbles (load_word little (take 4 (drop 20 p)));
          aux7 = swar_nibbles (load_word little (take 4 (drop 24 p)))
      in unat (drop_bit 24 ((swar_bytes aux1 + swar_bytes aux2 + swar_bytes aux3 + swar_bytes aux4 +
           swar_bytes aux5 + swar_bytes aux6 + swar_bytes aux7) * 0x01010101)))"

function pop_by_28 :: "bool \<Rightarrow> nat \<Rightarrow> byte list \<Rightarrow> nat \<times> byte list" where
  "pop_by_28 little bits p =
     (if 28 \<le> length p then pop_by_28 little (bits + pop_28 little p) (drop 28 p) else (bits, p))"
  by pat_completeness auto
termination
  by (relation "measure (\<lambda>(_, _, p). length p)") auto

declare pop_by_32.simps [simp del] pop_by_28.simps [simp del]

definition redisPopcount :: "bool \<Rightarrow> bool \<Rightarrow> nat \<Rightarrow> byte list \<Rightarrow> nat" where
  "redisPopcount little use_popcnt addr s =
     (let (bits, p) = pop_align (if use_popcnt then 8 else 4) addr 0 s in
      if use_popcnt
      then let (cnt, p) = pop_by_32 little 0 0 0 0 p in pop_rest (bits + cnt) p
      else let (bits, p) = pop_by_28 little bits p in pop_rest bits p)"

section \<open>The routines for vector units\<close>

function pop_by_8 :: "bool \<Rightarrow> nat \<Rightarrow> byte list \<Rightarrow> nat \<times> byte list" where
  "pop_by_8 little bits p =
     (if 8 \<le> length p then pop_by_8 little (bits + popcountll (word_at little p 0)) (drop 8 p) else (bits, p))"
  by pat_completeness auto
termination
  by (relation "measure (\<lambda>(_, _, p). length p)") auto

function pop_by_64 :: "bool \<Rightarrow> nat \<Rightarrow> byte list \<Rightarrow> nat \<times> byte list" where
  "pop_by_64 little bits p =
     (if 64 \<le> length p
      then pop_by_64 little (bits + sum_list (map (\<lambda>lane. popcountll (word_at little p (8 * lane))) [0..<8])) (drop 64 p)
      else (bits, p))"
  by pat_completeness auto
termination
  by (relation "measure (\<lambda>(_, _, p). length p)") auto

declare pop_by_8.simps [simp del] pop_by_64.simps [simp del]

definition redisPopCountAvx512 :: "bool \<Rightarrow> nat \<Rightarrow> byte list \<Rightarrow> nat" where
  "redisPopCountAvx512 little addr s =
     (let (bits, p) = pop_align 64 addr 0 s;
          (bits, p) = pop_by_64 little bits p;
          (bits, p) = pop_by_8 little bits p
      in pop_rest bits p)"

definition redisPopCountAvx2 :: "bool \<Rightarrow> nat \<Rightarrow> byte list \<Rightarrow> nat" where
  "redisPopCountAvx2 little addr s =
     (let (bits, p) = pop_align 8 addr 0 s;
          (cnt, p) = pop_by_32 little 0 0 0 0 p;
          (bits, p) = pop_by_8 little (bits + cnt) p
      in pop_rest bits p)"

text \<open>Vectors of the AArch64 unit: per-byte counts, and the pairwise widening addition (\<open>vpaddlq\<close>), also into an
  accumulator (\<open>vpadalq\<close>).\<close>

definition vcntq_u8 :: "byte list \<Rightarrow> byte list" where
  "vcntq_u8 d = map (\<lambda>b. of_nat (length (filter (bit b) [0..<8]))) d"

fun vpaddlq :: "'a::len word list \<Rightarrow> 'b::len word list" where
  "vpaddlq (x # y # zs) = (ucast x + ucast y) # vpaddlq zs"
| "vpaddlq _ = []"

definition vaddq :: "'a::len word list \<Rightarrow> 'a word list \<Rightarrow> 'a word list" where
  "vaddq xs ys = map2 (+) xs ys"

definition vpadalq_u8 :: "16 word list \<Rightarrow> byte list \<Rightarrow> 16 word list" where
  "vpadalq_u8 acc c = vaddq acc (vpaddlq c)"

definition vld1q_u8 :: "byte list \<Rightarrow> nat \<Rightarrow> byte list" where
  "vld1q_u8 p i = take 16 (drop i p)"

type_synonym accs = "16 word list \<times> 16 word list \<times> 16 word list \<times> 16 word list"

definition neon_128 :: "accs \<Rightarrow> byte list \<Rightarrow> accs" where
  "neon_128 acc p =
     (case acc of (acc0, acc1, acc2, acc3) \<Rightarrow>
        (vpadalq_u8 (vpadalq_u8 acc0 (vcntq_u8 (vld1q_u8 p 0))) (vcntq_u8 (vld1q_u8 p 64)),
         vpadalq_u8 (vpadalq_u8 acc1 (vcntq_u8 (vld1q_u8 p 16))) (vcntq_u8 (vld1q_u8 p 80)),
         vpadalq_u8 (vpadalq_u8 acc2 (vcntq_u8 (vld1q_u8 p 32))) (vcntq_u8 (vld1q_u8 p 96)),
         vpadalq_u8 (vpadalq_u8 acc3 (vcntq_u8 (vld1q_u8 p 48))) (vcntq_u8 (vld1q_u8 p 112))))"

function neon_by_128 :: "accs \<Rightarrow> byte list \<Rightarrow> accs \<times> byte list" where
  "neon_by_128 acc p = (if 128 \<le> length p then neon_by_128 (neon_128 acc p) (drop 128 p) else (acc, p))"
  by pat_completeness auto
termination
  by (relation "measure (\<lambda>(_, p). length p)") auto

definition neon_reduce :: "accs \<Rightarrow> nat" where
  "neon_reduce acc =
     (case acc of (acc0, acc1, acc2, acc3) \<Rightarrow>
        let s01 = vaddq (vpaddlq acc0 :: 32 word list) (vpaddlq acc1);
            s23 = vaddq (vpaddlq acc2 :: 32 word list) (vpaddlq acc3);
            s64 = (vpaddlq (vaddq s01 s23) :: u64 list)
        in unat (s64 ! 0 + s64 ! 1))"

definition neon_quads :: "byte list \<Rightarrow> u64 list" where
  "neon_quads c = vpaddlq (vpaddlq (vpaddlq c :: 16 word list) :: 32 word list)"

function neon_by_64 :: "nat \<Rightarrow> byte list \<Rightarrow> nat \<times> byte list" where
  "neon_by_64 bits p =
     (if 64 \<le> length p
      then
        let t0 = neon_quads (vcntq_u8 (vld1q_u8 p 0));
            t1 = neon_quads (vcntq_u8 (vld1q_u8 p 16));
            t2 = neon_quads (vcntq_u8 (vld1q_u8 p 32));
            t3 = neon_quads (vcntq_u8 (vld1q_u8 p 48));
            s = vaddq (vaddq t0 t1) (vaddq t2 t3)
        in neon_by_64 (bits + unat (s ! 0 + s ! 1)) (drop 64 p)
      else (bits, p))"
  by pat_completeness auto
termination
  by (relation "measure (\<lambda>(_, p). length p)") auto

function neon_by_16 :: "nat \<Rightarrow> byte list \<Rightarrow> nat \<times> byte list" where
  "neon_by_16 bits p =
     (if 16 \<le> length p
      then let s = neon_quads (vcntq_u8 (vld1q_u8 p 0)) in neon_by_16 (bits + unat (s ! 0 + s ! 1)) (drop 16 p)
      else (bits, p))"
  by pat_completeness auto
termination
  by (relation "measure (\<lambda>(_, p). length p)") auto

declare neon_by_128.simps [simp del] neon_by_64.simps [simp del] neon_by_16.simps [simp del]

definition redisPopCountAarch64 :: "nat \<Rightarrow> byte list \<Rightarrow> nat" where
  "redisPopCountAarch64 addr s =
     (let (bits, p) = pop_align 16 addr 0 s;
          zeros = replicate 8 0;
          (acc, p) = neon_by_128 (zeros, zeros, zeros, zeros) p;
          (bits, p) = neon_by_64 (bits + neon_reduce acc) p;
          (bits, p) = neon_by_16 bits p
      in pop_rest bits p)"

text \<open>What the compiler and the processor offer.\<close>

datatype popcount_unit = AVX512 | AVX2 | NEON | SCALAR bool

definition redisPopcountAuto :: "popcount_unit \<Rightarrow> bool \<Rightarrow> nat \<Rightarrow> byte list \<Rightarrow> nat" where
  "redisPopcountAuto u little addr s =
     (case u of
        AVX512 \<Rightarrow> redisPopCountAvx512 little addr s
      | AVX2 \<Rightarrow> redisPopCountAvx2 little addr s
      | NEON \<Rightarrow> redisPopCountAarch64 addr s
      | SCALAR use_popcnt \<Rightarrow> redisPopcount little use_popcnt addr s)"

section \<open>Set bits of numbers and bytes\<close>

definition pc :: "nat \<Rightarrow> nat \<Rightarrow> nat" where
  "pc n v = (\<Sum>i<n. of_bool (bit v i))"

definition ones :: "byte \<Rightarrow> nat" where
  "ones b = pc 8 (unat b)"

definition ones_all :: "byte list \<Rightarrow> nat" where
  "ones_all s = sum_list (map ones s)"

lemma ones_all_simps [simp]:
  "ones_all [] = 0" "ones_all (b # s) = ones b + ones_all s" "ones_all (s @ t) = ones_all s + ones_all t"
  "ones_all (rev s) = ones_all s"
  by (simp_all add: ones_all_def rev_map sum_list_rev flip: rev_map)

lemma ones_all_split: "ones_all s = ones_all (take n s) + ones_all (drop n s)"
  by (metis append_take_drop_id ones_all_simps(3))

lemma ones_take_add: "ones_all (take (a + b) p) = ones_all (take a p) + ones_all (take b (drop a p))"
  by (simp add: take_add)

lemma bit_split:
  fixes x y :: nat
  assumes "x < 2 ^ a"
  shows "bit (x + 2 ^ a * y) i \<longleftrightarrow> (if i < a then bit x i else bit y (i - a))"
proof (cases "i < a")
  case True
  then obtain d where "a = Suc (i + d)" using less_imp_Suc_add by blast
  then have "2 ^ a * y = 2 ^ i * (2 * 2 ^ d * y)" by (simp add: power_add)
  then have "(x + 2 ^ a * y) div 2 ^ i = 2 * 2 ^ d * y + x div 2 ^ i" by (simp only: div_mult_self2 power_not_zero) simp
  then show ?thesis using True by (simp add: bit_iff_odd)
next
  case False
  then have "(2::nat) ^ i = 2 ^ a * 2 ^ (i - a)" by (simp flip: power_add)
  then have "(x + 2 ^ a * y) div 2 ^ i = y div 2 ^ (i - a)" using assms by (simp add: div_mult2_eq)
  then show ?thesis using False by (simp add: bit_iff_odd)
qed

lemma pc_split: "x < 2 ^ a \<Longrightarrow> pc (a + b) (x + 2 ^ a * y) = pc a x + pc b y"
proof (induction b)
  case 0
  then show ?case by (simp add: pc_def bit_split)
next
  case (Suc b)
  then show ?case by (simp add: pc_def bit_split)
qed

lemma pc_word: "length (filter (bit w) [0..<LENGTH('a)]) = pc LENGTH('a) (unat w)" for w :: "'a::len word"
proof -
  have "length (filter (bit w) [0..<n]) = (\<Sum>i<n. of_bool (bit w i))" for n by (induction n) auto
  then show ?thesis by (simp add: pc_def bit_unsigned_iff)
qed

lemma popcountll_pc: "popcountll w = pc 64 (unat w)"
  using pc_word [of w] by (simp add: popcountll_def)

lemma ones_filter: "length (filter (bit b) [0..<8]) = ones b"
  using pc_word [of b] by (simp add: ones_def)

lemma pc_le: "pc n v \<le> n"
proof -
  have "pc n v \<le> (\<Sum>i<n. 1)" unfolding pc_def by (rule sum_mono) simp
  then show ?thesis by simp
qed

lemma ones_le: "ones b \<le> 8"
  by (simp add: ones_def pc_le)

lemma ones_all_le: "ones_all s \<le> 8 * length s"
proof (induction s)
  case (Cons b s)
  then show ?case using ones_le [of b] by simp
qed simp

lemma le_unsigned_nat: "nat (le_unsigned (b # bs)) = unat b + 2 ^ 8 * nat (le_unsigned bs)"
  using le_unsigned_bounds [of bs] by (simp add: nat_add_distrib nat_mult_distrib)

lemma pc_le_unsigned: "pc (8 * length bs) (nat (le_unsigned bs)) = ones_all bs"
proof (induction bs)
  case Nil
  then show ?case by (simp add: pc_def)
next
  case (Cons b bs)
  have "pc (8 + 8 * length bs) (unat b + 2 ^ 8 * nat (le_unsigned bs)) = pc 8 (unat b) + pc (8 * length bs) (nat (le_unsigned bs))"
    by (rule pc_split) simp
  then show ?case using Cons le_unsigned_nat [of b bs] by (simp add: ones_def del: le_unsigned.simps)
qed

lemma pc_load_word:
  assumes "LENGTH('a) = 8 * length s"
  shows "pc LENGTH('a) (unat (load_word little s :: 'a::len word)) = ones_all s"
proof -
  define t where "t = (if little then s else rev s)"
  have t: "length t = length s" "ones_all t = ones_all s" by (simp_all add: t_def)
  have "le_unsigned t < 2 ^ LENGTH('a)" using le_unsigned_bounds [of t] assms t(1) by (simp add: power_mult)
  then have "uint (word_of_int (le_unsigned t) :: 'a word) = le_unsigned t" using le_unsigned_bounds [of t] by (simp add: uint_word_of_int)
  then have "unat (load_word little s :: 'a word) = nat (le_unsigned t)" by (simp add: load_word_def t_def unat_eq_nat_uint)
  then show ?thesis using pc_le_unsigned [of t] assms t by simp
qed

lemma popcount_word_at: "i + 8 \<le> length p \<Longrightarrow> popcountll (word_at little p i) = ones_all (take 8 (drop i p))"
  using pc_load_word [where ?'a = 64, of "take 8 (drop i p)" little] by (simp add: popcountll_pc word_at_def)

section \<open>The table\<close>

definition cnt4 :: "nat \<Rightarrow> nat" where "cnt4 i = [0, 1, 1, 2] ! i"

lemma less_4: "i < 4 \<longleftrightarrow> i = 0 \<or> i = 1 \<or> i = 2 \<or> i = (3::nat)"
  by auto

lemma four_blocks:
  fixes f :: "nat \<Rightarrow> nat list"
  assumes "length (f n) = m" "length (f (n + 1)) = m" "length (f (n + 2)) = m" "i < 4 * m" "0 < m"
  shows "(f n @ f (n + 1) @ f (n + 1) @ f (n + 2)) ! i = f (n + cnt4 (i div m)) ! (i mod m)"
proof -
  define q where "q = i div m"
  define r where "r = i mod m"
  have i: "i = q * m + r" by (simp add: q_def r_def)
  have r: "r < m" using assms(5) by (simp add: r_def)
  have "q < 4" using assms(4,5) by (simp add: q_def less_mult_imp_div_less mult.commute)
  then show ?thesis unfolding q_def [symmetric] r_def [symmetric] i less_4
    using assms r by (auto simp: nth_append cnt4_def numeral_2_eq_2 numeral_3_eq_3)
qed

lemma B_lengths [simp]: "length (B2 n) = 4" "length (B4 n) = 16" "length (B6 n) = 64"
  by (simp_all add: B2_def B4_def B6_def)

lemma B2_nth: "i < 4 \<Longrightarrow> B2 n ! i = n + cnt4 i"
  unfolding less_4 by (auto simp: B2_def cnt4_def)

lemma B4_nth: "i < 16 \<Longrightarrow> B4 n ! i = n + cnt4 (i div 4) + cnt4 (i mod 4)"
  unfolding B4_def by (subst four_blocks [of B2 n 4]) (simp_all add: B2_nth)

lemma B6_nth: "i < 64 \<Longrightarrow> B6 n ! i = n + cnt4 (i div 16) + cnt4 (i mod 16 div 4) + cnt4 (i mod 4)"
  unfolding B6_def by (subst four_blocks [of B4 n 16]) (simp_all add: B4_nth mod_mod_cancel)

lemma cnt4_pc: "i < 4 \<Longrightarrow> cnt4 i = pc 2 i"
proof -
  have "pc 2 i = of_bool (odd i) + of_bool (odd (i div 2))"
    by (simp add: pc_def lessThan_nat_numeral lessThan_Suc bit_iff_odd numeral_2_eq_2)
  then show "i < 4 \<Longrightarrow> cnt4 i = pc 2 i" unfolding less_4 by (auto simp: cnt4_def)
qed

lemma bitsinbyte_ones: "bitsinbyte ! unat b = ones b"
proof -
  define i where "i = unat b"
  have i: "i < 256" by (simp add: i_def)
  have "bitsinbyte ! i = cnt4 (i div 64) + cnt4 (i mod 64 div 16) + cnt4 (i mod 16 div 4) + cnt4 (i mod 4)"
    unfolding bitsinbyte_def using four_blocks [of B6 0 64 i] i by (simp add: B6_nth mod_mod_cancel numeral_2_eq_2)
  also have "\<dots> = pc 2 (i div 64) + pc 2 (i mod 64 div 16) + pc 2 (i mod 16 div 4) + pc 2 (i mod 4)"
    using i by (simp add: cnt4_pc less_mult_imp_div_less)
  also have "\<dots> = pc 8 i"
  proof -
    have "pc 8 i = pc 2 (i mod 4) + pc 6 (i div 4)" using pc_split [of "i mod 4" 2 6 "i div 4"] by simp
    moreover have "pc 6 (i div 4) = pc 2 (i div 4 mod 4) + pc 4 (i div 4 div 4)"
      using pc_split [of "i div 4 mod 4" 2 4 "i div 4 div 4"] by (simp del: div_mult2_eq)
    moreover have "pc 4 (i div 16) = pc 2 (i div 16 mod 4) + pc 2 (i div 16 div 4)"
      using pc_split [of "i div 16 mod 4" 2 2 "i div 16 div 4"] by (simp del: div_mult2_eq)
    moreover have "i mod 16 div 4 = i div 4 mod 4" using mod_mult2_eq [of i 4 4] by simp
    moreover have "i mod 64 div 16 = i div 16 mod 4" using mod_mult2_eq [of i 16 4] by simp
    moreover have "i div 16 div 4 = i div 64" "i div 4 div 4 = i div 16" by (simp_all flip: div_mult2_eq)
    ultimately show ?thesis by simp
  qed
  finally show ?thesis by (simp add: i_def ones_def)
qed

lemma pop_align_count: "pop_align m addr bits s = (bits', p) \<Longrightarrow> bits' + ones_all p = bits + ones_all s"
  by (induction m addr bits s arbitrary: bits' p rule: pop_align.induct) (auto simp: bitsinbyte_ones split: if_splits)

lemma pop_rest_count: "pop_rest bits s = bits + ones_all s"
  by (induction bits s rule: pop_rest.induct) (auto simp: bitsinbyte_ones)

section \<open>Sums inside a word\<close>

text \<open>A number as a list of fields of \<open>k\<close> bits.\<close>

definition fields :: "nat \<Rightarrow> nat list \<Rightarrow> nat" where
  "fields k xs = foldr (\<lambda>x a. x + 2 ^ k * a) xs 0"

lemma fields_simps [simp]: "fields k [] = 0" "fields k (x # xs) = x + 2 ^ k * fields k xs"
  by (simp_all add: fields_def)

fun evens :: "nat list \<Rightarrow> nat list" where
  "evens (x # y # zs) = x # evens zs"
| "evens _ = []"

fun odds :: "nat list \<Rightarrow> nat list" where
  "odds (x # y # zs) = y # odds zs"
| "odds _ = []"

fun pair_sums :: "nat list \<Rightarrow> nat list" where
  "pair_sums (x # y # zs) = (x + y) # pair_sums zs"
| "pair_sums _ = []"

definition low_masks :: "nat \<Rightarrow> nat \<Rightarrow> nat" where
  "low_masks k n = fields (2 * k) (replicate n (2 ^ k - 1))"

lemma and_split:
  fixes x y a b :: nat
  assumes "x < 2 ^ k" "y < 2 ^ k"
  shows "(x + 2 ^ k * a) AND (y + 2 ^ k * b) = (x AND y) + 2 ^ k * (a AND b)"
proof (rule bit_eqI)
  fix n
  have "x AND y < 2 ^ k" using assms by (metis take_bit_and take_bit_nat_eq_self_iff)
  then show "bit ((x + 2 ^ k * a) AND (y + 2 ^ k * b)) n \<longleftrightarrow> bit ((x AND y) + 2 ^ k * (a AND b)) n"
    using assms by (simp add: bit_and_iff bit_split)
qed

lemma and_low: "x < 2 ^ k \<Longrightarrow> (x + 2 ^ k * y) AND (2 ^ k - 1) = x" for x y :: nat
  using take_bit_eq_mask [of k "x + 2 ^ k * y"] by (simp add: take_bit_eq_mod mask_eq_exp_minus_1)

lemma fields_pairs: "even (length xs) \<Longrightarrow> fields k xs = fields (2 * k) (evens xs) + 2 ^ k * fields (2 * k) (odds xs)"
  by (induction xs rule: evens.induct) (auto simp: algebra_simps power_mult power2_eq_square)

lemma fields_sums: "fields k (evens xs) + fields k (odds xs) = fields k (pair_sums xs)"
proof (induction xs rule: evens.induct)
  case (1 x y zs)
  have "fields k (evens (x # y # zs)) + fields k (odds (x # y # zs)) = (x + y) + 2 ^ k * (fields k (evens zs) + fields k (odds zs))"
    by (simp add: distrib_left)
  then show ?case using 1 by simp
qed auto

lemma fields_low:
  "even (length xs) \<Longrightarrow> (\<forall>x \<in> set xs. x < 2 ^ k) \<Longrightarrow> n = length xs div 2 \<Longrightarrow> fields k xs AND low_masks k n = fields (2 * k) (evens xs)"
proof (induction xs arbitrary: n rule: evens.induct)
  case (1 x y zs)
  then obtain m where n: "n = Suc m" "m = length zs div 2" by simp
  have xy: "x < 2 ^ k" "y < 2 ^ k" using 1 by auto
  have "x + 2 ^ k * y < 2 ^ k + 2 ^ k * y" using xy by simp
  also have "\<dots> \<le> 2 ^ (2 * k)" using xy mult_le_mono2 [of "Suc y" "2 ^ k" "2 ^ k"] by (simp add: mult_2 power_add)
  finally have lt: "x + 2 ^ k * y < 2 ^ (2 * k)" .
  have "(2::nat) ^ k \<le> 2 ^ (2 * k)" by (rule power_increasing) simp_all
  then have "(2::nat) ^ k - 1 < 2 ^ (2 * k)" using zero_less_power [of "2::nat" k] by linarith
  then have "((x + 2 ^ k * y) + 2 ^ (2 * k) * fields k zs) AND ((2 ^ k - 1) + 2 ^ (2 * k) * low_masks k m) =
      ((x + 2 ^ k * y) AND (2 ^ k - 1)) + 2 ^ (2 * k) * (fields k zs AND low_masks k m)" using lt by (intro and_split)
  moreover have "fields k zs AND low_masks k m = fields (2 * k) (evens zs)" using 1 n by (intro "1.IH") auto
  moreover have "fields k (x # y # zs) = (x + 2 ^ k * y) + 2 ^ (2 * k) * fields k zs" by (simp add: algebra_simps mult_2_right power_add)
  ultimately show ?case using xy and_low [of x k y] by (simp add: n low_masks_def add.assoc)
qed (auto simp: low_masks_def)

lemma evens_tail: "even (length xs) \<Longrightarrow> xs \<noteq> [] \<Longrightarrow> evens (tl xs @ [0]) = odds xs"
proof (induction xs rule: evens.induct)
  case (1 x y zs)
  then show ?case by (cases zs) auto
qed auto

lemma drop_fields: "\<forall>x \<in> set xs. x < 2 ^ k \<Longrightarrow> drop_bit k (fields k xs) = fields k (tl xs)"
  by (cases xs) (simp_all add: drop_bit_eq_div)

lemma fields_snoc: "fields k (xs @ [0]) = fields k xs"
  by (induction xs) auto

lemma fields_high:
  assumes "even (length xs)" "\<forall>x \<in> set xs. x < 2 ^ k" "n = length xs div 2"
  shows "drop_bit k (fields k xs) AND low_masks k n = fields (2 * k) (odds xs)"
proof (cases "xs = []")
  case False
  have "drop_bit k (fields k xs) = fields k (tl xs @ [0])" using drop_fields [OF assms(2)] by (simp add: fields_snoc)
  moreover have "\<forall>x \<in> set (tl xs @ [0]). x < 2 ^ k" using assms(2) by (cases xs) auto
  ultimately show ?thesis using fields_low [of "tl xs @ [0]" k n] assms(1,3) False evens_tail [OF assms(1) False] by simp
qed (simp add: low_masks_def)

lemma sum_pair_sums: "even (length xs) \<Longrightarrow> sum_list (pair_sums xs) = sum_list xs"
  by (induction xs rule: pair_sums.induct) auto

lemma length_pair_sums: "length (pair_sums xs) = length xs div 2"
  by (induction xs rule: pair_sums.induct) auto

lemma pair_sums_le: "\<forall>x \<in> set xs. x \<le> m \<Longrightarrow> \<forall>x \<in> set (pair_sums xs). x \<le> 2 * m"
  by (induction xs rule: pair_sums.induct) auto

lemma fields_less: "\<forall>x \<in> set xs. x < 2 ^ k \<Longrightarrow> fields k xs < 2 ^ (k * length xs)"
proof (induction xs)
  case (Cons x xs)
  then have "x + 2 ^ k * fields k xs < 2 ^ k + 2 ^ k * fields k xs" by simp
  also have "\<dots> \<le> 2 ^ k * 2 ^ (k * length xs)" using Cons mult_le_mono2 [of "Suc (fields k xs)" "2 ^ (k * length xs)" "2 ^ k"] by simp
  finally show ?case by (simp add: power_add)
qed simp

lemma fields_bits: "v < 2 ^ n \<Longrightarrow> fields 1 (map (\<lambda>i. of_bool (bit v i)) [0..<n]) = v"
proof -
  have "fields 1 (map of_bool bs) = horner_sum of_bool 2 bs" for bs by (induction bs) (simp_all del: One_nat_def add: horner_sum_simps)
  from this [of "map (bit v) [0..<n]"] show "v < 2 ^ n \<Longrightarrow> ?thesis"
    by (simp add: horner_sum_bit_eq_take_bit comp_def take_bit_nat_eq_self del: One_nat_def)
qed

lemma sum_bits: "sum_list (map (\<lambda>i. of_bool (bit v i)) [0..<n]) = pc n v"
  by (induction n) (simp_all add: pc_def)

lemma unat_field_ops:
  "unat (drop_bit k w) = drop_bit k (unat w)" "unat (w AND v) = unat w AND unat v" for w v :: "32 word"
  using unsigned_less [of w, where ?'a = nat] by (simp_all add: unsigned_and_eq unsigned_drop_bit_eq take_bit_nat_eq_self)

lemma mask_words:
  "unat (0x55555555 :: 32 word) = low_masks 1 16" "unat (0x33333333 :: 32 word) = low_masks 2 8"
  "unat (0x0F0F0F0F :: 32 word) = low_masks 4 4"
proof -
  have "replicate 16 x = [x, x, x, x, x, x, x, x, x, x, x, x, x, x, x, x]" "replicate 8 x = [x, x, x, x, x, x, x, x]"
    "replicate 4 x = [x, x, x, x]" for x :: nat by (simp_all add: numeral_eq_Suc)
  then show "unat (0x55555555 :: 32 word) = low_masks 1 16" "unat (0x33333333 :: 32 word) = low_masks 2 8"
    "unat (0x0F0F0F0F :: 32 word) = low_masks 4 4" by (simp_all add: low_masks_def)
qed

lemma swar_nibbles_fields:
  "\<exists>ts. length ts = 8 \<and> (\<forall>t \<in> set ts. t \<le> 4) \<and> unat (swar_nibbles w) = fields 4 ts \<and> sum_list ts = pc 32 (unat w)"
proof -
  define bs where "bs = map (\<lambda>i. of_bool (bit (unat w) i) :: nat) [0..<32]"
  define ss where "ss = pair_sums bs"
  have bs: "length bs = 32" "\<forall>b \<in> set bs. b \<le> 1" "\<forall>b \<in> set bs. b < 2 ^ 1" "fields 1 bs = unat w" "sum_list bs = pc 32 (unat w)"
    using fields_bits [of "unat w" 32] unsigned_less [of w] by (auto simp: bs_def sum_bits)
  have ss: "length ss = 16" "\<forall>s \<in> set ss. s \<le> 2" "sum_list ss = pc 32 (unat w)"
    using pair_sums_le [OF bs(2)] bs by (simp_all add: ss_def length_pair_sums sum_pair_sums)
  define a where "a = w - (drop_bit 1 w AND 0x55555555)"
  have "unat (drop_bit 1 w AND 0x55555555) = drop_bit 1 (fields 1 bs) AND low_masks 1 16"
    unfolding bs(4) by (simp only: unat_field_ops mask_words)
  also have "\<dots> = fields (2 * 1) (odds bs)" by (rule fields_high [OF _ bs(3)]) (simp_all add: bs(1))
  finally have "unat (drop_bit 1 w AND 0x55555555) = fields 2 (odds bs)" by (simp only: mult_1_right)
  moreover have "unat w = fields 2 (evens bs) + 2 * fields 2 (odds bs)"
    using fields_pairs [of bs 1] bs by simp
  ultimately have "unat a = fields 2 (evens bs) + fields 2 (odds bs)"
    unfolding a_def by (subst unat_sub) (simp_all add: word_le_nat_alt)
  then have a: "unat a = fields 2 ss" by (simp add: fields_sums ss_def)
  have ss4: "\<forall>s \<in> set ss. s < 2 ^ 2" using ss(2) by auto
  define ts where "ts = pair_sums ss"
  have ts: "length ts = 8" "\<forall>t \<in> set ts. t \<le> 4" "sum_list ts = pc 32 (unat w)"
    using pair_sums_le [OF ss(2)] ss by (simp_all add: ts_def length_pair_sums sum_pair_sums)
  have "unat (a AND 0x33333333) = fields 2 ss AND low_masks 2 8" "unat (drop_bit 2 a AND 0x33333333) = drop_bit 2 (fields 2 ss) AND low_masks 2 8"
    by (simp_all only: unat_field_ops mask_words a)
  moreover have "fields 2 ss AND low_masks 2 8 = fields (2 * 2) (evens ss)" by (rule fields_low [OF _ ss4]) (simp_all add: ss(1))
  moreover have "drop_bit 2 (fields 2 ss) AND low_masks 2 8 = fields (2 * 2) (odds ss)" by (rule fields_high [OF _ ss4]) (simp_all add: ss(1))
  ultimately have sum: "unat (a AND 0x33333333) + unat (drop_bit 2 a AND 0x33333333) = fields 4 ts"
    by (simp only: fields_sums ts_def) simp
  moreover have "fields 4 ts < 2 ^ 32" using fields_less [of ts 4] ts(1,2) by fastforce
  ultimately have "unat ((a AND 0x33333333) + (drop_bit 2 a AND 0x33333333)) = fields 4 ts"
    by (simp add: unat_word_ariths)
  then show ?thesis using ts by (auto simp: swar_nibbles_def a_def Let_def)
qed

lemma swar_bytes_fields:
  assumes "length ts = 8" "\<forall>t \<in> set ts. t \<le> 4" "unat a = fields 4 ts"
  shows "unat (swar_bytes a) = fields 8 (pair_sums ts)"
proof -
  obtain t0 t1 t2 t3 t4 t5 t6 t7 where ts: "ts = [t0, t1, t2, t3, t4, t5, t6, t7]"
    using assms(1) by (auto simp: length_Suc_conv numeral_eq_Suc)
  define us where "us = [t0 + t1, t1 + t2, t2 + t3, t3 + t4, t4 + t5, t5 + t6, t6 + t7, t7]"
  have us: "\<forall>u \<in> set us. u < 2 ^ 4" using assms(2) by (auto simp: us_def ts)
  have "drop_bit 4 (fields 4 ts) = fields 4 (tl ts)" using assms(2) by (intro drop_fields) auto
  then have sum: "unat a + unat (drop_bit 4 a) = fields 4 us" by (simp add: unat_field_ops assms(3) ts us_def)
  moreover have "fields 4 us < 2 ^ 32" using fields_less [OF us] by (simp add: us_def)
  ultimately have "unat (a + drop_bit 4 a) = fields 4 us" by (simp add: unat_word_ariths)
  then have "unat (swar_bytes a) = fields 4 us AND low_masks 4 4" by (simp only: swar_bytes_def unat_field_ops mask_words)
  also have "\<dots> = fields (2 * 4) (evens us)" using us by (intro fields_low) (simp_all add: us_def)
  finally show ?thesis by (simp add: us_def ts)
qed

definition quad :: "32 word \<Rightarrow> nat \<Rightarrow> nat \<Rightarrow> bool" where
  "quad x m n \<longleftrightarrow> (\<exists>u0 u1 u2 u3. unat x = u0 + 2 ^ 8 * (u1 + 2 ^ 8 * (u2 + 2 ^ 8 * u3)) \<and>
     u0 \<le> m \<and> u1 \<le> m \<and> u2 \<le> m \<and> u3 \<le> m \<and> u0 + u1 + u2 + u3 = n)"

lemma swar_word: "quad (swar_bytes (swar_nibbles w)) 8 (pc 32 (unat w))"
proof -
  obtain ts where ts: "length ts = 8" "\<forall>t \<in> set ts. t \<le> 4" "unat (swar_nibbles w) = fields 4 ts" "sum_list ts = pc 32 (unat w)"
    using swar_nibbles_fields [of w] by blast
  have "length (pair_sums ts) = 4" "\<forall>u \<in> set (pair_sums ts). u \<le> 8" "sum_list (pair_sums ts) = pc 32 (unat w)"
    using pair_sums_le [OF ts(2)] ts by (simp_all add: length_pair_sums sum_pair_sums)
  moreover from this(1) obtain u0 u1 u2 u3 where "pair_sums ts = [u0, u1, u2, u3]" by (auto simp: length_Suc_conv numeral_eq_Suc)
  ultimately show ?thesis using swar_bytes_fields [OF ts(1-3)] unfolding quad_def
    by (intro exI [of _ u0] exI [of _ u1] exI [of _ u2] exI [of _ u3]) simp
qed

text \<open>The product adds the four bytes up in the highest one.\<close>

lemma top_byte:
  assumes "u0 + u1 + u2 + u3 < 256" "unat x = u0 + 2 ^ 8 * (u1 + 2 ^ 8 * (u2 + 2 ^ 8 * u3))"
  shows "unat (drop_bit 24 (x * 0x01010101 :: 32 word)) = u0 + u1 + u2 + u3"
proof -
  define low where "low = u0 + 2 ^ 8 * (u0 + u1) + 2 ^ 16 * (u0 + u1 + u2)"
  define high where "high = u1 + u2 + u3 + 2 ^ 8 * (u2 + u3) + 2 ^ 16 * u3"
  have "unat x * 0x01010101 = (low + 2 ^ 24 * (u0 + u1 + u2 + u3)) + 2 ^ 32 * high"
    unfolding assms(2) low_def high_def by (simp add: algebra_simps)
  moreover have "low < 2 ^ 24" using assms(1) by (simp add: low_def)
  moreover have "low + 2 ^ 24 * (u0 + u1 + u2 + u3) < 2 ^ 32" using assms(1) by (simp add: low_def)
  ultimately have "unat (x * 0x01010101) = low + 2 ^ 24 * (u0 + u1 + u2 + u3)" by (simp add: unat_word_ariths)
  then have "unat (drop_bit 24 (x * 0x01010101)) = (low + 2 ^ 24 * (u0 + u1 + u2 + u3)) div 2 ^ 24"
    unfolding unat_field_ops by (simp only: drop_bit_eq_div)
  then show ?thesis using \<open>low < 2 ^ 24\<close> by simp
qed

lemma quad_add:
  assumes "quad x m n" "quad y m' n'" "m + m' < 256"
  shows "quad (x + y) (m + m') (n + n')"
proof -
  obtain u0 u1 u2 u3 where u: "unat x = u0 + 2 ^ 8 * (u1 + 2 ^ 8 * (u2 + 2 ^ 8 * u3))" "u0 \<le> m" "u1 \<le> m" "u2 \<le> m" "u3 \<le> m"
    "u0 + u1 + u2 + u3 = n" using assms(1) by (auto simp: quad_def)
  obtain v0 v1 v2 v3 where v: "unat y = v0 + 2 ^ 8 * (v1 + 2 ^ 8 * (v2 + 2 ^ 8 * v3))" "v0 \<le> m'" "v1 \<le> m'" "v2 \<le> m'" "v3 \<le> m'"
    "v0 + v1 + v2 + v3 = n'" using assms(2) by (auto simp: quad_def)
  have "unat x + unat y < 2 ^ 32" using u(1-5) v(1-5) assms(3) by simp
  then have "unat (x + y) = unat x + unat y" by (simp add: unat_word_ariths)
  then have "unat (x + y) = (u0 + v0) + 2 ^ 8 * ((u1 + v1) + 2 ^ 8 * ((u2 + v2) + 2 ^ 8 * (u3 + v3)))"
    unfolding u(1) v(1) by (simp add: algebra_simps)
  moreover have "(u0 + v0) + (u1 + v1) + (u2 + v2) + (u3 + v3) = n + n'" using u(6) v(6) by linarith
  ultimately show ?thesis unfolding quad_def using u(2-5) v(2-5) by (meson add_mono)
qed

lemma quad_total: "quad x m n \<Longrightarrow> n < 256 \<Longrightarrow> unat (drop_bit 24 (x * 0x01010101)) = n"
  unfolding quad_def using top_byte by blast

lemma pop_28_count:
  assumes "28 \<le> length p"
  shows "pop_28 little p = ones_all (take 28 p)"
proof -
  define w where "w i = (load_word little (take 4 (drop (4 * i) p)) :: 32 word)" for i
  define n where "n i = ones_all (take 4 (drop (4 * i) p))" for i
  have pc: "pc 32 (unat (w i)) = n i" if "i < 7" for i
    using pc_load_word [where ?'a = 32, of "take 4 (drop (4 * i) p)" little] assms that by (simp add: w_def n_def)
  have q: "quad (swar_bytes (swar_nibbles (w i))) 8 (n i)" if "i < 7" for i using swar_word [of "w i"] pc [OF that] by simp
  define x where "x = swar_bytes (swar_nibbles (w 0)) + swar_bytes (swar_nibbles (w 1)) + swar_bytes (swar_nibbles (w 2)) +
      swar_bytes (swar_nibbles (w 3)) + swar_bytes (swar_nibbles (w 4)) + swar_bytes (swar_nibbles (w 5)) + swar_bytes (swar_nibbles (w 6))"
  have "quad x (8 + 8 + 8 + 8 + 8 + 8 + 8) (n 0 + n 1 + n 2 + n 3 + n 4 + n 5 + n 6)"
    unfolding x_def by (intro quad_add q) simp_all
  moreover have all: "ones_all (take 28 p) = n 0 + n 1 + n 2 + n 3 + n 4 + n 5 + n 6"
    using ones_take_add [of 4 24 p] ones_take_add [of 4 20 "drop 4 p"] ones_take_add [of 4 16 "drop 8 p"]
      ones_take_add [of 4 12 "drop 12 p"] ones_take_add [of 4 8 "drop 16 p"] ones_take_add [of 4 4 "drop 20 p"] by (simp add: n_def)
  moreover have "n 0 + n 1 + n 2 + n 3 + n 4 + n 5 + n 6 < 256" using ones_all_le [of "take 28 p"] all by simp
  ultimately have "unat (drop_bit 24 (x * 0x01010101)) = ones_all (take 28 p)" by (simp only: quad_total)
  then show ?thesis by (simp add: pop_28_def w_def x_def Let_def)
qed

section \<open>The loops\<close>

lemma pop_by_28_count: "pop_by_28 little bits p = (bits', q) \<Longrightarrow> bits' + ones_all q = bits + ones_all p"
proof (induction little bits p arbitrary: bits' q rule: pop_by_28.induct)
  case (1 little bits p)
  show ?case
  proof (cases "28 \<le> length p")
    case True
    then have "pop_by_28 little (bits + pop_28 little p) (drop 28 p) = (bits', q)" using "1.prems" by (subst (asm) pop_by_28.simps) simp
    from "1.IH" [OF True this] show ?thesis using pop_28_count [OF True] ones_all_split [of p 28] by simp
  next
    case False
    then show ?thesis using "1.prems" by (subst (asm) pop_by_28.simps) simp
  qed
qed

lemma pop_by_32_count:
  "pop_by_32 little c0 c1 c2 c3 p = (cnt, q) \<Longrightarrow> cnt + ones_all q = c0 + c1 + c2 + c3 + ones_all p"
proof (induction little c0 c1 c2 c3 p arbitrary: cnt q rule: pop_by_32.induct)
  case (1 little c0 c1 c2 c3 p)
  show ?case
  proof (cases "32 \<le> length p")
    case True
    have "ones_all (take 32 p) = ones_all (take 8 p) + ones_all (take 8 (drop 8 p)) + ones_all (take 8 (drop 16 p)) + ones_all (take 8 (drop 24 p))"
      using ones_take_add [of 8 24 p] ones_take_add [of 8 16 "drop 8 p"] ones_take_add [of 8 8 "drop 16 p"] by simp
    moreover have "pop_by_32 little (c0 + popcountll (word_at little p 0)) (c1 + popcountll (word_at little p 8))
        (c2 + popcountll (word_at little p 16)) (c3 + popcountll (word_at little p 24)) (drop 32 p) = (cnt, q)"
      using "1.prems" True by (subst (asm) pop_by_32.simps) simp
    from "1.IH" [OF True this] have "cnt + ones_all q = c0 + ones_all (take 8 p) + (c1 + ones_all (take 8 (drop 8 p))) +
        (c2 + ones_all (take 8 (drop 16 p))) + (c3 + ones_all (take 8 (drop 24 p))) + ones_all (drop 32 p)"
      using True by (simp add: popcount_word_at)
    ultimately show ?thesis using ones_all_split [of p 32] by simp
  next
    case False
    then show ?thesis using "1.prems" by (subst (asm) pop_by_32.simps) simp
  qed
qed

lemma pop_by_8_count: "pop_by_8 little bits p = (bits', q) \<Longrightarrow> bits' + ones_all q = bits + ones_all p"
proof (induction little bits p arbitrary: bits' q rule: pop_by_8.induct)
  case (1 little bits p)
  show ?case
  proof (cases "8 \<le> length p")
    case True
    then have "pop_by_8 little (bits + popcountll (word_at little p 0)) (drop 8 p) = (bits', q)" using "1.prems" by (subst (asm) pop_by_8.simps) simp
    from "1.IH" [OF True this] show ?thesis using True ones_all_split [of p 8] by (simp add: popcount_word_at)
  next
    case False
    then show ?thesis using "1.prems" by (subst (asm) pop_by_8.simps) simp
  qed
qed

lemma lanes_count: "8 * n \<le> length p \<Longrightarrow> sum_list (map (\<lambda>lane. popcountll (word_at little p (8 * lane))) [0..<n]) = ones_all (take (8 * n) p)"
proof (induction n)
  case (Suc n)
  then show ?case using ones_take_add [of "8 * n" 8 p] by (simp add: popcount_word_at add.commute)
qed simp

lemma pop_by_64_count: "pop_by_64 little bits p = (bits', q) \<Longrightarrow> bits' + ones_all q = bits + ones_all p"
proof (induction little bits p arbitrary: bits' q rule: pop_by_64.induct)
  case (1 little bits p)
  show ?case
  proof (cases "64 \<le> length p")
    case True
    have "pop_by_64 little (bits + sum_list (map (\<lambda>lane. popcountll (word_at little p (8 * lane))) [0..<8])) (drop 64 p) = (bits', q)"
      using "1.prems" True unfolding pop_by_64.simps [of little bits p] by (simp only: if_True)
    from "1.IH" [OF True this] show ?thesis using True lanes_count [of 8 p little] ones_all_split [of p 64] by simp
  next
    case False
    then show ?thesis using "1.prems" by (subst (asm) pop_by_64.simps) simp
  qed
qed

lemma redisPopcount_count: "redisPopcount little use_popcnt addr s = ones_all s"
  by (auto simp: redisPopcount_def pop_rest_count split: prod.split dest!: pop_align_count pop_by_28_count pop_by_32_count)

lemma redisPopCountAvx512_count: "redisPopCountAvx512 little addr s = ones_all s"
  by (auto simp: redisPopCountAvx512_def pop_rest_count split: prod.split dest!: pop_align_count pop_by_64_count pop_by_8_count)

lemma redisPopCountAvx2_count: "redisPopCountAvx2 little addr s = ones_all s"
  by (auto simp: redisPopCountAvx2_def pop_rest_count split: prod.split dest!: pop_align_count pop_by_32_count pop_by_8_count)

section \<open>Lanes\<close>

text \<open>A vector of \<open>k\<close> lanes, each at most \<open>m\<close>, that add up to \<open>n\<close>.\<close>

definition lanes :: "'a::len word list \<Rightarrow> nat \<Rightarrow> nat \<Rightarrow> nat \<Rightarrow> bool" where
  "lanes xs k m n \<longleftrightarrow> length xs = k \<and> (\<forall>x \<in> set xs. unat x \<le> m) \<and> sum_list (map unat xs) = n"

lemma unat_add_small: "unat x \<le> m \<Longrightarrow> unat y \<le> m' \<Longrightarrow> m + m' < 2 ^ LENGTH('a) \<Longrightarrow> unat (x + y) = unat x + unat y"
  for x y :: "'a::len word"
  by (simp add: unat_word_ariths)

lemma lanes_vaddq:
  assumes "lanes xs k m n" "lanes ys k m' n'" "m + m' < 2 ^ LENGTH('a)"
  shows "lanes (vaddq xs ys :: 'a::len word list) k (m + m') (n + n')"
proof -
  have "length xs = length ys" using assms by (simp add: lanes_def)
  then show ?thesis using assms
  proof (induction xs ys arbitrary: k n n' rule: list_induct2)
    case Nil
    then show ?case by (simp add: lanes_def vaddq_def)
  next
    case (Cons x xs y ys)
    have "unat x \<le> m" "unat y \<le> m'" using Cons.prems by (simp_all add: lanes_def)
    then have sum: "unat (x + y) = unat x + unat y" using Cons.prems(3) by (rule unat_add_small)
    have "lanes (vaddq xs ys) (length xs) (m + m') (sum_list (map unat xs) + sum_list (map unat ys))"
      using Cons.prems Cons.hyps by (intro Cons.IH) (simp_all add: lanes_def)
    then show ?case using Cons.prems sum by (simp add: lanes_def vaddq_def)
  qed
qed

lemma lanes_vpaddlq:
  assumes "lanes xs k m n" "even k" "2 * m < 2 ^ LENGTH('b)"
  shows "lanes (vpaddlq (xs :: 'a::len word list) :: 'b::len word list) (k div 2) (2 * m) n"
  using assms
proof (induction xs arbitrary: k n rule: vpaddlq.induct)
  case (1 x y zs)
  have le: "unat x \<le> m" "unat y \<le> m" using "1.prems" by (simp_all add: lanes_def)
  then have "unat (ucast x :: 'b word) = unat x" "unat (ucast y :: 'b word) = unat y" using "1.prems"(3) by (simp_all add: unsigned_ucast_eq take_bit_nat_eq_self)
  then have sum: "unat (ucast x + ucast y :: 'b word) = unat x + unat y" using le "1.prems"(3) unat_add_small [of "ucast x :: 'b word" m "ucast y" m] by simp
  have "lanes (vpaddlq zs :: 'b word list) (length zs div 2) (2 * m) (sum_list (map unat zs))"
    using "1.prems" by (intro "1.IH") (auto simp: lanes_def)
  then show ?case using "1.prems" sum le by (auto simp: lanes_def)
qed (auto simp: lanes_def)

lemma lanes_vcntq: "length d = k \<Longrightarrow> lanes (vcntq_u8 d) k 8 (ones_all d)"
proof -
  have "unat (of_nat (ones b) :: byte) = ones b" for b using ones_le [of b] by (simp add: unat_of_nat)
  then show "length d = k \<Longrightarrow> ?thesis" by (auto simp: lanes_def vcntq_u8_def ones_filter ones_le ones_all_def comp_def)
qed

lemma lanes_2: "lanes (xs :: u64 list) 2 m n \<Longrightarrow> 2 * m < 2 ^ 64 \<Longrightarrow> unat (xs ! 0 + xs ! 1) = n"
proof -
  assume xs: "lanes xs 2 m n" "2 * m < 2 ^ 64"
  then obtain x y where "xs = [x, y]" by (auto simp: lanes_def length_Suc_conv numeral_2_eq_2)
  then show ?thesis using xs unat_add_small [of x m y m] by (simp add: lanes_def)
qed

lemma neon_quads_lanes: "length d = 16 \<Longrightarrow> lanes (neon_quads (vcntq_u8 d)) 2 64 (ones_all d)"
proof -
  assume "length d = 16"
  from lanes_vcntq [OF this] have "lanes (vpaddlq (vcntq_u8 d) :: 16 word list) (16 div 2) (2 * 8) (ones_all d)" by (rule lanes_vpaddlq) simp_all
  then have "lanes (vpaddlq (vpaddlq (vcntq_u8 d) :: 16 word list) :: 32 word list) (16 div 2 div 2) (2 * (2 * 8)) (ones_all d)" by (rule lanes_vpaddlq) simp_all
  then have "lanes (neon_quads (vcntq_u8 d)) (16 div 2 div 2 div 2) (2 * (2 * (2 * 8))) (ones_all d)" unfolding neon_quads_def by (rule lanes_vpaddlq) simp_all
  then show ?thesis by simp
qed

lemma vpadal_lanes:
  assumes "lanes acc 8 m n" "length d = 16" "m + 16 < 2 ^ 16"
  shows "lanes (vpadalq_u8 acc (vcntq_u8 d)) 8 (m + 16) (n + ones_all d)"
proof -
  have "lanes (vpaddlq (vcntq_u8 d) :: 16 word list) (16 div 2) (2 * 8) (ones_all d)" by (rule lanes_vpaddlq [OF lanes_vcntq [OF assms(2)]]) simp_all
  then show ?thesis unfolding vpadalq_u8_def using assms(1,3) by (intro lanes_vaddq) simp_all
qed

definition accs_sum :: "accs \<Rightarrow> nat \<Rightarrow> nat \<Rightarrow> bool" where
  "accs_sum acc m n \<longleftrightarrow> (case acc of (acc0, acc1, acc2, acc3) \<Rightarrow> \<exists>n0 n1 n2 n3. n = n0 + n1 + n2 + n3 \<and>
     lanes acc0 8 m n0 \<and> lanes acc1 8 m n1 \<and> lanes acc2 8 m n2 \<and> lanes acc3 8 m n3)"

lemma length_vld1q: "i + 16 \<le> length p \<Longrightarrow> length (vld1q_u8 p i) = 16"
  by (simp add: vld1q_u8_def)

lemma neon_128_sum:
  assumes "accs_sum acc m n" "128 \<le> length p" "m + 32 < 2 ^ 16"
  shows "accs_sum (neon_128 acc p) (m + 32) (n + ones_all (take 128 p))"
proof -
  obtain acc0 acc1 acc2 acc3 where acc: "acc = (acc0, acc1, acc2, acc3)" by (cases acc) auto
  define c where "c i = ones_all (vld1q_u8 p i)" for i
  obtain n0 n1 n2 n3 where n: "n = n0 + n1 + n2 + n3" and l: "lanes acc0 8 m n0" "lanes acc1 8 m n1" "lanes acc2 8 m n2" "lanes acc3 8 m n3"
    using assms(1) by (auto simp: accs_sum_def acc)
  have two: "lanes (vpadalq_u8 (vpadalq_u8 a (vcntq_u8 (vld1q_u8 p i))) (vcntq_u8 (vld1q_u8 p j))) 8 (m + 16 + 16) (k + c i + c j)"
    if "lanes a 8 m k" "i + 16 \<le> 128" "j + 16 \<le> 128" for a k i j
    unfolding c_def using that assms(2,3) by (intro vpadal_lanes length_vld1q) simp_all
  have "ones_all (take 128 p) = c 0 + c 16 + c 32 + c 48 + c 64 + c 80 + c 96 + c 112"
    using ones_take_add [of 16 112 p] ones_take_add [of 16 96 "drop 16 p"] ones_take_add [of 16 80 "drop 32 p"]
      ones_take_add [of 16 64 "drop 48 p"] ones_take_add [of 16 48 "drop 64 p"] ones_take_add [of 16 32 "drop 80 p"]
      ones_take_add [of 16 16 "drop 96 p"] by (simp add: c_def vld1q_u8_def)
  then have "n + ones_all (take 128 p) = (n0 + c 0 + c 64) + (n1 + c 16 + c 80) + (n2 + c 32 + c 96) + (n3 + c 48 + c 112)"
    by (simp add: n)
  moreover have m: "m + 32 = m + 16 + 16" by simp
  ultimately show ?thesis unfolding accs_sum_def acc neon_128_def prod.case m
    using two [OF l(1), of 0 64] two [OF l(2), of 16 80] two [OF l(3), of 32 96] two [OF l(4), of 48 112]
    by (intro exI conjI) (assumption | simp)+
qed

lemma neon_by_128_sum:
  "accs_sum acc m n \<Longrightarrow> m + 32 * (length p div 128) < 2 ^ 16 \<Longrightarrow> neon_by_128 acc p = (acc', q) \<Longrightarrow>
   \<exists>m' n'. accs_sum acc' m' n' \<and> m' < 2 ^ 16 \<and> n' + ones_all q = n + ones_all p"
proof (induction acc p arbitrary: m n rule: neon_by_128.induct)
  case (1 acc p)
  show ?case
  proof (cases "128 \<le> length p")
    case True
    then have div: "length p div 128 = Suc (length (drop 128 p) div 128)" by (simp add: le_div_geq)
    then have lt: "m + 32 + 32 * (length (drop 128 p) div 128) < 2 ^ 16" using "1.prems"(2) by linarith
    have "neon_by_128 (neon_128 acc p) (drop 128 p) = (acc', q)" using "1.prems"(3) True by (subst (asm) neon_by_128.simps) simp
    moreover have "accs_sum (neon_128 acc p) (m + 32) (n + ones_all (take 128 p))"
      using "1.prems"(1,2) True div by (intro neon_128_sum) simp_all
    ultimately have "\<exists>m' n'. accs_sum acc' m' n' \<and> m' < 2 ^ 16 \<and> n' + ones_all q = n + ones_all (take 128 p) + ones_all (drop 128 p)"
      using lt by (intro "1.IH" [OF True])
    then show ?thesis using ones_all_split [of p 128] by (simp add: add.assoc)
  next
    case False
    then have "acc' = acc" "q = p" using "1.prems"(3) by (subst (asm) neon_by_128.simps; simp)+
    then show ?thesis using "1.prems"(1,2) by (intro exI [of _ m] exI [of _ n]) simp
  qed
qed

lemma neon_reduce_sum: "accs_sum acc m n \<Longrightarrow> m < 2 ^ 16 \<Longrightarrow> neon_reduce acc = n"
proof -
  assume a: "accs_sum acc m n" and m: "m < 2 ^ 16"
  obtain acc0 acc1 acc2 acc3 where acc: "acc = (acc0, acc1, acc2, acc3)" by (cases acc) auto
  obtain n0 n1 n2 n3 where n: "n = n0 + n1 + n2 + n3" and l: "lanes acc0 8 m n0" "lanes acc1 8 m n1" "lanes acc2 8 m n2" "lanes acc3 8 m n3"
    using a by (auto simp: accs_sum_def acc)
  have "lanes (vpaddlq a :: 32 word list) (8 div 2) (2 * m) k" if "lanes a 8 m k" for a :: "16 word list" and k
    using that m by (intro lanes_vpaddlq) simp_all
  note p = this [OF l(1)] this [OF l(2)] this [OF l(3)] this [OF l(4)]
  have "lanes (vaddq (vaddq (vpaddlq acc0) (vpaddlq acc1)) (vaddq (vpaddlq acc2) (vpaddlq acc3)) :: 32 word list)
      (8 div 2) (2 * m + 2 * m + (2 * m + 2 * m)) (n0 + n1 + (n2 + n3))"
    using m by (intro lanes_vaddq p) simp_all
  then have "lanes (vpaddlq (vaddq (vaddq (vpaddlq acc0) (vpaddlq acc1)) (vaddq (vpaddlq acc2) (vpaddlq acc3)) :: 32 word list) :: u64 list)
      (8 div 2 div 2) (2 * (2 * m + 2 * m + (2 * m + 2 * m))) (n0 + n1 + (n2 + n3))"
    using m by (intro lanes_vpaddlq) simp_all
  then show ?thesis using lanes_2 m by (simp add: neon_reduce_def acc n add.assoc)
qed

lemma neon_by_64_count: "neon_by_64 bits p = (bits', q) \<Longrightarrow> bits' + ones_all q = bits + ones_all p"
proof (induction bits p arbitrary: bits' q rule: neon_by_64.induct)
  case (1 bits p)
  show ?case
  proof (cases "64 \<le> length p")
    case True
    define t where "t i = neon_quads (vcntq_u8 (vld1q_u8 p i))" for i
    define s where "s = vaddq (vaddq (t 0) (t 16)) (vaddq (t 32) (t 48))"
    define c where "c i = ones_all (vld1q_u8 p i)" for i
    have "lanes (t i) 2 64 (c i)" if "i \<le> 48" for i
      unfolding t_def c_def using that True by (intro neon_quads_lanes length_vld1q) simp
    then have "lanes s 2 (64 + 64 + (64 + 64)) (c 0 + c 16 + (c 32 + c 48))" unfolding s_def by (intro lanes_vaddq) simp_all
    then have "unat (s ! 0 + s ! 1) = c 0 + c 16 + (c 32 + c 48)" by (rule lanes_2) simp
    also have "\<dots> = ones_all (take 64 p)"
      using ones_take_add [of 16 48 p] ones_take_add [of 16 32 "drop 16 p"] ones_take_add [of 16 16 "drop 32 p"] by (simp add: c_def vld1q_u8_def)
    finally have sum: "unat (s ! 0 + s ! 1) = ones_all (take 64 p)" .
    have "neon_by_64 bits p = neon_by_64 (bits + unat (s ! 0 + s ! 1)) (drop 64 p)"
      using True by (subst neon_by_64.simps) (simp add: s_def t_def Let_def)
    then have "neon_by_64 (bits + unat (s ! 0 + s ! 1)) (drop 64 p) = (bits', q)" using "1.prems" by simp
    then have "bits' + ones_all q = bits + unat (s ! 0 + s ! 1) + ones_all (drop 64 p)"
      unfolding s_def t_def by (intro "1.IH" [OF True refl refl refl refl refl])
    then show ?thesis using sum ones_all_split [of p 64] by simp
  next
    case False
    then show ?thesis using "1.prems" by (subst (asm) neon_by_64.simps) simp
  qed
qed

lemma neon_by_16_count: "neon_by_16 bits p = (bits', q) \<Longrightarrow> bits' + ones_all q = bits + ones_all p"
proof (induction bits p arbitrary: bits' q rule: neon_by_16.induct)
  case (1 bits p)
  show ?case
  proof (cases "16 \<le> length p")
    case True
    define s where "s = neon_quads (vcntq_u8 (vld1q_u8 p 0))"
    have "lanes s 2 64 (ones_all (vld1q_u8 p 0))" unfolding s_def using True by (intro neon_quads_lanes length_vld1q) simp
    then have sum: "unat (s ! 0 + s ! 1) = ones_all (take 16 p)" using lanes_2 by (fastforce simp: vld1q_u8_def)
    have "neon_by_16 bits p = neon_by_16 (bits + unat (s ! 0 + s ! 1)) (drop 16 p)"
      using True by (subst neon_by_16.simps) (simp add: s_def Let_def)
    then have "neon_by_16 (bits + unat (s ! 0 + s ! 1)) (drop 16 p) = (bits', q)" using "1.prems" by simp
    then have "bits' + ones_all q = bits + unat (s ! 0 + s ! 1) + ones_all (drop 16 p)"
      unfolding s_def by (intro "1.IH" [OF True refl])
    then show ?thesis using sum ones_all_split [of p 16] by simp
  next
    case False
    then show ?thesis using "1.prems" by (subst (asm) neon_by_16.simps) simp
  qed
qed

lemma length_pop_align: "pop_align m addr bits s = (bits', p) \<Longrightarrow> length p \<le> length s"
  by (induction m addr bits s rule: pop_align.induct) (auto split: if_splits)

lemma redisPopCountAarch64_count:
  assumes "length s < 262144"
  shows "redisPopCountAarch64 addr s = ones_all s"
proof -
  obtain b1 p1 where 1: "pop_align 16 addr 0 s = (b1, p1)" by fastforce
  let ?z = "replicate 8 0 :: 16 word list"
  obtain acc p2 where 2: "neon_by_128 (?z, ?z, ?z, ?z) p1 = (acc, p2)" by fastforce
  obtain b3 p3 where 3: "neon_by_64 (b1 + neon_reduce acc) p2 = (b3, p3)" by fastforce
  obtain b4 p4 where 4: "neon_by_16 b3 p3 = (b4, p4)" by fastforce
  have "accs_sum (?z, ?z, ?z, ?z) 0 0" by (simp add: accs_sum_def lanes_def sum_list_replicate)
  moreover have "0 + 32 * (length p1 div 128) < 2 ^ 16" using length_pop_align [OF 1] assms by (simp add: less_mult_imp_div_less)
  ultimately obtain m n where "accs_sum acc m n" "m < 2 ^ 16" "n + ones_all p2 = ones_all p1"
    using neon_by_128_sum [OF _ _ 2] by fastforce
  then have "neon_reduce acc + ones_all p2 = ones_all p1" using neon_reduce_sum by simp
  then have "b4 + ones_all p4 = ones_all s"
    using pop_align_count [OF 1] neon_by_64_count [OF 3] neon_by_16_count [OF 4] by simp
  then show ?thesis by (simp add: redisPopCountAarch64_def 1 2 3 4 pop_rest_count)
qed

section \<open>The lanes wrap\<close>

lemma replicate_numeral_8: "replicate 8 x = [x, x, x, x, x, x, x, x]"
  by (simp add: numeral_eq_Suc)

lemma neon_128_ones: "neon_128 (replicate 8 x, replicate 8 x, replicate 8 x, replicate 8 x) (replicate 128 0xFF @ s) =
    (replicate 8 (x + 32), replicate 8 (x + 32), replicate 8 (x + 32), replicate 8 (x + 32))"
proof -
  have "vld1q_u8 (replicate 128 0xFF @ s) i = replicate 16 0xFF" if "i + 16 \<le> 128" for i
    using that by (simp add: vld1q_u8_def take_drop)
  moreover have "ones 0xFF = 8" using ones_filter [of "0xFF"] by (simp add: upt_rec)
  then have "vcntq_u8 (replicate 16 0xFF) = replicate 16 8" by (simp add: vcntq_u8_def ones_filter)
  moreover have "replicate 16 y = [y, y, y, y, y, y, y, y, y, y, y, y, y, y, y, y]" for y :: byte by (simp add: numeral_eq_Suc)
  then have "vpaddlq (replicate 16 8 :: byte list) = (replicate 8 16 :: 16 word list)" by (simp add: replicate_numeral_8)
  moreover have "vaddq (replicate 8 y) (replicate 8 z) = replicate 8 (y + z)" for y z :: "16 word"
    by (simp add: vaddq_def replicate_numeral_8)
  ultimately show ?thesis by (simp add: neon_128_def vpadalq_u8_def add.assoc)
qed

lemma neon_by_128_ones:
  "neon_by_128 (replicate 8 x, replicate 8 x, replicate 8 x, replicate 8 x) (replicate (128 * k) 0xFF) =
     ((let y = replicate 8 (x + of_nat (32 * k)) in (y, y, y, y)), [])"
proof (induction k arbitrary: x)
  case 0
  then show ?case by (simp add: neon_by_128.simps Let_def)
next
  case (Suc k)
  have split: "replicate (128 * Suc k) (0xFF :: byte) = replicate 128 0xFF @ replicate (128 * k) 0xFF" by (simp add: replicate_add [symmetric])
  show ?case unfolding split
    by (subst neon_by_128.simps) (simp add: neon_128_ones Suc.IH Let_def add.assoc)
qed

lemma pop_align_aligned: "addr mod m = 0 \<Longrightarrow> pop_align m addr bits s = (bits, s)"
  by (cases s) auto

lemma redisPopCountAarch64_ones: "addr mod 16 = 0 \<Longrightarrow> redisPopCountAarch64 addr (replicate (128 * k) 0xFF) =
    neon_reduce (let y = replicate 8 (of_nat (32 * k)) in (y, y, y, y))"
  using neon_by_128_ones [of 0 k]
  by (simp add: redisPopCountAarch64_def pop_align_aligned neon_by_64.simps [of _ "[]"] neon_by_16.simps [of _ "[]"])

lemma redisPopcountAuto_count: "(u = NEON \<Longrightarrow> length s < 262144) \<Longrightarrow> redisPopcountAuto u little addr s = ones_all s"
  by (cases u) (simp_all add: redisPopcountAuto_def redisPopcount_count redisPopCountAvx512_count redisPopCountAvx2_count redisPopCountAarch64_count)

section \<open>Properties\<close>

text \<open>C15. Every routine \<open>redisPopcountAuto\<close> can select returns the number of set bits of the string, for every alignment and
  byte order: the table with and without the counting instruction, the sums inside 32-bit words, and the vector units; the
  one for AArch64 up to 262143 bytes.\<close>

theorem redisPopcountAuto_counts:
  assumes "u = NEON \<Longrightarrow> length s < 262144"
  shows "redisPopcountAuto u little addr s = ones_all s"
  using assms by (rule redisPopcountAuto_count)

theorem redisPopcountAuto_counts_witness: "redisPopcountAuto NEON True 5 [0xFF, 0x81, 0] = 10"
proof -
  have "ones 0xFF = 8" "ones 0x81 = 2" "ones 0 = 0"
    using ones_filter [of "0xFF"] ones_filter [of "0x81"] ones_filter [of 0] by (simp_all add: upt_rec)
  then show ?thesis using redisPopcountAuto_counts [of NEON "[0xFF, 0x81, 0]" True 5] by simp
qed

text \<open>C16. The routine for AArch64 adds up its lanes of 16 bits only after the whole string: the count of 262144 bytes with
  all bits set is 0 instead of 2097152.\<close>

theorem redisPopCountAarch64_wraps:
  "redisPopCountAarch64 0 (replicate 262144 0xFF) = 0 \<and> ones_all (replicate 262144 0xFF) = 2097152"
proof -
  have "(of_nat (32 * 2048) :: 16 word) = 0" by simp
  then have "redisPopCountAarch64 0 (replicate (128 * 2048) 0xFF) = neon_reduce (replicate 8 0, replicate 8 0, replicate 8 0, replicate 8 0)"
    using redisPopCountAarch64_ones [of 0 2048] by (simp only: Let_def)
  moreover have "neon_reduce (replicate 8 0, replicate 8 0, replicate 8 0, replicate 8 0) = 0"
    by (rule neon_reduce_sum [of _ 0]) (simp_all add: accs_sum_def lanes_def sum_list_replicate)
  moreover have "ones 0xFF = 8" using ones_filter [of "0xFF"] by (simp add: upt_rec)
  ultimately show ?thesis by (simp add: ones_all_def sum_list_replicate)
qed

end
