(* ===== verification/Spec2Isabelle.thy ===== *)
theory Spec2Isabelle
  imports Fwtree Intset Util_Numbers Util_Fixedpoint Glob Dict Dict_Scan Adlist Listpack_Spec Lzf Crc Key_Slot Rdb Bit_Count
begin

text \<open>
  The data structures, encodings and text conversions at the bottom of the Redis server bundled in this repository
  (\<open>src/redis-stable/src\<close>), modelled function by function and verified.

  \<^bold>\<open>The program.\<close>  The server keeps its keys in dictionaries and its small collections in compact byte blocks.  The dictionary
  (\<open>dict.c\<close>) is the hash table under every keyspace, with incremental rehashing and a cursor scan that clients drive; the
  Fenwick tree (\<open>fwtree.c\<close>) counts the keys of its parts.  Small sets of integers are \<open>intset.c\<close> blocks and small lists,
  hashes and sorted sets are \<open>listpack.c\<close> blocks; both arrive as untrusted bytes from snapshots, so both have validators.
  Doubly linked lists (\<open>adlist.c\<close>) hold clients, replies and jobs.  Text and numbers are converted by \<open>util.c\<close>, which also
  has the glob matcher behind the commands that take patterns.  Snapshots are written and read by \<open>rdb.c\<close> over the streams of
  \<open>rio.h\<close> and \<open>rio.c\<close>, with strings compressed by \<open>lzf_c.c\<close> and \<open>lzf_d.c\<close> and the whole protected by the checksum of
  \<open>crc64.c\<close>, \<open>crcspeed.c\<close> and \<open>crccombine.c\<close>.  Cluster slots are derived from keys and from patterns by \<open>crc16.c\<close>,
  \<open>cluster.h\<close> and \<open>cluster.c\<close>.

  \<^bold>\<open>Conventions.\<close>  A C struct is a record, an enum or a tagged union a datatype.  Raw memory is a list of bytes; an access
  outside a block, a failed assertion and the use of a null pointer are the value \<open>None\<close>, so a theorem that an operation
  returns \<open>Some\<close> says it stays inside its memory.  Failures the code reports are values of a second, inner type.  Integers are
  machine words where wrap-around matters (hashes, cursors, checksums, tags) and \<open>nat\<close> or \<open>int\<close> with the conversions written
  out elsewhere.  What the code takes from outside is a parameter: the hash function, comparison and resize policy of a
  dictionary, the allocator, the contents of fresh memory, the random numbers, the double passed to a printing function, the
  byte order of the machine.  Loops are recursive functions, total by a measure; the two loops that may run forever
  (\<open>dictRehash_full\<close> and the walk of a cursor scan) are stated with the number of rounds that is enough.

  \<^bold>\<open>Theories.\<close>
  \<^item> \<open>Redis_Prelude\<close>: byte blocks with \<open>memcpy\<close>, \<open>memmove\<close> and \<open>realloc\<close>, little-endian stores and loads, signed readings of
    words, and the interface \<open>simulation\<close> of a component that runs commands against a specification.
  \<^item> \<open>Bit_Rounds\<close>: the rounds that reverse a word by swapping halves, shared by the cursor and the checksum.
  \<^item> \<open>Byte_Text\<close>: bytes and characters, decimal texts as bytes, masks on bytes.
  \<^item> \<open>Fwtree\<close> (\<open>fwtree.c\<close>): updates, prefix sums and the descent; prefix sums are exact after any updates, the descent finds the
    counter in which a total is reached, and the walk over non-empty counters visits each once.
  \<^item> \<open>Intset\<close> (\<open>intset.c\<close>, \<open>intset.h\<close>): the sorted array of three widths with upgrades; refinement of a set of integers, exactness
    of the validator, wrap-around of the byte count of the tail move.
  \<^item> \<open>Util_Numbers\<close>, \<open>Util_Fixedpoint\<close>, \<open>Glob\<close> (\<open>util.c\<close>): printing and parsing of integers, memory sizes, fixed-point printing,
    and the glob matcher, which agrees with a declarative matching relation.
  \<^item> \<open>Dict\<close>, \<open>Dict_Scan\<close> (\<open>dict.c\<close>, \<open>dict.h\<close>): the two tables, insertion, replacement, deletion, growth, shrinking and incremental
    rehashing; refinement of a finite map by any sequence of operations (interface \<open>map_store\<close>), progress of rehashing, and the
    completeness of the scan across resizes.
  \<^item> \<open>Adlist\<close> (\<open>adlist.c\<close>, \<open>adlist.h\<close>): nodes in a heap with pointers; refinement of a plain list, duplication with roll-back.
  \<^item> \<open>Listpack_Codec\<close>, \<open>Listpack\<close>, \<open>Listpack_Ops\<close>, \<open>Listpack_Spec\<close> (\<open>listpack.c\<close>, \<open>listpack.h\<close>): the element encodings, the block and
    its edits, ranges, batches, merging and validation; refinement of a list of strings by any sequence of commands, soundness
    of the validator, and what it misses.
  \<^item> \<open>Lzf\<close> (\<open>lzf_c.c\<close>, \<open>lzf_d.c\<close>, \<open>lzfP.h\<close>): compression with an uninitialised hash table, decompression; round trip with size
    bounds, safety on arbitrary bytes.
  \<^item> \<open>Crc\<close> (\<open>crc64.c\<close>, \<open>crcspeed.c\<close>, \<open>crccombine.c\<close>): the sliced checksum of one, two and three segments on both byte orders and the
    joining of checksums by matrices over the field of two elements; equality with the bit-by-bit checksum.
  \<^item> \<open>Key_Slot\<close> (\<open>crc16.c\<close>, \<open>cluster.h\<close>, \<open>cluster.c\<close>): slots of keys with hash tags and of patterns; soundness of the slot of a
    pattern with respect to the matcher of \<open>Glob\<close>.
  \<^item> \<open>Rio\<close> (\<open>rio.h\<close>, \<open>rio.c\<close>): chunked reading and writing with a checksum method (interface \<open>checksum\<close>), the memory backend,
    protocol helpers.
  \<^item> \<open>Rdb\<close> (\<open>rdb.c\<close>, \<open>rdb.h\<close>): types, times, lengths, integers and strings of snapshots; round trip of sequences of strings through
    \<open>Lzf\<close>, \<open>Rio\<close> and \<open>Crc\<close>, and safety of loading arbitrary bytes.

  \<^bold>\<open>Bounds.\<close>  Lengths of blocks and strings are below \<open>2 ^ 63\<close> or \<open>2 ^ 64\<close>, as \<open>size_t\<close> requires, and below \<open>2 ^ 32\<close> where a
  header field of that width holds them; these are the only size hypotheses.  No function of the model takes fuel except the
  runs of a scan, whose bound is the number of buckets.

  \<^bold>\<open>Not modelled.\<close>  The event loop, networking, replication, the cluster bus, sentinel, the append-only file, the child
  processes, scripting, the module interface and the command line tools are system calls, callbacks and shared mutable state
  of the whole server; the functions on doubles (\<open>string2d\<close>, \<open>d2string\<close>, scores, geo distances) rest on the floating point
  of the C library.  The random selections and debugging output of \<open>dict.c\<close> and \<open>listpack.c\<close>, the file and socket backends of
  \<open>rio.c\<close> and the object level of \<open>rdb.c\<close> are left out.  The bundled third-party libraries under \<open>deps\<close> and \<open>modules\<close>, the test
  suites, and the services in TypeScript under \<open>src/apps\<close> are not part of the C program modelled here.
\<close>

end
